(* ===== verification/Prelude.thy ===== *)
theory Prelude
  imports Main "HOL-Library.AList" "HOL-Library.Word" "HOL-Library.Signed_Division" "HOL-Library.Multiset"
    "HOL-Library.Char_ord" "HOL-Library.List_Lexorder"
begin

text \<open>
  What every component of the development shares: the collections of rules, Go's
  fixed-width signed integers, and the generic lemmas on lists that several components use.

  Conventions.  A Go \<open>string\<close> is a byte string, modelled by HOL's \<open>string\<close> (a list of
  8-bit \<open>char\<close>).  A Go \<open>int\<close> or \<open>int64\<close> is an \<open>int\<close> in \<open>[-2^63, 2^63)\<close>; an operation that
  can leave this range is wrapped with \<open>i64\<close>.  Methods that hold one mutex for their whole
  body are atomic functions on the state.
\<close>

named_theorems i64_simps "rules that remove or push the 64-bit wrap"
named_theorems go_map_simps "rules on Go maps as association lists"

section \<open>64-bit signed integers\<close>

definition i64 :: "int \<Rightarrow> int" where
  "i64 x = (x + 2 ^ 63) mod 2 ^ 64 - 2 ^ 63"

definition in_i64 :: "int \<Rightarrow> bool" where
  "in_i64 x \<longleftrightarrow> - (2 ^ 63) \<le> x \<and> x < 2 ^ 63"

lemma i64_id [i64_simps]: "in_i64 x \<Longrightarrow> i64 x = x"
  by (simp add: i64_def in_i64_def)

lemma i64_0 [simp]: "i64 0 = 0"
  by (simp add: i64_def)

lemma i64_range: "in_i64 (i64 x)"
  by (simp add: i64_def in_i64_def)

lemma i64_cong: "x mod 2 ^ 64 = y mod 2 ^ 64 \<Longrightarrow> i64 x = i64 y"
  unfolding i64_def by (metis mod_add_left_eq)

lemma i64_mod: "i64 x mod 2 ^ 64 = x mod 2 ^ 64"
  unfolding i64_def by (simp add: mod_diff_left_eq)

lemma i64_add_left [i64_simps]: "i64 (i64 x + y) = i64 (x + y)"
  by (rule i64_cong) (metis i64_mod mod_add_left_eq)

lemma i64_add_right [i64_simps]: "i64 (x + i64 y) = i64 (x + y)"
  by (metis i64_add_left add.commute)

lemma i64_diff_left [i64_simps]: "i64 (i64 x - y) = i64 (x - y)"
  by (rule i64_cong) (metis i64_mod mod_diff_left_eq)

lemma i64_word: "i64 x = sint (word_of_int x :: 64 word)"
  by (simp add: i64_def sint_uint signed_take_bit_eq_take_bit_shift take_bit_eq_mod uint_word_of_int
      mod_add_left_eq)


section \<open>Lists\<close>

lemma mset_rotate: "mset (rotate n xs) = mset xs"
proof -
  have "mset (rotate n xs) = mset (drop (n mod length xs) xs) + mset (take (n mod length xs) xs)"
    by (simp add: rotate_drop_take)
  also have "\<dots> = mset (take (n mod length xs) xs @ drop (n mod length xs) xs)"
    by (simp add: add.commute del: append_take_drop_id)
  finally show ?thesis by simp
qed

lemma rotate_window:
  "map (\<lambda>k. f (xs ! ((m + k) mod length xs))) [0..<length xs] = map f (rotate m xs)"
  by (rule nth_equalityI) (simp_all add: nth_rotate)

end
