(* ===== verification/GoLib.thy ===== *)
theory GoLib
  imports Prelude
begin

text \<open>
  The parts of the Go language and its standard library that the packages use:
  \<open>strconv.Itoa\<close> and \<open>strconv.Atoi\<close>, the functions of package \<open>strings\<close>, Go maps, and
  instants and durations of package \<open>time\<close>.
\<close>

section \<open>Decimal numbers (strconv)\<close>

definition digit_char :: "nat \<Rightarrow> char" where
  "digit_char d = char_of (48 + d)"

definition is_digit :: "char \<Rightarrow> bool" where
  "is_digit c \<longleftrightarrow> 48 \<le> (of_char c :: nat) \<and> (of_char c :: nat) \<le> 57"

definition digit_val :: "char \<Rightarrow> nat" where
  "digit_val c = of_char c - 48"

fun dec :: "nat \<Rightarrow> string" where
  "dec n = (if n < 10 then [digit_char n] else dec (n div 10) @ [digit_char (n mod 10)])"

declare dec.simps [simp del]

definition itoa :: "int \<Rightarrow> string" where
  "itoa i = (if i < 0 then CHR ''-'' # dec (nat (- i)) else dec (nat i))"

datatype num_error = ErrSyntax | ErrRange

text \<open>\<open>strconv.ParseUint(s, 10, 64)\<close>: the range error is raised at the digit that overflows,
  before later characters are looked at.\<close>

fun parse_uint :: "nat \<Rightarrow> string \<Rightarrow> num_error + nat" where
  "parse_uint n [] = Inr n"
| "parse_uint n (c # cs) =
     (if \<not> is_digit c then Inl ErrSyntax
      else let m = n * 10 + digit_val c
           in if m \<ge> 2 ^ 64 then Inl ErrRange else parse_uint m cs)"

definition split_sign :: "string \<Rightarrow> bool \<times> string" where
  "split_sign s = (case s of [] \<Rightarrow> (False, [])
     | c # cs \<Rightarrow> if c = CHR ''-'' then (True, cs)
                else if c = CHR ''+'' then (False, cs) else (False, s))"

definition atoi :: "string \<Rightarrow> num_error + int" where
  "atoi s =
     (let (neg, ds) = split_sign s
      in if ds = [] then Inl ErrSyntax
         else case parse_uint 0 ds of
                Inl e \<Rightarrow> Inl e
              | Inr n \<Rightarrow>
                  if \<not> neg \<and> n \<ge> 2 ^ 63 then Inl ErrRange
                  else if neg \<and> n > 2 ^ 63 then Inl ErrRange
                  else Inr (if neg then - int n else int n))"

lemma digit_char_props [simp]:
  assumes "d < 10"
  shows "is_digit (digit_char d)" "digit_val (digit_char d) = d"
  using assms by (simp_all add: is_digit_def digit_val_def digit_char_def)

lemma digit_char_eval [simp]:
  "digit_char 0 = CHR ''0''" "digit_char 1 = CHR ''1''" "digit_char 2 = CHR ''2''"
  "digit_char 3 = CHR ''3''" "digit_char 4 = CHR ''4''" "digit_char 5 = CHR ''5''"
  "digit_char 6 = CHR ''6''" "digit_char 7 = CHR ''7''" "digit_char 8 = CHR ''8''"
  "digit_char 9 = CHR ''9''" "digit_char (Suc 0) = CHR ''1''"
  by (simp_all add: digit_char_def char_of_def bit_Suc_0_iff)

lemma dec_digits: "\<forall>c \<in> set (dec n). is_digit c"
proof (induction n rule: dec.induct)
  case (1 n)
  then show ?case by (cases "n < 10") (auto simp: dec.simps [of n])
qed

lemma dec_nonempty [simp]: "dec n \<noteq> []" "[] \<noteq> dec n"
  by (simp_all add: dec.simps [of n])

lemma parse_uint_append:
  "parse_uint a (xs @ ys) =
     (case parse_uint a xs of Inl e \<Rightarrow> Inl e | Inr n \<Rightarrow> parse_uint n ys)"
  by (induction a xs rule: parse_uint.induct) (auto simp: Let_def)

lemma parse_uint_dec: "n < 2 ^ 64 \<Longrightarrow> parse_uint 0 (dec n) = Inr n"
proof (induction n rule: dec.induct)
  case (1 n)
  show ?case
  proof (cases "n < 10")
    case True
    then show ?thesis by (simp add: dec.simps [of n])
  next
    case False
    with 1 have "parse_uint 0 (dec (n div 10)) = Inr (n div 10)" by simp
    moreover have "n div 10 * 10 + n mod 10 = n" by simp
    ultimately show ?thesis using False 1(2)
      by (simp add: dec.simps [of n] parse_uint_append Let_def)
  qed
qed

lemma digit_not_sign: "is_digit c \<Longrightarrow> c \<noteq> CHR ''-'' \<and> c \<noteq> CHR ''+''"
  by (auto simp: is_digit_def)

lemma split_sign_dec: "split_sign (dec n) = (False, dec n)"
proof -
  obtain c cs where "dec n = c # cs" by (cases "dec n") auto
  with dec_digits [of n] digit_not_sign show ?thesis by (auto simp: split_sign_def)
qed

lemma atoi_itoa: "in_i64 i \<Longrightarrow> atoi (itoa i) = Inr i"
proof (cases "i < 0")
  case True
  moreover assume "in_i64 i"
  ultimately have "nat (- i) \<le> 2 ^ 63" by (simp add: in_i64_def)
  with True show ?thesis
    by (simp add: atoi_def itoa_def split_sign_def parse_uint_dec)
next
  case False
  moreover assume "in_i64 i"
  ultimately have "nat i < 2 ^ 63" by (simp add: in_i64_def)
  with False show ?thesis
    by (simp add: atoi_def itoa_def split_sign_dec parse_uint_dec)
qed

lemma itoa_chars: "0 \<le> i \<Longrightarrow> \<forall>c \<in> set (itoa i). is_digit c"
  by (simp add: itoa_def dec_digits)

lemma dec_inj: "dec m = dec n \<Longrightarrow> m = n"
proof (induction m arbitrary: n rule: dec.induct)
  case (1 m)
  show ?case
  proof (cases "m < 10")
    case True
    with "1.prems" show ?thesis
      by (cases "n < 10") (auto simp: dec.simps [of m] dec.simps [of n] dest: arg_cong [of _ _ digit_val])
  next
    case False
    with "1.prems" have n: "\<not> n < 10" by (auto simp: dec.simps [of m] dec.simps [of n])
    with False "1.prems" have "dec (m div 10) = dec (n div 10)"
      and "digit_char (m mod 10) = digit_char (n mod 10)"
      by (auto simp: dec.simps [of m] dec.simps [of n])
    then have "m div 10 = n div 10" and "m mod 10 = n mod 10"
      using "1.IH" [OF False] by (auto dest: arg_cong [of _ _ digit_val])
    then show ?thesis by (metis div_mult_mod_eq)
  qed
qed

section \<open>Package strings\<close>

definition has_prefix :: "string \<Rightarrow> string \<Rightarrow> bool" where
  "has_prefix s p \<longleftrightarrow> take (length p) s = p"

definition trim_prefix :: "string \<Rightarrow> string \<Rightarrow> string" where
  "trim_prefix s p = (if has_prefix s p then drop (length p) s else s)"

text \<open>\<open>strings.Split(s, sep)\<close> for a separator of one byte.\<close>

fun split_on :: "char \<Rightarrow> string \<Rightarrow> string list" where
  "split_on d [] = [[]]"
| "split_on d (c # cs) =
     (if c = d then [] # split_on d cs
      else case split_on d cs of [] \<Rightarrow> [[c]] | w # ws \<Rightarrow> (c # w) # ws)"

text \<open>\<open>strings.SplitN(s, sep, 2)\<close> for a separator of one byte.\<close>

fun split_on2 :: "char \<Rightarrow> string \<Rightarrow> string list" where
  "split_on2 d s = (let pre = takeWhile (\<lambda>c. c \<noteq> d) s; rest = dropWhile (\<lambda>c. c \<noteq> d) s
                    in case rest of [] \<Rightarrow> [pre] | _ # suf \<Rightarrow> [pre, suf])"

fun join :: "string \<Rightarrow> string list \<Rightarrow> string" where
  "join sep [] = []"
| "join sep [w] = w"
| "join sep (w # ws) = w @ sep @ join sep ws"

definition to_lower_char :: "char \<Rightarrow> char" where
  "to_lower_char c =
     (if 65 \<le> (of_char c :: nat) \<and> (of_char c :: nat) \<le> 90 then char_of (of_char c + 32 :: nat) else c)"

definition to_upper_char :: "char \<Rightarrow> char" where
  "to_upper_char c =
     (if 97 \<le> (of_char c :: nat) \<and> (of_char c :: nat) \<le> 122 then char_of (of_char c - 32 :: nat) else c)"

lemma split_on_nonempty [simp]: "split_on d s \<noteq> []"
  by (induction s) (auto split: list.splits)

lemma split_on_no_sep: "d \<notin> set s \<Longrightarrow> split_on d s = [s]"
  by (induction s) auto

lemma join_split: "join [d] (split_on d s) = s"
proof (induction s)
  case (Cons c cs)
  obtain w ws where "split_on d cs = w # ws" by (cases "split_on d cs") auto
  with Cons show ?case by (cases ws) auto
qed simp

lemma split_on_append:
  "d \<notin> set w \<Longrightarrow> split_on d (w @ d # s) = w # split_on d s"
  by (induction w) auto


section \<open>Go maps\<close>

text \<open>
  A Go map is an association list with one pair for each key.  Indexing is \<open>map_of\<close>,
  \<open>m[k] = v\<close> is \<open>mput\<close>, \<open>delete(m, k)\<close> is \<open>mdel\<close>.  A \<open>range\<close> loop visits the keys in an
  order the language leaves open: such a loop takes a \<open>shuffle\<close>, which permutes the list of
  pairs (\<open>is_shuffle\<close>), and its theorems hold for every shuffle.
\<close>

type_synonym ('k, 'v) gomap = "('k \<times> 'v) list"

definition mput :: "'k \<Rightarrow> 'v \<Rightarrow> ('k, 'v) gomap \<Rightarrow> ('k, 'v) gomap" where
  "mput k v m = AList.update k v m"

definition mdel :: "'k \<Rightarrow> ('k, 'v) gomap \<Rightarrow> ('k, 'v) gomap" where
  "mdel k m = filter (\<lambda>p. fst p \<noteq> k) m"

definition mkeys :: "('k, 'v) gomap \<Rightarrow> 'k list" where
  "mkeys m = map fst m"

definition mwf :: "('k, 'v) gomap \<Rightarrow> bool" where
  "mwf m \<longleftrightarrow> distinct (map fst m)"

definition is_shuffle :: "('a list \<Rightarrow> 'a list) \<Rightarrow> bool" where
  "is_shuffle sh \<longleftrightarrow> (\<forall>xs. mset (sh xs) = mset xs)"

lemma mput_lookup [go_map_simps]: "map_of (mput k v m) = (map_of m)(k \<mapsto> v)"
  by (simp add: mput_def update_conv')

lemma mdel_lookup [go_map_simps]: "map_of (mdel k m) = (map_of m)(k := None)"
  by (induction m) (auto simp: mdel_def fun_eq_iff)

lemma set_mkeys: "set (mkeys m) = dom (map_of m)"
  by (simp add: mkeys_def dom_map_of_conv_image_fst)

lemma mwf_empty [go_map_simps]: "mwf []"
  by (simp add: mwf_def)

lemma mwf_mput [go_map_simps]: "mwf m \<Longrightarrow> mwf (mput k v m)"
  by (simp add: mwf_def mput_def distinct_update)

lemma mwf_mdel [go_map_simps]: "mwf m \<Longrightarrow> mwf (mdel k m)"
  by (induction m) (auto simp: mwf_def mdel_def)

lemma mdel_absent: "map_of m k = None \<Longrightarrow> mdel k m = m"
  by (induction m) (auto simp: mdel_def split: if_splits)

lemma mput_absent: "map_of m k = None \<Longrightarrow> mput k v m = m @ [(k, v)]"
  by (induction m) (auto simp: mput_def split: if_splits)

text \<open>What a put or a delete does to a sum over the values and to the number of pairs.\<close>

lemma sum_mdel:
  fixes f :: "'v \<Rightarrow> int"
  assumes "mwf m" "map_of m k = Some v"
  shows "sum_list (map (f \<circ> snd) (mdel k m)) = sum_list (map (f \<circ> snd) m) - f v"
  using assms
proof (induction m)
  case (Cons p m)
  show ?case
  proof (cases "fst p = k")
    case True
    with Cons.prems have "map_of m k = None" by (auto simp: mwf_def map_of_eq_None_iff)
    then have "mdel k m = m" by (rule mdel_absent)
    with True Cons.prems show ?thesis by (auto simp: mdel_def)
  next
    case False
    with Cons show ?thesis by (auto simp: mwf_def mdel_def)
  qed
qed simp

lemma length_mdel:
  assumes "mwf m" "map_of m k = Some v"
  shows "length (mdel k m) = length m - 1" "0 < length m"
proof -
  have "sum_list (map ((\<lambda>_. 1) \<circ> snd) xs) = int (length xs)" for xs :: "('a \<times> 'b) list"
    by (induction xs) auto
  with sum_mdel [OF assms, of "\<lambda>_. 1"] have eq: "int (length (mdel k m)) = int (length m) - 1" by metis
  show "0 < length m" using assms(2) by (cases m) auto
  with eq show "length (mdel k m) = length m - 1" by linarith
qed

lemma sum_mput:
  fixes f :: "'v \<Rightarrow> int"
  assumes "mwf m"
  shows "sum_list (map (f \<circ> snd) (mput k v m)) =
     sum_list (map (f \<circ> snd) m) + f v - (case map_of m k of None \<Rightarrow> 0 | Some w \<Rightarrow> f w)"
  using assms
proof (induction m)
  case (Cons p m)
  show ?case
  proof (cases "fst p = k")
    case True
    then show ?thesis by (cases p) (auto simp: mput_def)
  next
    case False
    with Cons show ?thesis by (cases p) (auto simp: mwf_def mput_def)
  qed
qed (simp add: mput_def)

lemma length_mput:
  "length (mput k v m) = (case map_of m k of None \<Rightarrow> Suc (length m) | Some _ \<Rightarrow> length m)"
  by (induction m) (auto simp: mput_def split: option.splits)

lemma mwf_lookup: "mwf m \<Longrightarrow> (k, v) \<in> set m \<longleftrightarrow> map_of m k = Some v"
  unfolding mwf_def by (metis map_of_SomeD map_of_is_SomeI)

lemma shuffle_set: "is_shuffle sh \<Longrightarrow> set (sh xs) = set xs"
  unfolding is_shuffle_def by (metis set_mset_mset)

lemma is_shuffle_id: "is_shuffle (\<lambda>xs. xs)"
  by (simp add: is_shuffle_def)

lemma is_shuffle_rev: "is_shuffle rev"
  by (simp add: is_shuffle_def)

section \<open>Instants and durations (time)\<close>

text \<open>
  A \<open>time.Time\<close> is the number of nanoseconds since the zero instant \<open>time.Time{}\<close>, so the
  zero instant is \<open>0\<close>; a \<open>time.Duration\<close> is a 64-bit number of nanoseconds.  \<open>Sub\<close> saturates
  at the ends of the range of durations, as the library's does.
\<close>

type_synonym time = int
type_synonym duration = int

definition time_sub :: "time \<Rightarrow> time \<Rightarrow> duration" where
  "time_sub t u = max (- (2 ^ 63)) (min (2 ^ 63 - 1) (t - u))"

definition time_add :: "time \<Rightarrow> duration \<Rightarrow> time" where
  "time_add t d = t + d"

definition is_zero_time :: "time \<Rightarrow> bool" where
  "is_zero_time t \<longleftrightarrow> t = 0"

abbreviation millisecond :: duration where "millisecond \<equiv> 1000000"
abbreviation second :: duration where "second \<equiv> 1000000000"
abbreviation hour :: duration where "hour \<equiv> 3600000000000"

lemma time_sub_range: "in_i64 (time_sub t u)"
  by (simp add: time_sub_def in_i64_def)

lemma time_sub_exact: "in_i64 (t - u) \<Longrightarrow> time_sub t u = t - u"
  unfolding time_sub_def in_i64_def by linarith

end
