(* ===== verification/Errors.thy ===== *)
theory Errors
  imports GoLib
begin

text \<open>
  Package \<open>pkg/errors\<close>: the error type every other package returns, its text, its HTTP
  status, its constructors, and the generic \<open>Result\<close>.  A Go \<open>error\<close> that is not one of this
  package's is an \<open>External\<close> value.  A nil pointer or nil interface is \<open>None\<close>.
\<close>

section \<open>Error types\<close>

type_synonym error_type = string

definition InvalidHTTPHeader :: error_type where "InvalidHTTPHeader = ''InvalidHTTPHeader''"
definition InternalError :: error_type where "InternalError = ''InternalError''"
definition InvalidHTML :: error_type where "InvalidHTML = ''InvalidHTML''"
definition ConnectionError :: error_type where "ConnectionError = ''ConnectionError''"
definition TLSError :: error_type where "TLSError = ''TLSError''"
definition TimeoutError :: error_type where "TimeoutError = ''TimeoutError''"
definition ProxyError :: error_type where "ProxyError = ''ProxyError''"
definition LoadBalancingError :: error_type where "LoadBalancingError = ''LoadBalancingError''"
definition CacheError :: error_type where "CacheError = ''CacheError''"
definition PoolError :: error_type where "PoolError = ''PoolError''"

lemmas error_type_defs =
  InvalidHTTPHeader_def InternalError_def InvalidHTML_def ConnectionError_def TLSError_def
  TimeoutError_def ProxyError_def LoadBalancingError_def CacheError_def PoolError_def

text \<open>
  A value of Go's interface \<open>error\<close>: a pointer to this package's \<open>Error\<close> with its four
  fields, or an error of another package, of which only its kind or its text is kept.
\<close>

datatype go_error =
    Error (Type: error_type) (Message: string) (Cause: "go_error option") (StatusCode: int)
  | NumError num_error string
  | DeadlineExceeded
  | Canceled
  | External string

section \<open>Constructors\<close>

definition New :: "error_type \<Rightarrow> string \<Rightarrow> go_error" where
  "New t msg = Error t msg None 0"

definition NewWithCause :: "error_type \<Rightarrow> string \<Rightarrow> go_error option \<Rightarrow> go_error" where
  "NewWithCause t msg cause = Error t msg cause 0"

definition NewWithStatus :: "error_type \<Rightarrow> string \<Rightarrow> int \<Rightarrow> go_error" where
  "NewWithStatus t msg code = Error t msg None code"

definition Explain :: "error_type \<Rightarrow> string \<Rightarrow> go_error" where
  "Explain t expl = New t expl"

definition OrErr :: "go_error option \<Rightarrow> error_type \<Rightarrow> string \<Rightarrow> go_error option" where
  "OrErr err t msg = (case err of Some e \<Rightarrow> Some (NewWithCause t msg (Some e)) | None \<Rightarrow> None)"

lemmas error_constructors = New_def NewWithCause_def NewWithStatus_def Explain_def OrErr_def

section \<open>Methods\<close>

text \<open>\<open>Error()\<close>: \<open>foreign\<close> gives the text of an error of another package.\<close>

fun error_text :: "(go_error \<Rightarrow> string) \<Rightarrow> go_error \<Rightarrow> string" where
  "error_text foreign (Error t msg cause code) =
     (case cause of
        Some c \<Rightarrow> t @ '': '' @ msg @ '' (caused by: '' @ error_text foreign c @ '')''
      | None \<Rightarrow> t @ '': '' @ msg)"
| "error_text foreign e = foreign e"

fun Unwrap :: "go_error \<Rightarrow> go_error option" where
  "Unwrap (Error t msg cause code) = cause"
| "Unwrap e = None"

definition HTTPStatusCode :: "go_error \<Rightarrow> int" where
  "HTTPStatusCode e =
     (if StatusCode e \<noteq> 0 then StatusCode e
      else if Type e = InvalidHTTPHeader then 400
      else if Type e = TimeoutError then 504
      else if Type e = ProxyError then 502
      else if Type e = TLSError then 400
      else 500)"

section \<open>Result\<close>

record 'a result =
  Value :: 'a
  RError :: "go_error option"

definition Ok :: "'a \<Rightarrow> 'a result" where
  "Ok v = \<lparr>Value = v, RError = None\<rparr>"

text \<open>\<open>Err[T]\<close> leaves \<open>Value\<close> at the zero value of \<open>T\<close>, which the model is given.\<close>

definition Err :: "'a \<Rightarrow> go_error option \<Rightarrow> 'a result" where
  "Err zero e = \<lparr>Value = zero, RError = e\<rparr>"

definition IsOk :: "'a result \<Rightarrow> bool" where
  "IsOk r \<longleftrightarrow> RError r = None"

definition IsErr :: "'a result \<Rightarrow> bool" where
  "IsErr r \<longleftrightarrow> RError r \<noteq> None"

definition result_Unwrap :: "'a result \<Rightarrow> 'a \<times> go_error option" where
  "result_Unwrap r = (if RError r = None then (Value r, None) else (Value r, RError r))"

section \<open>The chain of causes\<close>

text \<open>Following \<open>Unwrap\<close> to its end, as \<open>errors.Is\<close> of the standard library does.\<close>

fun unwrap_chain :: "go_error \<Rightarrow> go_error list" where
  "unwrap_chain (Error t msg cause code) =
     Error t msg cause code # (case cause of Some c \<Rightarrow> unwrap_chain c | None \<Rightarrow> [])"
| "unwrap_chain e = [e]"

lemma unwrap_chain_step:
  "unwrap_chain e = e # (case Unwrap e of Some c \<Rightarrow> unwrap_chain c | None \<Rightarrow> [])"
  by (cases e) auto

end
