(* ===== verification/LoadBalancing.thy ===== *)
theory LoadBalancing
  imports Errors
begin

text \<open>
  Package \<open>pkg/loadbalancing\<close>: the backends, the round-robin, random and least-connection
  balancers, the interface \<open>LoadBalancer\<close> they share, and the contract a client of the
  interface relies on (locale \<open>lb_contract\<close>).

  The slices of \<open>*Backend\<close> hold pointers to backends that one constructor call allocated;
  a pointer is the position of its backend in the balancer's list.  Every method takes the
  balancer's lock for its whole body, so it is one atomic function of the state.
\<close>

section \<open>Backends\<close>

record backend =
  Address :: string
  Healthy :: bool
  Weight :: int
  Connections :: int

definition IsHealthy :: "backend \<Rightarrow> bool" where
  "IsHealthy b = Healthy b"

definition SetHealthy :: "bool \<Rightarrow> backend \<Rightarrow> backend" where
  "SetHealthy h b = b\<lparr>Healthy := h\<rparr>"

definition IncrementConnections :: "backend \<Rightarrow> backend" where
  "IncrementConnections b = b\<lparr>Connections := i64 (Connections b + 1)\<rparr>"

definition DecrementConnections :: "backend \<Rightarrow> backend" where
  "DecrementConnections b = b\<lparr>Connections := i64 (Connections b - 1)\<rparr>"

definition GetConnections :: "backend \<Rightarrow> int" where
  "GetConnections b = Connections b"

definition new_backends :: "string list \<Rightarrow> backend list" where
  "new_backends addresses =
     map (\<lambda>addr. \<lparr>Address = addr, Healthy = True, Weight = 1, Connections = 0\<rparr>) addresses"

text \<open>The loop of \<open>MarkHealthy\<close> and \<open>MarkUnhealthy\<close>: it stops at the first match.\<close>

fun mark :: "bool \<Rightarrow> string \<Rightarrow> backend list \<Rightarrow> backend list" where
  "mark h a [] = []"
| "mark h a (b # bs) = (if Address b = a then SetHealthy h b # bs else b # mark h a bs)"

text \<open>\<open>getHealthyBackends\<close>: the pointers to the healthy backends, in list order.\<close>

definition getHealthyBackends :: "backend list \<Rightarrow> nat list" where
  "getHealthyBackends bs = filter (\<lambda>i. IsHealthy (bs ! i)) [0..<length bs]"

definition healthy_addresses :: "backend list \<Rightarrow> string list" where
  "healthy_addresses bs = map (\<lambda>i. Address (bs ! i)) (getHealthyBackends bs)"

definition no_healthy :: go_error where
  "no_healthy = New LoadBalancingError ''no healthy backends available''"

section \<open>Round robin\<close>

record round_robin =
  rr_backends :: "backend list"
  rr_current :: "64 word"

definition NewRoundRobin :: "string list \<Rightarrow> round_robin" where
  "NewRoundRobin addresses = \<lparr>rr_backends = new_backends addresses, rr_current = 0\<rparr>"

definition rr_SelectBackend :: "round_robin \<Rightarrow> (go_error + string) \<times> round_robin" where
  "rr_SelectBackend r =
     (let healthy = getHealthyBackends (rr_backends r)
      in if length healthy = 0 then (Inl no_healthy, r)
         else let c = rr_current r + 1;
                  index = unat c mod length healthy
              in (Inr (Address (rr_backends r ! (healthy ! index))), r\<lparr>rr_current := c\<rparr>))"

definition rr_UpdateBackends :: "string list \<Rightarrow> round_robin \<Rightarrow> round_robin" where
  "rr_UpdateBackends addresses r =
     r\<lparr>rr_backends := new_backends addresses, rr_current := 0\<rparr>"

definition rr_MarkHealthy :: "string \<Rightarrow> round_robin \<Rightarrow> round_robin" where
  "rr_MarkHealthy a r = r\<lparr>rr_backends := mark True a (rr_backends r)\<rparr>"

definition rr_MarkUnhealthy :: "string \<Rightarrow> round_robin \<Rightarrow> round_robin" where
  "rr_MarkUnhealthy a r = r\<lparr>rr_backends := mark False a (rr_backends r)\<rparr>"

definition rr_GetHealthyBackends :: "round_robin \<Rightarrow> string list" where
  "rr_GetHealthyBackends r = healthy_addresses (rr_backends r)"

section \<open>Random\<close>

text \<open>
  The generator \<open>rand.Rand\<close> is the infinite sequence of raw draws that the rejection loop
  of \<open>Intn\<close> will accept; \<open>Intn(n)\<close> takes the next one modulo \<open>n\<close>.
\<close>

type_synonym rand_source = "nat \<Rightarrow> nat"

definition Intn :: "nat \<Rightarrow> rand_source \<Rightarrow> nat \<times> rand_source" where
  "Intn n s = (s 0 mod n, \<lambda>i. s (Suc i))"

record random_balancer =
  rnd_backends :: "backend list"
  rnd_rand :: rand_source

definition NewRandom :: "rand_source \<Rightarrow> string list \<Rightarrow> random_balancer" where
  "NewRandom source addresses =
     \<lparr>rnd_backends = new_backends addresses, rnd_rand = source\<rparr>"

definition rnd_SelectBackend :: "random_balancer \<Rightarrow> (go_error + string) \<times> random_balancer" where
  "rnd_SelectBackend r =
     (let healthy = getHealthyBackends (rnd_backends r)
      in if length healthy = 0 then (Inl no_healthy, r)
         else let (index, s) = Intn (length healthy) (rnd_rand r)
              in (Inr (Address (rnd_backends r ! (healthy ! index))), r\<lparr>rnd_rand := s\<rparr>))"

definition rnd_UpdateBackends :: "string list \<Rightarrow> random_balancer \<Rightarrow> random_balancer" where
  "rnd_UpdateBackends addresses r = r\<lparr>rnd_backends := new_backends addresses\<rparr>"

definition rnd_MarkHealthy :: "string \<Rightarrow> random_balancer \<Rightarrow> random_balancer" where
  "rnd_MarkHealthy a r = r\<lparr>rnd_backends := mark True a (rnd_backends r)\<rparr>"

definition rnd_MarkUnhealthy :: "string \<Rightarrow> random_balancer \<Rightarrow> random_balancer" where
  "rnd_MarkUnhealthy a r = r\<lparr>rnd_backends := mark False a (rnd_backends r)\<rparr>"

definition rnd_GetHealthyBackends :: "random_balancer \<Rightarrow> string list" where
  "rnd_GetHealthyBackends r = healthy_addresses (rnd_backends r)"

section \<open>Least connection\<close>

record least_conn =
  lc_backends :: "backend list"

definition NewLeastConnection :: "string list \<Rightarrow> least_conn" where
  "NewLeastConnection addresses = \<lparr>lc_backends = new_backends addresses\<rparr>"

text \<open>
  The selection loop: \<open>minConnections\<close> starts at the sentinel \<open>-1\<close>, \<open>selected\<close> at nil.
\<close>

fun lc_scan :: "backend list \<Rightarrow> nat list \<Rightarrow> int \<Rightarrow> nat option \<Rightarrow> nat option" where
  "lc_scan bs [] minConnections selected = selected"
| "lc_scan bs (p # ps) minConnections selected =
     (let connections = GetConnections (bs ! p)
      in if minConnections = -1 \<or> connections < minConnections
         then lc_scan bs ps connections (Some p)
         else lc_scan bs ps minConnections selected)"

text \<open>
  \<open>SelectBackend\<close> holds the balancer's lock for reading only.  It picks a backend and then
  adds one to its count, atomically by itself; another selection may run between the two,
  the methods that change the list or the health may not.  \<open>lc_SelectBackend\<close> is a selection
  that no other one overlaps; \<open>pick_after_claims\<close> is about those that do.
\<close>

definition lc_pick :: "least_conn \<Rightarrow> go_error + nat" where
  "lc_pick l =
     (let bs = lc_backends l; healthy = getHealthyBackends bs
      in if length healthy = 0 then Inl no_healthy
         else case lc_scan bs healthy (-1) None of
                Some p \<Rightarrow> Inr p
              | None \<Rightarrow> Inl (New LoadBalancingError ''failed to select backend''))"

definition lc_claim :: "nat \<Rightarrow> least_conn \<Rightarrow> least_conn" where
  "lc_claim p l = l\<lparr>lc_backends := (lc_backends l)[p := IncrementConnections (lc_backends l ! p)]\<rparr>"

definition lc_SelectBackend :: "least_conn \<Rightarrow> (go_error + string) \<times> least_conn" where
  "lc_SelectBackend l =
     (case lc_pick l of
        Inl err \<Rightarrow> (Inl err, l)
      | Inr p \<Rightarrow> (Inr (Address (lc_backends l ! p)), lc_claim p l))"

definition lc_UpdateBackends :: "string list \<Rightarrow> least_conn \<Rightarrow> least_conn" where
  "lc_UpdateBackends addresses l = l\<lparr>lc_backends := new_backends addresses\<rparr>"

definition lc_MarkHealthy :: "string \<Rightarrow> least_conn \<Rightarrow> least_conn" where
  "lc_MarkHealthy a l = l\<lparr>lc_backends := mark True a (lc_backends l)\<rparr>"

definition lc_MarkUnhealthy :: "string \<Rightarrow> least_conn \<Rightarrow> least_conn" where
  "lc_MarkUnhealthy a l = l\<lparr>lc_backends := mark False a (lc_backends l)\<rparr>"

definition lc_GetHealthyBackends :: "least_conn \<Rightarrow> string list" where
  "lc_GetHealthyBackends l = healthy_addresses (lc_backends l)"


section \<open>The interface\<close>

text \<open>
  A value of the interface \<open>LoadBalancer\<close> is one of the three implementations; a call of a
  method through the interface dispatches on it.
\<close>

datatype balancer =
    LbRoundRobin round_robin
  | LbRandom random_balancer
  | LbLeastConn least_conn

fun lb_SelectBackend :: "balancer \<Rightarrow> (go_error + string) \<times> balancer" where
  "lb_SelectBackend (LbRoundRobin r) = map_prod id LbRoundRobin (rr_SelectBackend r)"
| "lb_SelectBackend (LbRandom r) = map_prod id LbRandom (rnd_SelectBackend r)"
| "lb_SelectBackend (LbLeastConn r) = map_prod id LbLeastConn (lc_SelectBackend r)"

fun lb_UpdateBackends :: "string list \<Rightarrow> balancer \<Rightarrow> balancer" where
  "lb_UpdateBackends xs (LbRoundRobin r) = LbRoundRobin (rr_UpdateBackends xs r)"
| "lb_UpdateBackends xs (LbRandom r) = LbRandom (rnd_UpdateBackends xs r)"
| "lb_UpdateBackends xs (LbLeastConn r) = LbLeastConn (lc_UpdateBackends xs r)"

fun lb_MarkHealthy :: "string \<Rightarrow> balancer \<Rightarrow> balancer" where
  "lb_MarkHealthy a (LbRoundRobin r) = LbRoundRobin (rr_MarkHealthy a r)"
| "lb_MarkHealthy a (LbRandom r) = LbRandom (rnd_MarkHealthy a r)"
| "lb_MarkHealthy a (LbLeastConn r) = LbLeastConn (lc_MarkHealthy a r)"

fun lb_MarkUnhealthy :: "string \<Rightarrow> balancer \<Rightarrow> balancer" where
  "lb_MarkUnhealthy a (LbRoundRobin r) = LbRoundRobin (rr_MarkUnhealthy a r)"
| "lb_MarkUnhealthy a (LbRandom r) = LbRandom (rnd_MarkUnhealthy a r)"
| "lb_MarkUnhealthy a (LbLeastConn r) = LbLeastConn (lc_MarkUnhealthy a r)"

fun lb_GetHealthyBackends :: "balancer \<Rightarrow> string list" where
  "lb_GetHealthyBackends (LbRoundRobin r) = rr_GetHealthyBackends r"
| "lb_GetHealthyBackends (LbRandom r) = rnd_GetHealthyBackends r"
| "lb_GetHealthyBackends (LbLeastConn r) = lc_GetHealthyBackends r"

text \<open>All the addresses a balancer was given, healthy or not (a view for specifications).\<close>

fun lb_members :: "balancer \<Rightarrow> string list" where
  "lb_members (LbRoundRobin r) = map Address (rr_backends r)"
| "lb_members (LbRandom r) = map Address (rnd_backends r)"
| "lb_members (LbLeastConn r) = map Address (lc_backends r)"

text \<open>A sequence of calls, in the order in which they take the balancer's lock.\<close>

datatype lb_event =
    SelectBackend
  | UpdateBackends "string list"
  | MarkHealthy string
  | MarkUnhealthy string

fun lb_step :: "('s \<Rightarrow> (go_error + string) \<times> 's) \<Rightarrow> (string list \<Rightarrow> 's \<Rightarrow> 's) \<Rightarrow> (string \<Rightarrow> 's \<Rightarrow> 's) \<Rightarrow>
    (string \<Rightarrow> 's \<Rightarrow> 's) \<Rightarrow> lb_event \<Rightarrow> 's \<Rightarrow> (go_error + string) list \<times> 's" where
  "lb_step sel upd up down SelectBackend s = (let (r, s') = sel s in ([r], s'))"
| "lb_step sel upd up down (UpdateBackends xs) s = ([], upd xs s)"
| "lb_step sel upd up down (MarkHealthy a) s = ([], up a s)"
| "lb_step sel upd up down (MarkUnhealthy a) s = ([], down a s)"

fun lb_run :: "('s \<Rightarrow> (go_error + string) \<times> 's) \<Rightarrow> (string list \<Rightarrow> 's \<Rightarrow> 's) \<Rightarrow> (string \<Rightarrow> 's \<Rightarrow> 's) \<Rightarrow>
    (string \<Rightarrow> 's \<Rightarrow> 's) \<Rightarrow> lb_event list \<Rightarrow> 's \<Rightarrow> (go_error + string) list \<times> 's" where
  "lb_run sel upd up down [] s = ([], s)"
| "lb_run sel upd up down (e # es) s =
     (let (rs, s') = lb_step sel upd up down e s; (rs', s'') = lb_run sel upd up down es s'
      in (rs @ rs', s''))"

definition balancer_run :: "lb_event list \<Rightarrow> balancer \<Rightarrow> (go_error + string) list \<times> balancer" where
  "balancer_run = lb_run lb_SelectBackend lb_UpdateBackends lb_MarkHealthy lb_MarkUnhealthy"

text \<open>Events after which a backend \<open>a\<close> that is down stays down.\<close>

fun leaves_down :: "string \<Rightarrow> lb_event \<Rightarrow> bool" where
  "leaves_down a SelectBackend = True"
| "leaves_down a (UpdateBackends xs) = (a \<notin> set xs \<and> distinct xs)"
| "leaves_down a (MarkHealthy b) = (b \<noteq> a)"
| "leaves_down a (MarkUnhealthy b) = True"

section \<open>Lists of backends\<close>

lemma healthy_addresses_eq: "healthy_addresses bs = map Address (filter Healthy bs)"
proof -
  have "map (\<lambda>i. Address (bs ! i)) (filter (\<lambda>i. Healthy (bs ! i)) [0..<length bs])
      = map Address (filter Healthy (map ((!) bs) [0..<length bs]))"
    by (simp add: filter_map comp_def)
  then show ?thesis
    by (simp add: healthy_addresses_def getHealthyBackends_def IsHealthy_def map_nth)
qed

lemma getHealthy_bound: "i \<in> set (getHealthyBackends bs) \<Longrightarrow> i < length bs \<and> Healthy (bs ! i)"
  by (simp add: getHealthyBackends_def IsHealthy_def)

lemma getHealthy_nonempty [simp]: "getHealthyBackends bs = [] \<longleftrightarrow> healthy_addresses bs = []"
  by (simp add: healthy_addresses_def)

lemma getHealthy_nth:
  "k < length (getHealthyBackends bs) \<Longrightarrow>
   Address (bs ! (getHealthyBackends bs ! k)) = healthy_addresses bs ! k"
  by (simp add: healthy_addresses_def)

lemma length_healthy: "length (getHealthyBackends bs) = length (healthy_addresses bs)"
  by (simp add: healthy_addresses_def)

lemma healthy_new_backends [simp]: "healthy_addresses (new_backends xs) = xs"
  by (simp add: healthy_addresses_eq new_backends_def filter_map comp_def)

lemma members_new_backends [simp]: "map Address (new_backends xs) = xs"
  by (simp add: new_backends_def comp_def)

lemma members_mark [simp]: "map Address (mark h a bs) = map Address bs"
  by (induction bs) (auto simp: SetHealthy_def)

lemma mark_absent: "a \<notin> set (map Address bs) \<Longrightarrow> mark h a bs = bs"
  by (induction bs) auto

lemma healthy_addresses_Nil [simp]: "healthy_addresses [] = []"
  by (simp add: healthy_addresses_eq)

lemma healthy_addresses_Cons [simp]:
  "healthy_addresses (b # bs) = (if Healthy b then Address b # healthy_addresses bs else healthy_addresses bs)"
  by (simp add: healthy_addresses_eq)

lemma healthy_subset: "x \<in> set (healthy_addresses bs) \<Longrightarrow> x \<in> set (map Address bs)"
  by (auto simp: healthy_addresses_eq)

lemma healthy_mark_down:
  "distinct (map Address bs) \<Longrightarrow>
   set (healthy_addresses (mark False a bs)) = set (healthy_addresses bs) - {a}"
  by (induction bs) (auto simp: SetHealthy_def dest: healthy_subset)

lemma healthy_mark_up:
  "distinct (map Address bs) \<Longrightarrow>
   set (healthy_addresses (mark True a bs)) =
     set (healthy_addresses bs) \<union> ({a} \<inter> set (map Address bs))"
  by (induction bs) (auto simp: SetHealthy_def dest: healthy_subset)

lemma increment_fields [simp]:
  "Address (IncrementConnections b) = Address b" "Healthy (IncrementConnections b) = Healthy b"
  by (simp_all add: IncrementConnections_def)

lemma members_increment [simp]:
  "p < length bs \<Longrightarrow> map Address (bs[p := IncrementConnections (bs ! p)]) = map Address bs"
  by (rule nth_equalityI) (auto simp: nth_list_update)

lemma healthy_increment [simp]:
  assumes "p < length bs"
  shows "getHealthyBackends (bs[p := IncrementConnections (bs ! p)]) = getHealthyBackends bs"
    and "healthy_addresses (bs[p := IncrementConnections (bs ! p)]) = healthy_addresses bs"
proof -
  let ?bs = "bs[p := IncrementConnections (bs ! p)]"
  have same: "Address (?bs ! i) = Address (bs ! i) \<and> Healthy (?bs ! i) = Healthy (bs ! i)" for i
    using assms by (cases "i = p") auto
  then show "getHealthyBackends ?bs = getHealthyBackends bs"
    by (simp add: getHealthyBackends_def IsHealthy_def)
  with same show "healthy_addresses ?bs = healthy_addresses bs"
    by (simp add: healthy_addresses_def)
qed


section \<open>The contract of a load balancer\<close>

text \<open>
  What a client of \<open>LoadBalancer\<close> relies on, for any implementation.  \<open>members\<close> is the list
  of configured addresses; the two laws on marking hold where an address occurs once in it.
\<close>

locale lb_contract =
  fixes sel :: "'s \<Rightarrow> (go_error + string) \<times> 's"
    and upd :: "string list \<Rightarrow> 's \<Rightarrow> 's"
    and up down :: "string \<Rightarrow> 's \<Rightarrow> 's"
    and healthy members :: "'s \<Rightarrow> string list"
  assumes select_none: "healthy s = [] \<Longrightarrow> sel s = (Inl no_healthy, s)"
    and select_some: "healthy s \<noteq> [] \<Longrightarrow> \<exists>a \<in> set (healthy s). fst (sel s) = Inr a"
    and select_frame: "healthy (snd (sel s)) = healthy s \<and> members (snd (sel s)) = members s"
    and update: "healthy (upd xs s) = xs \<and> members (upd xs s) = xs"
    and members_marks: "members (up a s) = members s \<and> members (down a s) = members s"
    and mark_down: "distinct (members s) \<Longrightarrow> set (healthy (down a s)) = set (healthy s) - {a}"
    and mark_up: "distinct (members s) \<Longrightarrow>
          set (healthy (up a s)) = set (healthy s) \<union> ({a} \<inter> set (members s))"
begin

lemma select_result:
  "case fst (sel s) of Inl e \<Rightarrow> e = no_healthy \<and> healthy s = [] | Inr a \<Rightarrow> a \<in> set (healthy s)"
  using select_none [of s] select_some [of s] by (cases "healthy s = []") auto

lemma step_stays_down:
  assumes "distinct (members s)" "a \<notin> set (healthy s)" "leaves_down a e"
  shows "Inr a \<notin> set (fst (lb_step sel upd up down e s))"
    and "distinct (members (snd (lb_step sel upd up down e s)))"
    and "a \<notin> set (healthy (snd (lb_step sel upd up down e s)))"
  using assms select_result [of s] select_frame [of s]
  by (cases e; auto simp: update members_marks mark_down mark_up split: prod.splits sum.splits)+

lemma run_stays_down:
  assumes "distinct (members s)" "a \<notin> set (healthy s)" "list_all (leaves_down a) es"
  shows "Inr a \<notin> set (fst (lb_run sel upd up down es s))"
  using assms
proof (induction es arbitrary: s)
  case (Cons e es)
  let ?s = "snd (lb_step sel upd up down e s)"
  from Cons.prems have e: "leaves_down a e" and es: "list_all (leaves_down a) es" by simp_all
  note step = step_stays_down [OF Cons.prems(1,2) e]
  have "Inr a \<notin> set (fst (lb_run sel upd up down es ?s))"
    by (rule Cons.IH [OF step(2,3) es])
  with step(1) show ?case by (simp add: split_beta Let_def)
qed simp

lemma down_never_selected:
  assumes "distinct (members s)" "list_all (leaves_down a) es"
  shows "Inr a \<notin> set (fst (lb_run sel upd up down es (down a s)))"
  using assms by (intro run_stays_down) (auto simp: members_marks mark_down)

lemma select_total_when_up:
  assumes "distinct (members s)" "a \<in> set (members s)"
  shows "\<exists>b. fst (sel (up a s)) = Inr b \<and> b \<in> set (healthy (up a s))"
proof -
  from assms have "a \<in> set (healthy (up a s))" by (simp add: mark_up)
  then have "healthy (up a s) \<noteq> []" by auto
  from select_some [OF this] show ?thesis by auto
qed

end

text \<open>Each of the three implementations keeps the contract.\<close>

lemma rr_select_healthy:
  assumes "healthy_addresses (rr_backends r) \<noteq> []"
  shows "rr_SelectBackend r =
     (Inr (healthy_addresses (rr_backends r) !
        (unat (rr_current r + 1) mod length (healthy_addresses (rr_backends r)))),
      r\<lparr>rr_current := rr_current r + 1\<rparr>)"
proof -
  have "0 < length (healthy_addresses (rr_backends r))" using assms by simp
  then show ?thesis
    by (simp add: rr_SelectBackend_def Let_def length_healthy getHealthy_nth)
qed

lemma rnd_select_healthy:
  assumes "healthy_addresses (rnd_backends r) \<noteq> []"
  shows "rnd_SelectBackend r =
     (Inr (healthy_addresses (rnd_backends r) !
        (rnd_rand r 0 mod length (healthy_addresses (rnd_backends r)))),
      r\<lparr>rnd_rand := (\<lambda>i. rnd_rand r (Suc i))\<rparr>)"
proof -
  have "0 < length (healthy_addresses (rnd_backends r))" using assms by simp
  then show ?thesis
    by (simp add: rnd_SelectBackend_def Intn_def Let_def length_healthy getHealthy_nth)
qed

lemma nth_mod_mem: "xs \<noteq> [] \<Longrightarrow> xs ! (k mod length xs) \<in> set xs"
  by simp

interpretation rr: lb_contract rr_SelectBackend rr_UpdateBackends rr_MarkHealthy rr_MarkUnhealthy
  rr_GetHealthyBackends "\<lambda>r. map Address (rr_backends r)"
proof (unfold_locales, goal_cases)
  case (1 s) then show ?case
    by (simp add: rr_SelectBackend_def rr_GetHealthyBackends_def length_healthy)
next
  case (2 s) then show ?case by (simp add: rr_GetHealthyBackends_def rr_select_healthy)
next
  case (3 s) show ?case
    by (cases "healthy_addresses (rr_backends s) = []")
      (simp add: rr_SelectBackend_def length_healthy,
       simp add: rr_GetHealthyBackends_def rr_select_healthy)
qed (simp_all add: rr_UpdateBackends_def rr_GetHealthyBackends_def rr_MarkHealthy_def
      rr_MarkUnhealthy_def healthy_mark_down healthy_mark_up)

interpretation rnd: lb_contract rnd_SelectBackend rnd_UpdateBackends rnd_MarkHealthy rnd_MarkUnhealthy
  rnd_GetHealthyBackends "\<lambda>r. map Address (rnd_backends r)"
proof (unfold_locales, goal_cases)
  case (1 s) then show ?case
    by (simp add: rnd_SelectBackend_def rnd_GetHealthyBackends_def length_healthy)
next
  case (2 s) then show ?case by (simp add: rnd_GetHealthyBackends_def rnd_select_healthy)
next
  case (3 s) show ?case
    by (cases "healthy_addresses (rnd_backends s) = []")
      (simp add: rnd_SelectBackend_def length_healthy,
       simp add: rnd_GetHealthyBackends_def rnd_select_healthy)
qed (simp_all add: rnd_UpdateBackends_def rnd_GetHealthyBackends_def rnd_MarkHealthy_def
      rnd_MarkUnhealthy_def healthy_mark_down healthy_mark_up)


section \<open>Least connection: the selection loop\<close>

lemma lc_select_unfold:
  "lc_SelectBackend l =
     (let bs = lc_backends l; healthy = getHealthyBackends bs
      in if length healthy = 0 then (Inl no_healthy, l)
         else case lc_scan bs healthy (-1) None of
                Some p \<Rightarrow> (Inr (Address (bs ! p)),
                           l\<lparr>lc_backends := bs[p := IncrementConnections (bs ! p)]\<rparr>)
              | None \<Rightarrow> (Inl (New LoadBalancingError ''failed to select backend''), l))"
  by (simp add: lc_SelectBackend_def lc_pick_def lc_claim_def Let_def split: option.splits)

text \<open>
  With non-negative counts the loop with its sentinel computes the library's leftmost
  minimum.
\<close>

lemma lc_scan_started:
  assumes "0 \<le> GetConnections (bs ! q)" "\<forall>p \<in> set ps. 0 \<le> GetConnections (bs ! p)"
  shows "lc_scan bs ps (GetConnections (bs ! q)) (Some q) =
     Some (arg_min_list (\<lambda>p. GetConnections (bs ! p)) (q # ps))"
  using assms
proof (induction ps arbitrary: q)
  case (Cons p ps)
  let ?f = "\<lambda>p. GetConnections (bs ! p)"
  show ?case
  proof (cases "?f p < ?f q")
    case True
    have "?f (arg_min_list ?f (p # ps)) = Min (?f ` set (p # ps))"
      by (rule f_arg_min_list_f) simp
    also have "\<dots> \<le> ?f p" by (rule Min_le) auto
    finally have "?f (arg_min_list ?f (p # ps)) \<le> ?f p" .
    with True have "\<not> ?f q \<le> ?f (arg_min_list ?f (p # ps))" by linarith
    with True Cons show ?thesis by (simp add: Let_def)
  next
    case False
    with Cons have "lc_scan bs (p # ps) (?f q) (Some q) = Some (arg_min_list ?f (q # ps))"
      by (simp add: Let_def)
    also have "arg_min_list ?f (q # ps) = arg_min_list ?f (q # p # ps)"
      using False by (cases ps) (auto simp: Let_def)
    finally show ?thesis .
  qed
qed simp

lemma lc_scan_min:
  assumes "ps \<noteq> []" "\<forall>p \<in> set ps. 0 \<le> GetConnections (bs ! p)"
  shows "lc_scan bs ps (-1) None = Some (arg_min_list (\<lambda>p. GetConnections (bs ! p)) ps)"
proof -
  obtain q qs where "ps = q # qs" using assms(1) by (cases ps) auto
  with assms(2) lc_scan_started [of bs q qs] show ?thesis by (simp add: Let_def)
qed

text \<open>The loop always selects one of the pointers it is given, whatever the counts are.\<close>

lemma lc_scan_started_some:
  "sel = Some q \<Longrightarrow> \<exists>p. lc_scan bs ps m sel = Some p \<and> p \<in> insert q (set ps)"
  by (induction bs ps m sel arbitrary: q rule: lc_scan.induct) (force simp: Let_def)+

lemma lc_scan_some:
  "ps \<noteq> [] \<Longrightarrow> \<exists>p. lc_scan bs ps (-1) None = Some p \<and> p \<in> set ps"
  using lc_scan_started_some by (cases ps) (auto simp: Let_def)

lemma lc_select_healthy:
  assumes "healthy_addresses (lc_backends l) \<noteq> []"
  obtains p where "lc_scan (lc_backends l) (getHealthyBackends (lc_backends l)) (-1) None = Some p"
    and "p \<in> set (getHealthyBackends (lc_backends l))" and "p < length (lc_backends l)"
    and "lc_SelectBackend l = (Inr (Address (lc_backends l ! p)),
           l\<lparr>lc_backends := (lc_backends l)[p := IncrementConnections (lc_backends l ! p)]\<rparr>)"
proof -
  from assms have "getHealthyBackends (lc_backends l) \<noteq> []" by simp
  then obtain p where p: "lc_scan (lc_backends l) (getHealthyBackends (lc_backends l)) (-1) None = Some p"
    "p \<in> set (getHealthyBackends (lc_backends l))"
    using lc_scan_some by blast
  with assms have "lc_SelectBackend l = (Inr (Address (lc_backends l ! p)),
           l\<lparr>lc_backends := (lc_backends l)[p := IncrementConnections (lc_backends l ! p)]\<rparr>)"
    by (simp add: lc_select_unfold Let_def)
  with p that getHealthy_bound show ?thesis by blast
qed

text \<open>
  Whatever other selections have claimed in the meantime, a pick still finds a backend exactly
  when one is healthy, and a healthy one: claims change counts only.
\<close>

lemma pick_after_claims:
  assumes "\<forall>p \<in> set ps. p < length (lc_backends l)"
  shows "case lc_pick (fold lc_claim ps l) of
      Inl err \<Rightarrow> err = no_healthy \<and> lc_GetHealthyBackends l = []
    | Inr p \<Rightarrow> p \<in> set (getHealthyBackends (lc_backends l))"
proof -
  have same: "getHealthyBackends (lc_backends (fold lc_claim ps l)) = getHealthyBackends (lc_backends l)"
    using assms
  proof (induction ps arbitrary: l)
    case (Cons p ps)
    then show ?case by (simp add: lc_claim_def)
  qed simp
  then have none: "healthy_addresses (lc_backends (fold lc_claim ps l)) = [] \<longleftrightarrow> healthy_addresses (lc_backends l) = []"
    by (metis getHealthy_nonempty)
  show ?thesis
  proof (cases "getHealthyBackends (lc_backends l) = []")
    case True
    then show ?thesis by (simp add: lc_pick_def none lc_GetHealthyBackends_def Let_def)
  next
    case False
    from lc_scan_some [OF this, of "lc_backends (fold lc_claim ps l)"] False show ?thesis
      by (auto simp: lc_pick_def same none Let_def)
  qed
qed

interpretation lc: lb_contract lc_SelectBackend lc_UpdateBackends lc_MarkHealthy lc_MarkUnhealthy
  lc_GetHealthyBackends "\<lambda>l. map Address (lc_backends l)"
proof (unfold_locales, goal_cases)
  case (1 s) then show ?case
    by (simp add: lc_select_unfold lc_GetHealthyBackends_def)
next
  case (2 s)
  then have "healthy_addresses (lc_backends s) \<noteq> []" by (simp add: lc_GetHealthyBackends_def)
  then show ?case
    by (rule lc_select_healthy) (auto simp: lc_GetHealthyBackends_def healthy_addresses_def)
next
  case (3 s)
  show ?case
  proof (cases "healthy_addresses (lc_backends s) = []")
    case True
    then show ?thesis by (simp add: lc_select_unfold)
  next
    case False
    then show ?thesis by (rule lc_select_healthy) (simp add: lc_GetHealthyBackends_def)
  qed
qed (simp_all add: lc_UpdateBackends_def lc_GetHealthyBackends_def lc_MarkHealthy_def
      lc_MarkUnhealthy_def healthy_mark_down healthy_mark_up)

text \<open>So does the dispatching interface value.\<close>

interpretation lb: lb_contract lb_SelectBackend lb_UpdateBackends lb_MarkHealthy lb_MarkUnhealthy
  lb_GetHealthyBackends lb_members
proof (unfold_locales, goal_cases)
  case (1 s) then show ?case
    by (cases s) (simp_all add: rr.select_none rnd.select_none lc.select_none)
next
  case (2 s) then show ?case
    by (cases s) (simp_all add: rr.select_some rnd.select_some lc.select_some)
next
  case (3 s) show ?case
    by (cases s) (simp_all add: rr.select_frame rnd.select_frame lc.select_frame)
next
  case (4 xs s) show ?case by (cases s) (simp_all add: rr.update rnd.update lc.update)
next
  case (5 a s) show ?case
    by (cases s) (simp_all add: rr.members_marks rnd.members_marks lc.members_marks)
next
  case (6 s a) then show ?case
    by (cases s) (simp_all add: rr.mark_down rnd.mark_down lc.mark_down)
next
  case (7 s a) then show ?case
    by (cases s) (simp_all add: rr.mark_up rnd.mark_up lc.mark_up)
qed


section \<open>Sequences of selections\<close>

lemma balancer_run_Nil: "balancer_run [] s = ([], s)"
  by (simp add: balancer_run_def)

lemma balancer_run_select:
  "balancer_run (SelectBackend # es) s =
     (let (r, s') = lb_SelectBackend s; (rs, s'') = balancer_run es s' in (r # rs, s''))"
  by (simp add: balancer_run_def split_beta Let_def)

lemma unat_Suc64: "unat (c :: 64 word) + 1 < 2 ^ 64 \<Longrightarrow> unat (c + 1) = unat c + 1"
  by (simp add: unat_word_ariths)

lemma rr_run_selects:
  assumes "healthy_addresses (rr_backends r) = h" "h \<noteq> []" "unat (rr_current r) + n < 2 ^ 64"
  shows "fst (balancer_run (replicate n SelectBackend) (LbRoundRobin r)) =
     map (\<lambda>k. Inr (h ! ((unat (rr_current r) + 1 + k) mod length h))) [0..<n]"
  using assms
proof (induction n arbitrary: r)
  case (Suc n)
  let ?r = "r\<lparr>rr_current := rr_current r + 1\<rparr>"
  from Suc.prems(3) have c: "unat (rr_current r + 1) = unat (rr_current r) + 1"
    by (intro unat_Suc64) simp
  have "fst (balancer_run (replicate n SelectBackend) (LbRoundRobin ?r)) =
     map (\<lambda>k. Inr (h ! ((unat (rr_current r) + 2 + k) mod length h))) [0..<n]"
    using Suc.IH [of ?r] Suc.prems c by simp
  moreover have "[0..<Suc n] = 0 # map Suc [0..<n]"
    by (simp add: upt_conv_Cons map_Suc_upt del: upt_Suc)
  ultimately show ?case using Suc.prems c
    by (simp add: balancer_run_select rr_select_healthy split_beta Let_def del: upt_Suc)
qed (simp add: balancer_run_Nil)

text \<open>Only selections, from freshly created backends: the counts after \<open>n\<close> of them.\<close>

definition spread :: "string list \<Rightarrow> nat \<Rightarrow> backend list" where
  "spread xs n = map (\<lambda>i. \<lparr>Address = xs ! i, Healthy = True, Weight = 1,
     Connections = int (n div length xs + (if i < n mod length xs then 1 else 0))\<rparr>) [0..<length xs]"

lemma spread_0: "spread xs 0 = new_backends xs"
  by (rule nth_equalityI) (simp_all add: spread_def new_backends_def)

lemma getHealthy_spread: "getHealthyBackends (spread xs n) = [0..<length xs]"
  by (simp add: getHealthyBackends_def spread_def IsHealthy_def filter_id_conv)

lemma healthy_spread: "healthy_addresses (spread xs n) = xs"
  by (rule nth_equalityI)
    (simp_all add: healthy_addresses_def getHealthy_spread, simp add: spread_def)

lemma arg_min_first:
  fixes f :: "nat \<Rightarrow> int"
  assumes "i < n" "\<And>j. j < i \<Longrightarrow> f i < f j" "\<And>j. i \<le> j \<Longrightarrow> j < n \<Longrightarrow> f i \<le> f j"
  shows "arg_min_list f [0..<n] = i"
proof -
  have "arg_min_list f [k..<n] = i" if "k \<le> i" for k
    using that
  proof (induction "i - k" arbitrary: k)
    case 0
    then have "k = i" by simp
    have ne: "[i..<n] = i # [Suc i..<n]" using assms(1) by (simp add: upt_conv_Cons)
    show ?case
    proof (cases "[Suc i..<n]")
      case (Cons y ys)
      have "arg_min_list f (y # ys) \<in> set (y # ys)" by (rule arg_min_list_in) simp
      then have "arg_min_list f (y # ys) \<in> {Suc i..<n}" by (metis Cons set_upt)
      then have "f i \<le> f (arg_min_list f (y # ys))" by (intro assms(3)) auto
      then show ?thesis using ne Cons \<open>k = i\<close> by (simp add: Let_def)
    next
      case Nil
      with ne \<open>k = i\<close> show ?thesis by (metis arg_min_list.simps(1))
    qed
  next
    case (Suc d)
    then have "k < i" by simp
    then have IH: "arg_min_list f [Suc k..<n] = i" using Suc by simp
    obtain y ys where y: "[Suc k..<n] = y # ys"
      using \<open>k < i\<close> assms(1) by (cases "[Suc k..<n]") auto
    have "[k..<n] = k # [Suc k..<n]" using \<open>k < i\<close> assms(1) by (simp add: upt_conv_Cons)
    then have k: "[k..<n] = k # y # ys" by (simp only: y)
    have "arg_min_list f (y # ys) = i" using IH by (simp only: y)
    with assms(2) [OF \<open>k < i\<close>] show ?case by (simp add: k Let_def)
  qed
  then show ?thesis by simp
qed

lemma div_mod_Suc:
  fixes n L :: nat
  assumes "0 < L" "i < L"
  shows "Suc n div L + (if i < Suc n mod L then 1 else 0) =
     n div L + (if i < n mod L then 1 else 0) + (if i = n mod L then 1 else 0)"
proof (cases "Suc (n mod L) = L")
  case True
  then have "Suc n mod L = 0" "Suc n div L = Suc (n div L)"
    by (simp_all add: mod_Suc div_Suc)
  moreover have "i \<noteq> n mod L \<Longrightarrow> i < n mod L" using True assms by linarith
  ultimately show ?thesis by auto
next
  case False
  then have "Suc n mod L = Suc (n mod L)" "Suc n div L = n div L"
    by (simp_all add: mod_Suc div_Suc)
  then show ?thesis by auto
qed

lemma lc_select_spread:
  assumes "xs \<noteq> []" "int n < 2 ^ 63 - 1"
  shows "lc_SelectBackend \<lparr>lc_backends = spread xs n\<rparr> =
     (Inr (xs ! (n mod length xs)), \<lparr>lc_backends = spread xs (Suc n)\<rparr>)"
proof -
  let ?L = "length xs" and ?f = "\<lambda>p. GetConnections (spread xs n ! p)"
  have L: "0 < ?L" using assms(1) by simp
  then have mod: "n mod ?L < ?L" by simp
  have f: "?f i = int (n div ?L + (if i < n mod ?L then 1 else 0))" if "i < ?L" for i
    using that by (simp add: GetConnections_def spread_def)
  have "arg_min_list ?f [0..<?L] = n mod ?L"
    using mod f by (intro arg_min_first) auto
  moreover have "\<forall>p \<in> set [0..<?L]. 0 \<le> ?f p" using f by auto
  ultimately have scan: "lc_scan (spread xs n) [0..<?L] (-1) None = Some (n mod ?L)"
    using assms(1) lc_scan_min [of "[0..<?L]" "spread xs n"] by simp
  have "int (n div ?L) < 2 ^ 63 - 1"
    using assms(2) div_le_dividend [of n ?L] by linarith
  then have wrap: "i64 (int (n div ?L) + 1) = int (n div ?L) + 1"
    by (intro i64_id) (simp add: in_i64_def)
  have "(spread xs n)[n mod ?L := IncrementConnections (spread xs n ! (n mod ?L))] = spread xs (Suc n)"
  proof (rule nth_equalityI)
    fix i assume "i < length ((spread xs n)[n mod ?L := IncrementConnections (spread xs n ! (n mod ?L))])"
    then have i: "i < ?L" by (simp add: spread_def)
    from div_mod_Suc [OF L i, of n]
    show "(spread xs n)[n mod ?L := IncrementConnections (spread xs n ! (n mod ?L))] ! i = spread xs (Suc n) ! i"
      using i mod wrap by (cases "i = n mod ?L") (auto simp: spread_def IncrementConnections_def)
  qed (simp add: spread_def)
  moreover have "Address (spread xs n ! (n mod ?L)) = xs ! (n mod ?L)"
    using mod by (simp add: spread_def)
  ultimately show ?thesis
    using scan assms(1) by (simp add: lc_select_unfold healthy_spread getHealthy_spread Let_def)
qed

lemma lc_run_spread:
  assumes "xs \<noteq> []" "int (m + n) < 2 ^ 63"
  shows "balancer_run (replicate n SelectBackend) (LbLeastConn \<lparr>lc_backends = spread xs m\<rparr>) =
     (map (\<lambda>k. Inr (xs ! ((m + k) mod length xs))) [0..<n],
      LbLeastConn \<lparr>lc_backends = spread xs (m + n)\<rparr>)"
  using assms
proof (induction n arbitrary: m)
  case (Suc n)
  then have "balancer_run (replicate n SelectBackend) (LbLeastConn \<lparr>lc_backends = spread xs (Suc m)\<rparr>) =
     (map (\<lambda>k. Inr (xs ! ((Suc m + k) mod length xs))) [0..<n],
      LbLeastConn \<lparr>lc_backends = spread xs (Suc m + n)\<rparr>)"
    by simp
  moreover have "lc_SelectBackend \<lparr>lc_backends = spread xs m\<rparr> =
     (Inr (xs ! (m mod length xs)), \<lparr>lc_backends = spread xs (Suc m)\<rparr>)"
    using Suc.prems by (intro lc_select_spread) auto
  moreover have "[0..<Suc n] = 0 # map Suc [0..<n]"
    by (simp add: upt_conv_Cons map_Suc_upt del: upt_Suc)
  ultimately show ?case
    by (simp add: balancer_run_select del: upt_Suc)
qed (simp add: balancer_run_Nil)


section \<open>Properties\<close>

text \<open>
  C4: where the configured addresses are distinct, and stay so, a backend that has been marked
  unhealthy is not selected again, however selections and markings interleave, until it is
  marked healthy or the list is replaced by one that holds it.  (For an address that is
  configured twice see the lemma \<open>duplicate_backend_stays_selectable\<close>.)
\<close>
theorem unhealthy_never_selected:
  assumes "distinct (lb_members s)" "list_all (leaves_down a) es"
  shows "Inr a \<notin> set (fst (balancer_run es (lb_MarkUnhealthy a s)))"
  unfolding balancer_run_def using assms by (rule lb.down_never_selected)

theorem unhealthy_never_selected_witness:
  "Inr ''a:80'' \<notin> set (fst (balancer_run
     [SelectBackend, MarkHealthy ''b:80'', SelectBackend, MarkUnhealthy ''b:80'', SelectBackend]
     (lb_MarkUnhealthy ''a:80'' (LbRoundRobin (NewRoundRobin [''a:80'', ''b:80''])))))"
  by (rule unhealthy_never_selected) (simp_all add: NewRoundRobin_def)

text \<open>
  C5: a selection through the interface fails exactly when no backend is healthy, and then
  with the load-balancing error and without changing the balancer; otherwise it returns a
  healthy backend.  It never changes which backends are configured or healthy.
\<close>
theorem select_backend_sound:
  "(case fst (lb_SelectBackend s) of
      Inl e \<Rightarrow> e = no_healthy \<and> lb_GetHealthyBackends s = [] \<and> snd (lb_SelectBackend s) = s
    | Inr a \<Rightarrow> a \<in> set (lb_GetHealthyBackends s)) \<and>
   lb_GetHealthyBackends (snd (lb_SelectBackend s)) = lb_GetHealthyBackends s \<and>
   lb_members (snd (lb_SelectBackend s)) = lb_members s"
  using lb.select_none [of s] lb.select_some [of s] lb.select_frame [of s]
  by (cases "lb_GetHealthyBackends s = []") (auto split: sum.splits)

text \<open>
  C6: round robin is fair.  As many consecutive selections as there are healthy backends
  select each of them exactly once, from any position of the counter that does not reach
  the end of its 64-bit range within them.
\<close>
theorem round_robin_fair:
  assumes "rr_GetHealthyBackends r \<noteq> []"
    and "unat (rr_current r) + length (rr_GetHealthyBackends r) < 2 ^ 64"
  shows "mset (fst (balancer_run (replicate (length (rr_GetHealthyBackends r)) SelectBackend)
                      (LbRoundRobin r))) =
         mset (map Inr (rr_GetHealthyBackends r))"
proof -
  let ?h = "rr_GetHealthyBackends r"
  have "fst (balancer_run (replicate (length ?h) SelectBackend) (LbRoundRobin r)) =
      map (\<lambda>k. Inr (?h ! ((unat (rr_current r) + 1 + k) mod length ?h))) [0..<length ?h]"
    using assms by (intro rr_run_selects) (simp_all add: rr_GetHealthyBackends_def)
  also have "\<dots> = map Inr (rotate (unat (rr_current r) + 1) ?h)" by (rule rotate_window)
  finally show ?thesis by (simp add: mset_rotate del: rotate_Suc)
qed

theorem round_robin_fair_witness:
  "mset (fst (balancer_run (replicate (length (rr_GetHealthyBackends (NewRoundRobin [''a'', ''b'', ''c''])))
                SelectBackend) (LbRoundRobin (NewRoundRobin [''a'', ''b'', ''c''])))) =
   mset (map Inr (rr_GetHealthyBackends (NewRoundRobin [''a'', ''b'', ''c''])))"
  by (rule round_robin_fair) (simp_all add: NewRoundRobin_def rr_GetHealthyBackends_def)

text \<open>
  C7: with non-negative connection counts the least-connection balancer selects the first
  healthy backend whose count is the least, increments the count of that backend and of no
  other one, and so agrees with the library's leftmost minimum.
\<close>
theorem least_connection_selects_minimum:
  assumes "lc_GetHealthyBackends l \<noteq> []"
    and "\<forall>b \<in> set (lc_backends l). 0 \<le> Connections b"
  shows "\<exists>p. p = arg_min_list (\<lambda>i. Connections (lc_backends l ! i)) (getHealthyBackends (lc_backends l)) \<and>
     p < length (lc_backends l) \<and> Healthy (lc_backends l ! p) \<and>
     (\<forall>b \<in> set (lc_backends l). Healthy b \<longrightarrow> Connections (lc_backends l ! p) \<le> Connections b) \<and>
     lc_SelectBackend l = (Inr (Address (lc_backends l ! p)),
       l\<lparr>lc_backends := (lc_backends l)[p := IncrementConnections (lc_backends l ! p)]\<rparr>)"
proof -
  let ?bs = "lc_backends l" and ?h = "getHealthyBackends (lc_backends l)"
  let ?f = "\<lambda>i. GetConnections (?bs ! i)"
  from assms(1) have ne: "healthy_addresses ?bs \<noteq> []" by (simp add: lc_GetHealthyBackends_def)
  then obtain p where p: "lc_scan ?bs ?h (-1) None = Some p" "p < length ?bs" "p \<in> set ?h"
    "lc_SelectBackend l = (Inr (Address (?bs ! p)),
       l\<lparr>lc_backends := ?bs[p := IncrementConnections (?bs ! p)]\<rparr>)"
    by (rule lc_select_healthy)
  have "\<forall>i \<in> set ?h. 0 \<le> ?f i" using assms(2) getHealthy_bound by (auto simp: GetConnections_def)
  with ne p(1) have arg: "p = arg_min_list ?f ?h" using lc_scan_min [of ?h ?bs] by simp
  have "?f p \<le> ?f i" if "i \<in> set ?h" for i
    using ne that f_arg_min_list_f [of ?h ?f] by (simp add: arg)
  then have "\<forall>b \<in> set ?bs. Healthy b \<longrightarrow> Connections (?bs ! p) \<le> Connections b"
    by (auto simp: in_set_conv_nth GetConnections_def getHealthyBackends_def IsHealthy_def)
  moreover have "Healthy (?bs ! p)" using p(3) getHealthy_bound by blast
  ultimately show ?thesis using p arg by (auto simp: GetConnections_def)
qed

theorem least_connection_selects_minimum_witness:
  "\<exists>p < 2. fst (lc_SelectBackend (NewLeastConnection [''a'', ''b''])) = Inr ([''a'', ''b''] ! p)"
proof -
  let ?l = "NewLeastConnection [''a'', ''b'']"
  have "lc_GetHealthyBackends ?l \<noteq> []" "\<forall>b \<in> set (lc_backends ?l). 0 \<le> Connections b"
    by (simp_all add: NewLeastConnection_def lc_GetHealthyBackends_def new_backends_def)
  from least_connection_selects_minimum [OF this] show ?thesis
  proof (elim exE conjE)
    fix p assume "p < length (lc_backends ?l)" and "lc_SelectBackend ?l = (Inr (Address (lc_backends ?l ! p)),
       ?l\<lparr>lc_backends := (lc_backends ?l)[p := IncrementConnections (lc_backends ?l ! p)]\<rparr>)"
    then have "fst (lc_SelectBackend ?l) = Inr (map Address (lc_backends ?l) ! p)"
      by (simp only: fst_conv nth_map)
    moreover have "map Address (lc_backends ?l) = [''a'', ''b'']" "length (lc_backends ?l) = 2"
      by (simp_all add: NewLeastConnection_def new_backends_def)
    ultimately show ?thesis using \<open>p < length (lc_backends ?l)\<close> by metis
  qed
qed

text \<open>
  C8: nothing in the repository ever decrements a connection count.  So a fresh
  least-connection balancer whose backends all stay healthy, and whose selections do not
  overlap, is round robin under another name: the \<open>k\<close>-th of \<open>n\<close> selections is backend
  \<open>k mod m\<close> of the \<open>m\<close> configured ones.
\<close>
theorem least_connection_without_release_is_round_robin:
  assumes "xs \<noteq> []" "int n < 2 ^ 63"
  shows "fst (balancer_run (replicate n SelectBackend) (LbLeastConn (NewLeastConnection xs))) =
     map (\<lambda>k. Inr (xs ! (k mod length xs))) [0..<n]"
  using assms lc_run_spread [of xs 0 n] by (simp add: spread_0 NewLeastConnection_def)

theorem least_connection_without_release_is_round_robin_witness:
  "fst (balancer_run (replicate 5 SelectBackend) (LbLeastConn (NewLeastConnection [''a'', ''b'']))) =
   map (\<lambda>k. Inr ([''a'', ''b''] ! (k mod length [''a'', ''b'']))) [0..<5]"
  by (rule least_connection_without_release_is_round_robin) simp_all

text \<open>
  When an address is configured twice, marking it unhealthy stops at its first
  occurrence, so the balancer still selects that address; marking it again changes nothing.
\<close>
lemma duplicate_backend_stays_selectable:
  "let s = lb_MarkUnhealthy ''a'' (LbRoundRobin (NewRoundRobin [''a'', ''a'']))
   in fst (lb_SelectBackend s) = Inr ''a'' \<and> lb_MarkUnhealthy ''a'' s = s"
  by (simp add: NewRoundRobin_def new_backends_def rr_MarkUnhealthy_def SetHealthy_def
      rr_select_healthy)

end
