(* ===== verification/Ketama.thy ===== *)
theory Ketama
  imports Errors
begin

text \<open>
  Package \<open>pkg/ketama\<close>, the hash ring: virtual points, lookup by binary search, lookup of
  several distinct nodes, and the unweighted balancer over it.  MD5 is a function \<open>md5\<close>
  from the hashed string to the bytes of its digest, an argument of every operation that
  hashes; nothing is assumed of it except where a theorem says that points do not collide.

  \<open>sort.Slice\<close> and \<open>sort.Strings\<close> are the sorting of the library: the keys are totally
  ordered, so every sorting algorithm gives the same list (\<open>sort_shuffle\<close>), and the order
  in which a map is ranged over before its keys are sorted cannot be observed.
\<close>

unbundle bit_operations_syntax

type_synonym md5 = "string \<Rightarrow> 8 word list"

section \<open>The ring\<close>

record ring =
  nodes :: "(32 word, string) gomap"
  sortedKeys :: "32 word list"
  replicas :: int

definition NewRing :: "int \<Rightarrow> ring" where
  "NewRing n = \<lparr>nodes = [], sortedKeys = [], replicas = n\<rparr>"

definition hash :: "md5 \<Rightarrow> string \<Rightarrow> 32 word" where
  "hash md5 key =
     (let digest = md5 key
      in push_bit 24 (ucast (digest ! 0)) OR push_bit 16 (ucast (digest ! 1)) OR
         push_bit 8 (ucast (digest ! 2)) OR ucast (digest ! 3))"

text \<open>The key of the \<open>i\<close>-th virtual point of a node: the hash of \<open>node:i\<close>.\<close>

definition point :: "md5 \<Rightarrow> string \<Rightarrow> nat \<Rightarrow> 32 word" where
  "point md5 node i = hash md5 (node @ '':'' @ itoa (int i))"

fun add_points :: "md5 \<Rightarrow> string \<Rightarrow> nat list \<Rightarrow> ring \<Rightarrow> ring" where
  "add_points md5 node [] r = r"
| "add_points md5 node (i # ks) r =
     (let key = point md5 node i
      in add_points md5 node ks
           (r\<lparr>nodes := mput key node (nodes r), sortedKeys := sortedKeys r @ [key]\<rparr>))"

definition AddNode :: "md5 \<Rightarrow> string \<Rightarrow> ring \<Rightarrow> ring" where
  "AddNode md5 node r =
     (let r = add_points md5 node [0..<nat (replicas r)] r
      in r\<lparr>sortedKeys := sort (sortedKeys r)\<rparr>)"

definition rebuildSortedKeys :: "ring \<Rightarrow> ring" where
  "rebuildSortedKeys r = r\<lparr>sortedKeys := sort (mkeys (nodes r))\<rparr>"

fun remove_points :: "md5 \<Rightarrow> string \<Rightarrow> nat list \<Rightarrow> ring \<Rightarrow> ring" where
  "remove_points md5 node [] r = r"
| "remove_points md5 node (i # ks) r =
     remove_points md5 node ks (r\<lparr>nodes := mdel (point md5 node i) (nodes r)\<rparr>)"

definition RemoveNode :: "md5 \<Rightarrow> string \<Rightarrow> ring \<Rightarrow> ring" where
  "RemoveNode md5 node r =
     rebuildSortedKeys (remove_points md5 node [0..<nat (replicas r)] r)"

text \<open>\<open>sort.Search\<close>: the binary search of the standard library.\<close>

function sort_Search :: "(nat \<Rightarrow> bool) \<Rightarrow> nat \<Rightarrow> nat \<Rightarrow> nat" where
  "sort_Search f i j =
     (if i < j then
        let h = (i + j) div 2
        in if \<not> f h then sort_Search f (h + 1) j else sort_Search f i h
      else i)"
  by pat_completeness auto
termination
  by (relation "measure (\<lambda>(f, i, j). j - i)") auto

declare sort_Search.simps [simp del]

definition search :: "ring \<Rightarrow> 32 word \<Rightarrow> nat" where
  "search r h = sort_Search (\<lambda>i. sortedKeys r ! i \<ge> h) 0 (length (sortedKeys r))"

text \<open>Indexing the map: an absent key reads as the empty string.\<close>

definition node_at :: "ring \<Rightarrow> 32 word \<Rightarrow> string" where
  "node_at r key = (case map_of (nodes r) key of Some n \<Rightarrow> n | None \<Rightarrow> [])"

definition no_nodes :: go_error where
  "no_nodes = New LoadBalancingError ''no nodes available in ring''"

definition GetNode :: "md5 \<Rightarrow> string \<Rightarrow> ring \<Rightarrow> go_error + string" where
  "GetNode md5 key r =
     (if length (nodes r) = 0 then Inl no_nodes
      else let idx = search r (hash md5 key);
               idx = (if idx \<ge> length (sortedKeys r) then 0 else idx)
           in Inr (node_at r (sortedKeys r ! idx)))"

definition getUniqueNodes :: "ring \<Rightarrow> string list" where
  "getUniqueNodes r =
     (let nodeSet = foldl (\<lambda>s p. mput (snd p) True s) [] (nodes r) in sort (mkeys nodeSet))"

text \<open>
  The loop of \<open>GetNodes\<close>; \<open>None\<close> would be a loop that does not end.  Memory is unbounded: the
  panic of \<open>make\<close> for a capacity that no memory holds is not modelled.
\<close>

partial_function (option) nodes_loop ::
    "ring \<Rightarrow> int \<Rightarrow> nat \<Rightarrow> (string, bool) gomap \<Rightarrow> string list \<Rightarrow> string list option" where
  "nodes_loop r cnt idx seen res =
     (if int (length res) < cnt \<and> length seen < length (getUniqueNodes r) then
        let idx = (if idx \<ge> length (sortedKeys r) then 0 else idx);
            node = node_at r (sortedKeys r ! idx)
        in if map_of seen node \<noteq> Some True
           then nodes_loop r cnt (idx + 1) (mput node True seen) (res @ [node])
           else nodes_loop r cnt (idx + 1) seen res
      else Some res)"

definition GetNodes :: "md5 \<Rightarrow> string \<Rightarrow> int \<Rightarrow> ring \<Rightarrow> (go_error + string list) option" where
  "GetNodes md5 key cnt r =
     (if length (nodes r) = 0 then Some (Inl no_nodes)
      else if cnt \<le> 0 then Some (Inl (New LoadBalancingError ''count must be positive''))
      else map_option Inr (nodes_loop r cnt (search r (hash md5 key)) [] []))"

definition GetAllNodes :: "ring \<Rightarrow> string list" where
  "GetAllNodes r = getUniqueNodes r"

definition Size :: "ring \<Rightarrow> nat" where
  "Size r = length (getUniqueNodes r)"

definition IsEmpty :: "ring \<Rightarrow> bool" where
  "IsEmpty r \<longleftrightarrow> Size r = 0"

section \<open>The balancer\<close>

definition NewKetamaBalancer :: "md5 \<Rightarrow> string list \<Rightarrow> int \<Rightarrow> ring" where
  "NewKetamaBalancer md5 ns reps =
     (let reps = (if reps \<le> 0 then 160 else reps)
      in foldl (\<lambda>r n. AddNode md5 n r) (NewRing reps) ns)"

definition ketama_SelectBackend :: "md5 \<Rightarrow> string \<Rightarrow> ring \<Rightarrow> go_error + string" where
  "ketama_SelectBackend md5 key k = GetNode md5 key k"

definition ketama_SelectBackends :: "md5 \<Rightarrow> string \<Rightarrow> int \<Rightarrow> ring \<Rightarrow> (go_error + string list) option" where
  "ketama_SelectBackends md5 key cnt k = GetNodes md5 key cnt k"

definition ketama_AddBackend :: "md5 \<Rightarrow> string \<Rightarrow> ring \<Rightarrow> ring" where
  "ketama_AddBackend md5 b k = AddNode md5 b k"

definition ketama_RemoveBackend :: "md5 \<Rightarrow> string \<Rightarrow> ring \<Rightarrow> ring" where
  "ketama_RemoveBackend md5 b k = RemoveNode md5 b k"

definition ketama_GetAllBackends :: "ring \<Rightarrow> string list" where
  "ketama_GetAllBackends k = GetAllNodes k"

text \<open>
  \<open>UpdateBackends\<close>, over the operations of the ring it calls: nodes that stay are struck
  from \<open>toRemove\<close>, others are added; then what is left in \<open>toRemove\<close> is removed, in the
  order of a \<open>range\<close> over a map.
\<close>

fun update_scan :: "(string \<Rightarrow> 'r \<Rightarrow> 'r) \<Rightarrow> string list \<Rightarrow> (string, bool) gomap \<Rightarrow> 'r \<Rightarrow>
    (string, bool) gomap \<times> 'r" where
  "update_scan add [] toRemove r = (toRemove, r)"
| "update_scan add (b # bs) toRemove r =
     (if map_of toRemove b = Some True then update_scan add bs (mdel b toRemove) r
      else update_scan add bs toRemove (add b r))"

definition update_with :: "(string \<Rightarrow> 'r \<Rightarrow> 'r) \<Rightarrow> (string \<Rightarrow> 'r \<Rightarrow> 'r) \<Rightarrow> ('r \<Rightarrow> string list) \<Rightarrow>
    ((string \<times> bool) list \<Rightarrow> (string \<times> bool) list) \<Rightarrow> string list \<Rightarrow> 'r \<Rightarrow> 'r" where
  "update_with add remove all sh backends r =
     (let toRemove = foldl (\<lambda>m b. mput b True m) [] (all r);
          (toRemove, r) = update_scan add backends toRemove r
      in foldl (\<lambda>r b. remove b r) r (mkeys (sh toRemove)))"

definition ketama_UpdateBackends :: "md5 \<Rightarrow> ((string \<times> bool) list \<Rightarrow> (string \<times> bool) list) \<Rightarrow>
    string list \<Rightarrow> ring \<Rightarrow> ring" where
  "ketama_UpdateBackends md5 sh backends k =
     update_with (AddNode md5) (RemoveNode md5) GetAllNodes sh backends k"


section \<open>Sorting and searching\<close>

lemma sort_mset: "mset xs = mset ys \<Longrightarrow> sort xs = sort (ys :: 'a :: linorder list)"
  by (rule properties_for_sort) simp_all

lemma sort_shuffle: "is_shuffle sh \<Longrightarrow> sort (map f (sh xs)) = sort (map f xs :: 'a :: linorder list)"
  by (rule sort_mset) (simp add: is_shuffle_def)

text \<open>The binary search finds the border of a predicate that is monotone on the range.\<close>

lemma sort_Search_border:
  assumes "i \<le> j" "\<And>a b. i \<le> a \<Longrightarrow> a \<le> b \<Longrightarrow> b < j \<Longrightarrow> f a \<Longrightarrow> f b"
  shows "i \<le> sort_Search f i j \<and> sort_Search f i j \<le> j \<and>
     (\<forall>k. i \<le> k \<and> k < sort_Search f i j \<longrightarrow> \<not> f k) \<and> (\<forall>k. sort_Search f i j \<le> k \<and> k < j \<longrightarrow> f k)"
  using assms
proof (induction f i j rule: sort_Search.induct)
  case (1 f i j)
  let ?h = "(i + j) div 2"
  show ?case
  proof (cases "i < j")
    case True
    then have h: "i \<le> ?h" "?h < j" by auto
    note mono = "1.prems"(2)
    show ?thesis
    proof (cases "f ?h")
      case False
      let ?s = "sort_Search f (?h + 1) j"
      have eq: "sort_Search f i j = ?s"
        using True False by (subst sort_Search.simps) (simp add: Let_def)
      have m: "f b" if "?h + 1 \<le> a" "a \<le> b" "b < j" "f a" for a b
        using mono [of a b] that h by simp
      have IH: "?h + 1 \<le> ?s \<and> ?s \<le> j \<and> (\<forall>k. ?h + 1 \<le> k \<and> k < ?s \<longrightarrow> \<not> f k) \<and>
          (\<forall>k. ?s \<le> k \<and> k < j \<longrightarrow> f k)"
        by (rule "1.IH"(1) [OF True refl False _ m]) (use h in simp)
      have "\<not> f k" if "i \<le> k" "k < ?s" for k
        using that IH mono [of k ?h] False h by (cases "k \<le> ?h") auto
      with IH h show ?thesis unfolding eq by auto
    next
      case t: True
      let ?s = "sort_Search f i ?h"
      have eq: "sort_Search f i j = ?s"
        using True t by (subst sort_Search.simps) (simp add: Let_def)
      have m: "f b" if "i \<le> a" "a \<le> b" "b < ?h" "f a" for a b
        using mono [of a b] that h by simp
      have IH: "i \<le> ?s \<and> ?s \<le> ?h \<and> (\<forall>k. i \<le> k \<and> k < ?s \<longrightarrow> \<not> f k) \<and>
          (\<forall>k. ?s \<le> k \<and> k < ?h \<longrightarrow> f k)"
        by (rule "1.IH"(2) [OF True refl _ h(1) m]) (use t in simp)
      have "f k" if "?s \<le> k" "k < j" for k
        using that IH mono [of ?h k] t h by (cases "k < ?h") auto
      with IH h show ?thesis unfolding eq by auto
    qed
  next
    case False
    then have "sort_Search f i j = i" by (subst sort_Search.simps) simp
    with False "1.prems"(1) show ?thesis by auto
  qed
qed

text \<open>The specification of a lookup: the first key at or after a position on the circle.\<close>

definition clockwise :: "('a :: linorder) set \<Rightarrow> 'a \<Rightarrow> 'a" where
  "clockwise S h = (if \<exists>k \<in> S. h \<le> k then Min {k \<in> S. h \<le> k} else Min S)"

lemma clockwise_self: "finite S \<Longrightarrow> k \<in> S \<Longrightarrow> clockwise S k = k"
  by (auto simp: clockwise_def intro!: Min_eqI)

lemma clockwise_in: "finite S \<Longrightarrow> S \<noteq> {} \<Longrightarrow> clockwise S h \<in> S"
proof -
  assume S: "finite S" "S \<noteq> {}"
  show ?thesis
  proof (cases "\<exists>k \<in> S. h \<le> k")
    case True
    then have "Min {k \<in> S. h \<le> k} \<in> {k \<in> S. h \<le> k}" using S by (intro Min_in) auto
    with True show ?thesis by (auto simp: clockwise_def)
  qed (use S in \<open>simp add: clockwise_def\<close>)
qed

lemma clockwise_superset:
  assumes "finite T" "S \<subseteq> T" "clockwise T h \<in> S"
  shows "clockwise S h = clockwise T h"
proof -
  have fin: "finite S" using assms finite_subset by blast
  show ?thesis
  proof (cases "\<exists>k \<in> T. h \<le> k")
    case True
    then have T: "clockwise T h = Min {k \<in> T. h \<le> k}" by (simp add: clockwise_def)
    have "Min {k \<in> T. h \<le> k} \<in> {k \<in> T. h \<le> k}" using True assms(1) by (intro Min_in) auto
    then have ge: "clockwise T h \<in> {k \<in> S. h \<le> k}" using assms(3) T by simp
    have "Min {k \<in> S. h \<le> k} = clockwise T h"
    proof (rule Min_eqI)
      fix y assume "y \<in> {k \<in> S. h \<le> k}"
      then show "clockwise T h \<le> y" unfolding T using assms(1,2) by (intro Min_le) auto
    qed (use ge fin in auto)
    with ge show ?thesis by (auto simp: clockwise_def)
  next
    case False
    then have T: "clockwise T h = Min T" by (simp add: clockwise_def)
    moreover have "Min S = Min T"
      using assms fin T by (intro Min_eqI) (auto intro: Min_le)
    ultimately show ?thesis using False assms(2) by (auto simp: clockwise_def)
  qed
qed

lemma search_clockwise:
  assumes "sorted ks" "ks \<noteq> []"
  shows "let idx = sort_Search (\<lambda>i. ks ! i \<ge> h) 0 (length ks);
             idx = (if idx \<ge> length ks then 0 else idx)
         in idx < length ks \<and> ks ! idx = clockwise (set ks) h"
proof -
  let ?s = "sort_Search (\<lambda>i. ks ! i \<ge> h) 0 (length ks)"
  have mono: "h \<le> ks ! b" if "0 \<le> a" "a \<le> b" "b < length ks" "h \<le> ks ! a" for a b :: nat
    using sorted_nth_mono [OF assms(1) that(2,3)] that(4) by (rule order_trans [rotated])
  have border: "0 \<le> ?s \<and> ?s \<le> length ks \<and> (\<forall>k. 0 \<le> k \<and> k < ?s \<longrightarrow> \<not> h \<le> ks ! k) \<and>
      (\<forall>k. ?s \<le> k \<and> k < length ks \<longrightarrow> h \<le> ks ! k)"
    by (rule sort_Search_border) (simp, rule mono)
  have "?s \<le> length ks" using border by blast
  have below: "\<And>k. k < ?s \<Longrightarrow> \<not> h \<le> ks ! k" using border by blast
  have above: "\<And>k. ?s \<le> k \<Longrightarrow> k < length ks \<Longrightarrow> h \<le> ks ! k" using border by blast
  show ?thesis
  proof (cases "?s < length ks")
    case True
    have "Min {k \<in> set ks. h \<le> k} = ks ! ?s"
    proof (rule Min_eqI)
      fix y assume "y \<in> {k \<in> set ks. h \<le> k}"
      then obtain i where i: "i < length ks" "y = ks ! i" "h \<le> ks ! i" by (auto simp: in_set_conv_nth)
      then have "?s \<le> i" using below by (meson linorder_not_le)
      with i show "ks ! ?s \<le> y" using assms(1) by (simp add: sorted_iff_nth_mono)
    qed (use True above in auto)
    moreover have "\<exists>k \<in> set ks. h \<le> k" using True above by (meson nth_mem order_refl)
    ultimately show ?thesis using True by (simp add: clockwise_def)
  next
    case False
    with \<open>?s \<le> length ks\<close> have "?s = length ks" by simp
    then have "\<not> (\<exists>k \<in> set ks. h \<le> k)" using below by (metis in_set_conv_nth)
    moreover have "Min (set ks) = ks ! 0"
      using assms by (intro Min_eqI) (auto simp: in_set_conv_nth sorted_iff_nth_mono)
    ultimately show ?thesis using False assms(2) by (simp add: clockwise_def)
  qed
qed

section \<open>The ring as a map from keys to nodes\<close>

definition ring_inv :: "ring \<Rightarrow> bool" where
  "ring_inv r \<longleftrightarrow> mwf (nodes r) \<and> sorted (sortedKeys r) \<and>
     set (sortedKeys r) = dom (map_of (nodes r))"

definition points :: "md5 \<Rightarrow> int \<Rightarrow> string \<Rightarrow> 32 word set" where
  "points md5 reps node = point md5 node ` {..<nat reps}"

lemma add_points_view:
  "map_of (nodes (add_points md5 node ks r)) =
     (\<lambda>k. if k \<in> point md5 node ` set ks then Some node else map_of (nodes r) k)"
  "set (sortedKeys (add_points md5 node ks r)) = set (sortedKeys r) \<union> point md5 node ` set ks"
  "replicas (add_points md5 node ks r) = replicas r"
  "mwf (nodes r) \<Longrightarrow> mwf (nodes (add_points md5 node ks r))"
  by (induction ks arbitrary: r) (auto simp: Let_def go_map_simps fun_eq_iff)

lemma remove_points_view:
  "map_of (nodes (remove_points md5 node ks r)) =
     (\<lambda>k. if k \<in> point md5 node ` set ks then None else map_of (nodes r) k)"
  "replicas (remove_points md5 node ks r) = replicas r"
  "mwf (nodes r) \<Longrightarrow> mwf (nodes (remove_points md5 node ks r))"
  by (induction ks arbitrary: r) (auto simp: go_map_simps fun_eq_iff)

lemma points_eq: "point md5 node ` set [0..<nat reps] = points md5 reps node"
  by (auto simp: points_def)

lemma AddNode_view:
  "map_of (nodes (AddNode md5 node r)) =
     (\<lambda>k. if k \<in> points md5 (replicas r) node then Some node else map_of (nodes r) k)"
  "replicas (AddNode md5 node r) = replicas r"
  by (simp_all add: AddNode_def Let_def add_points_view points_eq [symmetric])

lemma RemoveNode_view:
  "map_of (nodes (RemoveNode md5 node r)) =
     (\<lambda>k. if k \<in> points md5 (replicas r) node then None else map_of (nodes r) k)"
  "replicas (RemoveNode md5 node r) = replicas r"
  by (simp_all add: RemoveNode_def rebuildSortedKeys_def remove_points_view points_eq [symmetric])

lemma ring_inv_NewRing: "ring_inv (NewRing n)"
  by (simp add: ring_inv_def NewRing_def go_map_simps)

lemma ring_inv_AddNode: "ring_inv r \<Longrightarrow> ring_inv (AddNode md5 node r)"
  by (auto simp: ring_inv_def AddNode_def Let_def add_points_view split: if_splits)

lemma ring_inv_RemoveNode: "ring_inv r \<Longrightarrow> ring_inv (RemoveNode md5 node r)"
  by (simp add: ring_inv_def RemoveNode_def rebuildSortedKeys_def remove_points_view set_mkeys)

lemma finite_ring: "finite (dom (map_of (nodes r)))"
  by (simp add: finite_dom_map_of)


section \<open>Lookup\<close>

lemma ring_inv_keys:
  assumes "ring_inv r" "nodes r \<noteq> []"
  shows "sortedKeys r \<noteq> []" "dom (map_of (nodes r)) \<noteq> {}"
proof -
  show ne: "dom (map_of (nodes r)) \<noteq> {}" using assms(2) by (simp add: dom_map_of_conv_image_fst)
  with assms(1) show "sortedKeys r \<noteq> []" by (metis empty_set ring_inv_def)
qed

lemma GetNode_clockwise:
  assumes "ring_inv r" "nodes r \<noteq> []"
  shows "GetNode md5 key r = Inr (node_at r (clockwise (dom (map_of (nodes r))) (hash md5 key)))"
  using assms search_clockwise [of "sortedKeys r" "hash md5 key"] ring_inv_keys [OF assms]
  by (auto simp: GetNode_def search_def ring_inv_def Let_def)

lemma GetNode_owner:
  assumes "ring_inv r" "nodes r \<noteq> []"
  obtains k n where "k = clockwise (dom (map_of (nodes r))) (hash md5 key)"
    "map_of (nodes r) k = Some n" "GetNode md5 key r = Inr n"
proof -
  let ?k = "clockwise (dom (map_of (nodes r))) (hash md5 key)"
  have "?k \<in> dom (map_of (nodes r))"
    by (rule clockwise_in [OF finite_ring ring_inv_keys(2) [OF assms]])
  then obtain n where "map_of (nodes r) ?k = Some n" by auto
  with that show ?thesis by (simp add: GetNode_clockwise [OF assms] node_at_def)
qed

lemma foldl_mput_keys:
  "mwf s \<Longrightarrow> mwf (foldl (\<lambda>s p. mput (f p) True s) s ps) \<and>
     dom (map_of (foldl (\<lambda>s p. mput (f p) True s) s ps)) = dom (map_of s) \<union> f ` set ps"
  by (induction ps arbitrary: s) (auto simp: go_map_simps)

lemma uniqueNodes_props:
  "set (getUniqueNodes r) = snd ` set (nodes r)" "distinct (getUniqueNodes r)" "sorted (getUniqueNodes r)"
proof -
  let ?s = "foldl (\<lambda>s p. mput (snd p) True s) [] (nodes r)"
  have "mwf ?s" and "dom (map_of ?s) = snd ` set (nodes r)"
    using foldl_mput_keys [of "[]" snd "nodes r"] by (simp_all add: go_map_simps)
  then show "set (getUniqueNodes r) = snd ` set (nodes r)" "distinct (getUniqueNodes r)"
    "sorted (getUniqueNodes r)"
    by (simp_all add: getUniqueNodes_def Let_def set_mkeys) (simp add: mwf_def mkeys_def)
qed

lemma uniqueNodes_ran: "mwf (nodes r) \<Longrightarrow> set (getUniqueNodes r) = ran (map_of (nodes r))"
  by (force simp: uniqueNodes_props ran_def mwf_lookup [symmetric])

lemma node_at_image: "node_at r ` dom (map_of (nodes r)) = ran (map_of (nodes r))"
  by (force simp: node_at_def ran_def dom_def image_iff split: option.splits)

section \<open>Lookup of several nodes\<close>

text \<open>The distinct elements of a list, in the order of their first occurrences.\<close>

definition dedup :: "'a list \<Rightarrow> 'a list" where
  "dedup xs = rev (remdups (rev xs))"

lemma dedup_simps [simp]:
  "dedup [] = []"
  "dedup (xs @ [x]) = (if x \<in> set xs then dedup xs else dedup xs @ [x])"
  "set (dedup xs) = set xs" "distinct (dedup xs)"
  by (simp_all add: dedup_def)

lemma dedup_prefix: "\<exists>zs. dedup (xs @ ys) = dedup xs @ zs"
proof (induction ys rule: rev_induct)
  case (snoc y ys)
  then show ?case by (simp add: append_assoc [symmetric] del: append_assoc) auto
qed simp

lemma length_dedup: "length (dedup xs) = card (set xs)"
  by (metis dedup_simps(3,4) distinct_card)

lemma nodes_loop_result:
  fixes r :: ring and s :: nat
  defines "L \<equiv> length (sortedKeys r)"
  defines "walk \<equiv> \<lambda>i. node_at r (sortedKeys r ! ((s + i) mod L))"
  assumes "0 < L" "set (map walk [0..<L]) = set (getUniqueNodes r)"
    and "i \<le> L" "idx \<le> L" "idx mod L = (s + i) mod L"
    and "res = dedup (map walk [0..<i])" "int (length res) \<le> cnt"
    and "\<And>n. map_of seen n = (if n \<in> set res then Some True else None)" "length seen = length res"
  shows "nodes_loop r cnt idx seen res = Some (take (nat cnt) (dedup (map walk [0..<L])))"
  using assms(5-)
proof (induction "L - i" arbitrary: i idx seen res)
  case 0
  then have "i = L" by simp
  with "0.prems" assms(4) have "length seen = length (getUniqueNodes r)"
    by (simp add: length_dedup distinct_card uniqueNodes_props(2))
  with "0.prems" \<open>i = L\<close> show ?case by (subst nodes_loop.simps) simp
next
  case (Suc d)
  then have i: "i < L" by simp
  have full: "map walk [0..<L] = map walk [0..<i] @ map walk [i..<L]"
    using upt_add_eq_append [of 0 i "L - i"] i by simp
  obtain zs where zs: "dedup (map walk [0..<L]) = res @ zs"
    using dedup_prefix [of "map walk [0..<i]" "map walk [i..<L]"] full Suc.prems(4) by metis
  let ?go = "int (length res) < cnt \<and> length seen < length (getUniqueNodes r)"
  show ?case
  proof (cases ?go)
    case False
    have "take (nat cnt) (dedup (map walk [0..<L])) = res"
    proof (cases "int (length res) < cnt")
      case True
      with False Suc.prems(7) have "length (getUniqueNodes r) \<le> length res" by simp
      moreover have "length (dedup (map walk [0..<L])) = length (getUniqueNodes r)"
        using assms(4) by (metis length_dedup distinct_card uniqueNodes_props(2))
      ultimately have "length (res @ zs) \<le> length res" using zs by (metis le_trans order_refl)
      then have "zs = []" by simp
      with True zs show ?thesis by simp
    next
      case False
      with Suc.prems(5) have "nat cnt = length res" by simp
      with zs show ?thesis by simp
    qed
    with False show ?thesis by (subst nodes_loop.simps) auto
  next
    case True
    let ?idx = "if idx \<ge> L then 0 else idx"
    have "?idx < L" using Suc.prems(2) assms(3) by auto
    have idx: "?idx = (s + i) mod L" using Suc.prems(2,3) assms(3) by (auto split: if_splits)
    then have node: "node_at r (sortedKeys r ! ?idx) = walk i" by (simp add: walk_def)
    have up: "[0..<Suc i] = [0..<i] @ [i]" by simp
    have next_idx: "?idx + 1 \<le> L" "(?idx + 1) mod L = (s + Suc i) mod L"
      using \<open>?idx < L\<close> idx by (simp_all add: mod_Suc_eq)
    have unfold: "nodes_loop r cnt idx seen res =
      (if walk i \<in> set res then nodes_loop r cnt (?idx + 1) seen res
       else nodes_loop r cnt (?idx + 1) (mput (walk i) True seen) (res @ [walk i]))"
      using True Suc.prems(6) node
      by (subst nodes_loop.simps) (simp add: L_def [symmetric] Let_def)
    have d: "d = L - Suc i" using Suc.hyps(2) by simp
    show ?thesis
    proof (cases "walk i \<in> set res")
      case True
      have "nodes_loop r cnt (?idx + 1) seen res = Some (take (nat cnt) (dedup (map walk [0..<L])))"
        by (rule Suc.hyps(1) [OF d]) (use Suc.prems True i next_idx in \<open>simp_all add: up\<close>)
      with True unfold show ?thesis by simp
    next
      case new: False
      then have "map_of seen (walk i) = None" using Suc.prems(6) by simp
      then have "length (mput (walk i) True seen) = Suc (length seen)" by (simp add: length_mput)
      then have "nodes_loop r cnt (?idx + 1) (mput (walk i) True seen) (res @ [walk i]) =
          Some (take (nat cnt) (dedup (map walk [0..<L])))"
        by (intro Suc.hyps(1) [OF d]) (use Suc.prems True new i next_idx in \<open>simp_all add: up go_map_simps\<close>)
      with new unfold show ?thesis by simp
    qed
  qed
qed

lemma GetNodes_result:
  assumes "ring_inv r" "nodes r \<noteq> []" "0 < cnt"
  shows "GetNodes md5 key cnt r = Some (Inr (take (nat cnt) (dedup
     (map (node_at r) (rotate (search r (hash md5 key)) (sortedKeys r))))))"
proof -
  let ?s = "search r (hash md5 key)" and ?ks = "sortedKeys r"
  let ?walk = "\<lambda>i. node_at r (?ks ! ((?s + i) mod length ?ks))"
  have ne: "?ks \<noteq> []" by (rule ring_inv_keys [OF assms(1,2)])
  have walk: "map ?walk [0..<length ?ks] = map (node_at r) (rotate ?s ?ks)"
    by (rule rotate_window)
  have "set (map ?walk [0..<length ?ks]) = set (getUniqueNodes r)"
    unfolding walk using assms(1) by (simp add: ring_inv_def node_at_image uniqueNodes_ran)
  moreover have "?s \<le> length ?ks"
    using sort_Search_border [of 0 "length ?ks" "\<lambda>i. ?ks ! i \<ge> hash md5 key"] assms(1)
    unfolding search_def ring_inv_def by (metis le0 order_trans sorted_nth_mono)
  ultimately have "nodes_loop r cnt ?s [] [] = Some (take (nat cnt) (dedup (map ?walk [0..<length ?ks])))"
    using ne assms(3) by (intro nodes_loop_result [where i = 0]) simp_all
  with walk assms(2,3) show ?thesis by (simp add: GetNodes_def)
qed


lemma hd_dedup: "xs \<noteq> [] \<Longrightarrow> hd (dedup xs) = hd xs \<and> dedup xs \<noteq> []"
  using dedup_prefix [of "[hd xs]" "tl xs"] by (cases xs) (auto simp: dedup_def)

lemma GetNodes_first:
  assumes "ring_inv r" "nodes r \<noteq> []"
  shows "GetNode md5 key r =
     Inr (hd (dedup (map (node_at r) (rotate (search r (hash md5 key)) (sortedKeys r)))))"
proof -
  let ?ks = "sortedKeys r" and ?s = "search r (hash md5 key)"
  have ne: "?ks \<noteq> []" by (rule ring_inv_keys [OF assms])
  have "?s \<le> length ?ks"
    using sort_Search_border [of 0 "length ?ks" "\<lambda>i. ?ks ! i \<ge> hash md5 key"] assms(1)
    unfolding search_def ring_inv_def by (metis le0 order_trans sorted_nth_mono)
  then have "(if ?s \<ge> length ?ks then 0 else ?s) = ?s mod length ?ks" using ne by auto
  moreover have "hd (rotate ?s ?ks) = ?ks ! (?s mod length ?ks)"
    using ne by (simp add: hd_conv_nth nth_rotate)
  ultimately show ?thesis using ne assms(2) hd_dedup [of "map (node_at r) (rotate ?s ?ks)"]
    by (simp add: GetNode_def Let_def hd_map)
qed

section \<open>The ring implements a set of nodes\<close>

text \<open>
  Where the points of different nodes do not collide, the ring is a set of nodes: every node
  of the set owns its points and no other key is in the map.  \<open>U\<close> is the set of nodes that
  are ever used.
\<close>

definition no_collide :: "md5 \<Rightarrow> int \<Rightarrow> string set \<Rightarrow> bool" where
  "no_collide md5 reps U \<longleftrightarrow>
     (\<forall>a \<in> U. \<forall>b \<in> U. a \<noteq> b \<longrightarrow> points md5 reps a \<inter> points md5 reps b = {})"

definition ring_rep :: "md5 \<Rightarrow> int \<Rightarrow> string set \<Rightarrow> ring \<Rightarrow> string set \<Rightarrow> bool" where
  "ring_rep md5 reps U r N \<longleftrightarrow> ring_inv r \<and> replicas r = reps \<and> 0 < reps \<and>
     no_collide md5 reps U \<and> N \<subseteq> U \<and>
     (\<forall>k n. map_of (nodes r) k = Some n \<longleftrightarrow> n \<in> N \<and> k \<in> points md5 reps n)"

lemma points_nonempty: "0 < reps \<Longrightarrow> points md5 reps n \<noteq> {}"
  by (simp add: points_def lessThan_empty_iff)

lemma ring_rep_new:
  "0 < reps \<Longrightarrow> no_collide md5 reps U \<Longrightarrow> ring_rep md5 reps U (NewRing reps) {}"
  by (simp add: ring_rep_def ring_inv_NewRing) (simp add: NewRing_def)

lemma ring_rep_add:
  assumes "ring_rep md5 reps U r N" "n \<in> U"
  shows "ring_rep md5 reps U (AddNode md5 n r) (insert n N)"
  using assms by (auto simp: ring_rep_def ring_inv_AddNode AddNode_view no_collide_def)

lemma ring_rep_remove:
  assumes "ring_rep md5 reps U r N" "n \<in> U"
  shows "ring_rep md5 reps U (RemoveNode md5 n r) (N - {n})"
  using assms by (auto simp: ring_rep_def ring_inv_RemoveNode RemoveNode_view no_collide_def)

lemma ring_rep_all: "ring_rep md5 reps U r N \<Longrightarrow> set (GetAllNodes r) = N"
proof -
  assume rep: "ring_rep md5 reps U r N"
  then have "set (GetAllNodes r) = ran (map_of (nodes r))"
    by (simp add: GetAllNodes_def uniqueNodes_ran ring_rep_def ring_inv_def)
  also have "\<dots> = N" using rep points_nonempty by (fastforce simp: ran_def ring_rep_def)
  finally show ?thesis .
qed

text \<open>
  The interface the balancers use: a collection of nodes with insertion, removal and
  enumeration, representing a set.
\<close>

locale node_set =
  fixes add remove :: "string \<Rightarrow> 'r \<Rightarrow> 'r"
    and all :: "'r \<Rightarrow> string list"
    and rep :: "'r \<Rightarrow> string set \<Rightarrow> bool"
    and U :: "string set"
  assumes rep_add: "rep r N \<Longrightarrow> n \<in> U \<Longrightarrow> rep (add n r) (insert n N)"
    and rep_remove: "rep r N \<Longrightarrow> n \<in> U \<Longrightarrow> rep (remove n r) (N - {n})"
    and rep_all: "rep r N \<Longrightarrow> set (all r) = N"
    and rep_universe: "rep r N \<Longrightarrow> N \<subseteq> U"
begin

lemma rep_foldl_add: "rep r N \<Longrightarrow> set ns \<subseteq> U \<Longrightarrow> rep (foldl (\<lambda>r n. add n r) r ns) (N \<union> set ns)"
  by (induction ns arbitrary: r N) (auto dest: rep_add simp flip: insert_is_Un Un_insert_left)

lemma rep_foldl_remove:
  "rep r N \<Longrightarrow> set ns \<subseteq> U \<Longrightarrow> rep (foldl (\<lambda>r n. remove n r) r ns) (N - set ns)"
proof (induction ns arbitrary: r N)
  case (Cons n ns)
  then have "rep (foldl (\<lambda>r n. remove n r) (remove n r) ns) (N - {n} - set ns)"
    by (intro Cons.IH rep_remove) auto
  moreover have "N - {n} - set ns = N - set (n # ns)" by auto
  ultimately show ?case by simp
qed simp

lemma rep_update_scan:
  assumes "rep r N" "set bs \<subseteq> U" "dom (map_of t) \<subseteq> N" "\<forall>b. map_of t b \<in> {None, Some True}"
  shows "rep (snd (update_scan add bs t r)) (N \<union> set bs)"
    and "dom (map_of (fst (update_scan add bs t r))) = dom (map_of t) - set bs"
  using assms
proof (induction bs arbitrary: t r N)
  case (Cons b bs)
  {
    case 1
    show ?case
    proof (cases "map_of t b = Some True")
      case True
      then have same: "N \<union> set (b # bs) = N \<union> set bs" using 1 by auto
      have "rep (snd (update_scan add bs (mdel b t) r)) (N \<union> set bs)"
        using 1 by (intro Cons.IH(1)) (auto simp: go_map_simps split: if_splits)
      with True show ?thesis unfolding same by simp
    next
      case False
      with 1 Cons.IH(1) [of "add b r" "insert b N" t] rep_add [of r N b] show ?thesis by auto
    qed
  next
    case 2
    show ?case
    proof (cases "map_of t b = Some True")
      case True
      have "dom (map_of (fst (update_scan add bs (mdel b t) r))) = dom (map_of (mdel b t)) - set bs"
        using 2 by (intro Cons.IH(2)) (auto simp: go_map_simps split: if_splits)
      also have "dom (map_of (mdel b t)) = dom (map_of t) - {b}" by (simp add: go_map_simps)
      finally show ?thesis using True by auto
    next
      case False
      with 2 have "map_of t b = None" by (metis insertE singletonD)
      with False 2 Cons.IH(2) [of "add b r" "insert b N" t] rep_add [of r N b] show ?thesis
        by auto
    qed
  }
qed simp_all

lemma foldl_true:
  "map_of (foldl (\<lambda>m b. mput b True m) m xs) =
     (\<lambda>b. if b \<in> set xs then Some True else map_of m b)"
  by (induction xs arbitrary: m) (auto simp: go_map_simps fun_eq_iff)

lemma rep_update:
  assumes "rep r N" "set bs \<subseteq> U" "is_shuffle sh"
  shows "rep (update_with add remove all sh bs r) (set bs)"
proof -
  let ?t0 = "foldl (\<lambda>m b. mput b True m) [] (all r)"
  let ?p = "update_scan add bs ?t0 r"
  have dom0: "dom (map_of ?t0) = N" using rep_all [OF assms(1)]
    by (auto simp: foldl_true split: if_splits)
  have t0: "\<forall>b. map_of ?t0 b \<in> {None, Some True}" by (simp add: foldl_true)
  note scan = rep_update_scan [OF assms(1,2) _ t0]
  have rep1: "rep (snd ?p) (N \<union> set bs)" and dom1: "dom (map_of (fst ?p)) = N - set bs"
    using scan dom0 by simp_all
  have keys: "set (mkeys (sh (fst ?p))) = N - set bs"
    using dom1 shuffle_set [OF assms(3)] by (metis dom_map_of_conv_image_fst list.set_map mkeys_def)
  have "rep (foldl (\<lambda>r b. remove b r) (snd ?p) (mkeys (sh (fst ?p)))) (N \<union> set bs - (N - set bs))"
    using rep_foldl_remove [OF rep1, of "mkeys (sh (fst ?p))"] keys rep_universe [OF assms(1)] by auto
  moreover have "N \<union> set bs - (N - set bs) = set bs" by auto
  ultimately show ?thesis by (simp add: update_with_def Let_def split_beta)
qed

end

interpretation rg: node_set "AddNode md5" "RemoveNode md5" GetAllNodes "ring_rep md5 reps U" U
  for md5 reps U
  by unfold_locales (simp_all add: ring_rep_add ring_rep_remove ring_rep_all, simp add: ring_rep_def)


section \<open>Properties\<close>

text \<open>A sequence of additions and removals, in the order in which they take the ring's lock.\<close>

datatype ring_event = AddEvent string | RemoveEvent string

fun ring_run :: "md5 \<Rightarrow> ring_event list \<Rightarrow> ring \<Rightarrow> ring" where
  "ring_run md5 [] r = r"
| "ring_run md5 (AddEvent n # es) r = ring_run md5 es (AddNode md5 n r)"
| "ring_run md5 (RemoveEvent n # es) r = ring_run md5 es (RemoveNode md5 n r)"

lemma ring_inv_run: "ring_inv r \<Longrightarrow> ring_inv (ring_run md5 es r)"
  by (induction md5 es r rule: ring_run.induct) (auto simp: ring_inv_AddNode ring_inv_RemoveNode)

text \<open>A digest for the witnesses: the bytes of the string, padded with zeros.\<close>

definition sample_md5 :: md5 where
  "sample_md5 s = map (\<lambda>c. of_nat (of_char c)) s @ replicate 16 0"

lemma sample_point:
  "point sample_md5 n 0 = hash sample_md5 (n @ '':0'')"
  by (simp add: point_def itoa_def dec.simps)

lemmas sample_hash = hash_def sample_md5_def

lemma sample_points:
  "points sample_md5 1 ''a'' = {0x613A3000}" "points sample_md5 1 ''b'' = {0x623A3000}"
  "points sample_md5 1 ''c'' = {0x633A3000}"
  by (simp_all add: points_def lessThan_Suc sample_point sample_hash)


text \<open>
  C9: in every ring that additions and removals can build, a lookup by binary search returns
  the node that owns the first point at or after the hash of the key, going round the
  circle; it fails exactly when the ring has no points.
\<close>
theorem lookup_is_clockwise_successor:
  "let r = ring_run md5 es (NewRing reps)
   in if nodes r = [] then GetNode md5 key r = Inl no_nodes
      else \<exists>n. map_of (nodes r) (clockwise (set (sortedKeys r)) (hash md5 key)) = Some n \<and>
               GetNode md5 key r = Inr n"
proof -
  let ?r = "ring_run md5 es (NewRing reps)"
  have inv: "ring_inv ?r" by (simp add: ring_inv_run ring_inv_NewRing)
  show ?thesis
  proof (cases "nodes ?r = []")
    case False
    with inv obtain n where "map_of (nodes ?r) (clockwise (dom (map_of (nodes ?r))) (hash md5 key)) = Some n"
      "GetNode md5 key ?r = Inr n" using GetNode_owner [of ?r md5 key] False by metis
    with False inv show ?thesis by (auto simp: ring_inv_def Let_def)
  qed (simp add: GetNode_def)
qed

text \<open>
  C10: consistent hashing, adding a node.  Every key keeps its node or moves to the new one,
  even where points collide.
\<close>
theorem adding_moves_keys_only_to_the_new_node:
  assumes "ring_inv r" "nodes r \<noteq> []"
  shows "GetNode md5 key (AddNode md5 node r) \<in> {GetNode md5 key r, Inr node}"
proof -
  let ?r = "AddNode md5 node r" and ?h = "hash md5 key"
  let ?M = "map_of (nodes r)" and ?P = "points md5 (replicas r) node"
  have sub: "dom ?M \<subseteq> dom (map_of (nodes ?r))" by (auto simp: AddNode_view)
  then have ne: "nodes ?r \<noteq> []" using ring_inv_keys(2) [OF assms] by auto
  obtain k n where k: "k = clockwise (dom (map_of (nodes ?r))) ?h" "map_of (nodes ?r) k = Some n"
    "GetNode md5 key ?r = Inr n" by (rule GetNode_owner [OF ring_inv_AddNode [OF assms(1)] ne])
  show ?thesis
  proof (cases "k \<in> ?P")
    case False
    then have old: "?M k = Some n" using k(2) by (simp add: AddNode_view)
    then have "clockwise (dom ?M) ?h = k"
      using clockwise_superset [OF finite_ring sub, of ?h] k(1) by auto
    with old k(3) show ?thesis by (simp add: GetNode_clockwise [OF assms] node_at_def)
  qed (use k in \<open>simp add: AddNode_view\<close>)
qed

theorem adding_moves_keys_only_to_the_new_node_witness:
  "GetNode sample_md5 ''k'' (AddNode sample_md5 ''b'' (AddNode sample_md5 ''a'' (NewRing 1))) \<in>
     {GetNode sample_md5 ''k'' (AddNode sample_md5 ''a'' (NewRing 1)), Inr ''b''}"
  by (rule adding_moves_keys_only_to_the_new_node)
    (simp_all add: ring_inv_AddNode ring_inv_NewRing, simp add: AddNode_def NewRing_def Let_def mput_def)

text \<open>
  C11: consistent hashing, removing a node.  A key whose node stays keeps it, provided no
  other node owns a point of the removed one.
\<close>
theorem removing_keeps_other_keys:
  assumes "ring_inv r" "GetNode md5 key r = Inr m" "m \<noteq> node"
    and "\<forall>k \<in> points md5 (replicas r) node. map_of (nodes r) k \<in> {None, Some node}"
  shows "GetNode md5 key (RemoveNode md5 node r) = Inr m"
proof -
  let ?r = "RemoveNode md5 node r" and ?h = "hash md5 key" and ?M = "map_of (nodes r)"
  have ne: "nodes r \<noteq> []" using assms(2) by (auto simp: GetNode_def)
  obtain k where k: "k = clockwise (dom ?M) ?h" "?M k = Some m"
    using GetNode_owner [OF assms(1) ne, of md5 key] assms(2) by auto
  then have kept: "map_of (nodes ?r) k = Some m"
    using assms(3,4) by (auto simp: RemoveNode_view)
  have sub: "dom (map_of (nodes ?r)) \<subseteq> dom ?M" by (auto simp: RemoveNode_view split: if_splits)
  have "clockwise (dom (map_of (nodes ?r))) ?h = k"
    using clockwise_superset [OF finite_ring sub, of ?h] k(1) kept by auto
  moreover have "nodes ?r \<noteq> []" using kept by auto
  ultimately show ?thesis
    using kept by (simp add: GetNode_clockwise [OF ring_inv_RemoveNode [OF assms(1)]] node_at_def)
qed

lemma sample_ring:
  "nodes (AddNode sample_md5 ''b'' (AddNode sample_md5 ''a'' (NewRing 1))) =
     [(0x613A3000, ''a''), (0x623A3000, ''b'')]"
  by (simp add: AddNode_def NewRing_def Let_def mput_def sample_point sample_hash)

theorem removing_keeps_other_keys_witness:
  "let r = AddNode sample_md5 ''b'' (AddNode sample_md5 ''a'' (NewRing 1))
   in \<exists>m. GetNode sample_md5 ''a:'' r = Inr m \<and> m = ''a'' \<and>
      GetNode sample_md5 ''a:'' (RemoveNode sample_md5 ''b'' r) = Inr m"
proof -
  let ?r = "AddNode sample_md5 ''b'' (AddNode sample_md5 ''a'' (NewRing 1))"
  have inv: "ring_inv ?r" by (simp add: ring_inv_AddNode ring_inv_NewRing)
  have keys: "{0x613A3000, 0x623A3000} = dom (map_of (nodes ?r))" by (auto simp: sample_ring)
  have reps: "replicas ?r = 1" by (simp add: AddNode_view NewRing_def)
  have "GetNode sample_md5 ''a:'' ?r = Inr ''a''"
    by (subst GetNode_clockwise [OF inv])
      (simp_all add: sample_ring, simp add: node_at_def clockwise_def sample_ring sample_hash Collect_conv_if
        conj_disj_distribR Collect_disj_eq word_less_alt word_le_def Min_insert2)
  moreover from inv this have "GetNode sample_md5 ''a:'' (RemoveNode sample_md5 ''b'' ?r) = Inr ''a''"
    by (rule removing_keeps_other_keys) (simp_all add: reps sample_points sample_ring)
  ultimately show ?thesis by simp
qed


text \<open>
  C12: the loop of \<open>GetNodes\<close> always ends, and it returns distinct nodes of the ring, as many
  as asked for or all of them, beginning with the node \<open>GetNode\<close> returns for the same key.
\<close>
theorem get_nodes_returns_distinct_nodes:
  assumes "ring_inv r" "nodes r \<noteq> []" "0 < cnt"
  shows "\<exists>ns. GetNodes md5 key cnt r = Some (Inr ns) \<and> distinct ns \<and>
     set ns \<subseteq> set (GetAllNodes r) \<and> length ns = min (nat cnt) (Size r) \<and>
     GetNode md5 key r = Inr (hd ns)"
proof -
  let ?all = "dedup (map (node_at r) (rotate (search r (hash md5 key)) (sortedKeys r)))"
  have set: "set ?all = set (getUniqueNodes r)"
    using assms(1) by (simp add: ring_inv_def node_at_image uniqueNodes_ran)
  then have len: "length ?all = Size r"
    by (metis Size_def distinct_card length_dedup dedup_simps(3) uniqueNodes_props(2))
  have "?all \<noteq> []" using ring_inv_keys(1) [OF assms(1,2)] by (simp add: hd_dedup)
  then have "hd (take (nat cnt) ?all) = hd ?all" using assms(3) by (cases ?all) (auto simp: take_Cons split: nat.splits)
  moreover have "set (take (nat cnt) ?all) \<subseteq> set (getUniqueNodes r)"
    using set set_take_subset by fastforce
  ultimately show ?thesis
    using GetNodes_result [OF assms] GetNodes_first [OF assms(1,2)] len
    by (simp add: GetAllNodes_def min.commute)
qed

theorem get_nodes_returns_distinct_nodes_witness:
  "\<exists>ns. GetNodes sample_md5 ''k'' 2 (AddNode sample_md5 ''b'' (AddNode sample_md5 ''a'' (NewRing 1))) =
     Some (Inr ns) \<and> distinct ns"
  using get_nodes_returns_distinct_nodes
      [of "AddNode sample_md5 ''b'' (AddNode sample_md5 ''a'' (NewRing 1))" 2 sample_md5 "''k''"]
  by (auto simp: ring_inv_AddNode ring_inv_NewRing sample_ring)

text \<open>
  C13: where points do not collide, \<open>UpdateBackends\<close> leaves exactly the given backends in
  the ring, whatever was in it and in whatever order the map of nodes to remove is ranged
  over; the enumeration of the backends is then the sorted list of them.
\<close>
theorem update_backends_installs_exactly_the_list:
  assumes "ring_rep md5 reps U k N" "set backends \<subseteq> U" "is_shuffle sh"
  shows "ring_rep md5 reps U (ketama_UpdateBackends md5 sh backends k) (set backends) \<and>
     ketama_GetAllBackends (ketama_UpdateBackends md5 sh backends k) = sort (remdups backends)"
proof -
  let ?k = "ketama_UpdateBackends md5 sh backends k"
  have rep: "ring_rep md5 reps U ?k (set backends)"
    unfolding ketama_UpdateBackends_def using assms by (rule rg.rep_update)
  then have "set (getUniqueNodes ?k) = set backends"
    using rg.rep_all unfolding GetAllNodes_def by blast
  then have "getUniqueNodes ?k = sort (remdups backends)"
    by (intro sorted_distinct_set_unique) (simp_all add: uniqueNodes_props(2,3))
  with rep show ?thesis by (simp add: ketama_GetAllBackends_def GetAllNodes_def)
qed

theorem update_backends_installs_exactly_the_list_witness:
  "ketama_GetAllBackends (ketama_UpdateBackends sample_md5 rev [''c'', ''b'']
     (AddNode sample_md5 ''b'' (AddNode sample_md5 ''a'' (NewRing 1)))) = sort (remdups [''c'', ''b''])"
proof -
  have "no_collide sample_md5 1 {''a'', ''b'', ''c''}" by (simp add: no_collide_def sample_points)
  then have "ring_rep sample_md5 1 {''a'', ''b'', ''c''} (NewRing 1) {}" by (simp add: ring_rep_new)
  then have "ring_rep sample_md5 1 {''a'', ''b'', ''c''}
      (AddNode sample_md5 ''b'' (AddNode sample_md5 ''a'' (NewRing 1))) {''b'', ''a''}"
    by (intro ring_rep_add) simp_all
  from update_backends_installs_exactly_the_list [OF this _ is_shuffle_rev, of "[''c'', ''b'']"]
  show ?thesis by simp
qed

lemma restrict_disjoint: "m |` (- P) = m \<longleftrightarrow> dom m \<inter> P = {}"
proof
  assume eq: "m |` (- P) = m"
  have "m k = None" if "k \<in> P" for k
    using fun_cong [OF eq, of k] that by simp
  then show "dom m \<inter> P = {}" by auto
next
  assume disjoint: "dom m \<inter> P = {}"
  have "m k = None" if "k \<in> P" for k
    using disjoint that by auto
  then show "m |` (- P) = m" by (simp add: restrict_map_def fun_eq_iff)
qed

lemma replicas_run: "replicas (ring_run md5 es r) = replicas r"
  by (induction md5 es r rule: ring_run.induct) (simp_all add: AddNode_view RemoveNode_view)

text \<open>
  C14: a point belongs to one node, so adding a node and removing it again takes away the
  points that it shares with others, and nothing else: a node that was never removed keeps
  only its other points, and leaves the ring when it has none.  The points are as they were
  exactly when none of the node's points was in the ring.
\<close>
theorem removal_takes_shared_points:
  "let r = ring_run md5 es (NewRing reps); r' = RemoveNode md5 n (AddNode md5 n r)
   in map_of (nodes r') = map_of (nodes r) |` (- points md5 reps n) \<and>
      (\<forall>m. m \<in> set (GetAllNodes r') \<longleftrightarrow> (\<exists>k. map_of (nodes r) k = Some m \<and> k \<notin> points md5 reps n)) \<and>
      (map_of (nodes r') = map_of (nodes r) \<longleftrightarrow> dom (map_of (nodes r)) \<inter> points md5 reps n = {})"
proof -
  let ?r = "ring_run md5 es (NewRing reps)"
  let ?r' = "RemoveNode md5 n (AddNode md5 n ?r)"
  have reps: "replicas ?r = reps" by (simp add: replicas_run NewRing_def)
  have map: "map_of (nodes ?r') = map_of (nodes ?r) |` (- points md5 reps n)"
    by (auto simp: RemoveNode_view AddNode_view reps restrict_map_def fun_eq_iff)
  have "ring_inv ?r'" by (simp add: ring_inv_RemoveNode ring_inv_AddNode ring_inv_run ring_inv_NewRing)
  then have all: "set (GetAllNodes ?r') = ran (map_of (nodes ?r'))"
    by (simp add: GetAllNodes_def uniqueNodes_ran ring_inv_def)
  have "m \<in> set (GetAllNodes ?r') \<longleftrightarrow> (\<exists>k. map_of (nodes ?r) k = Some m \<and> k \<notin> points md5 reps n)" for m
    unfolding all map by (auto simp: ran_def restrict_map_def split: if_splits)
  then show ?thesis unfolding Let_def using map by (simp add: restrict_disjoint)
qed

text \<open>A digest that sends everything to one point: the second node takes the first with it.\<close>

theorem removal_takes_shared_points_witness:
  "GetAllNodes (RemoveNode (\<lambda>_. replicate 16 0) ''b'' (AddNode (\<lambda>_. replicate 16 0) ''b''
     (ring_run (\<lambda>_. replicate 16 0) [AddEvent ''a''] (NewRing 1)))) = []"
proof -
  have pts: "points (\<lambda>_. replicate 16 0) 1 m = {0}" for m
    by (simp add: points_def lessThan_Suc point_def hash_def)
  have "map_of (nodes (ring_run (\<lambda>_. replicate 16 0) [AddEvent ''a''] (NewRing 1))) k \<noteq> None \<Longrightarrow> k = 0" for k
    by (auto simp: AddNode_view NewRing_def pts split: if_splits)
  moreover have "\<forall>m. m \<in> set (GetAllNodes (RemoveNode (\<lambda>_. replicate 16 0) ''b'' (AddNode (\<lambda>_. replicate 16 0) ''b''
     (ring_run (\<lambda>_. replicate 16 0) [AddEvent ''a''] (NewRing 1))))) \<longleftrightarrow>
     (\<exists>k. map_of (nodes (ring_run (\<lambda>_. replicate 16 0) [AddEvent ''a''] (NewRing 1))) k = Some m \<and> k \<notin> {0})"
    using removal_takes_shared_points [of "\<lambda>_. replicate 16 0" "[AddEvent ''a'']" 1 "''b''"]
    unfolding Let_def pts by (rule conjunct1 [OF conjunct2])
  ultimately show ?thesis by (metis insertI1 last_in_set option.distinct(1))
qed

end
