(* ===== verification/WeightedKetama.thy ===== *)
theory WeightedKetama
  imports Ketama
begin

text \<open>
  Package \<open>pkg/ketama\<close>, the weighted balancer: a backend of weight \<open>w\<close> is present in the
  ring as the \<open>w\<close> virtual nodes \<open>backend-0\<close>, ..., and a lookup strips the suffix again.
\<close>

record weighted =
  w_ring :: ring
  weights :: "(string, int) gomap"

definition NewWeightedKetamaBalancer :: "int \<Rightarrow> weighted" where
  "NewWeightedKetamaBalancer reps =
     (let reps = (if reps \<le> 0 then 160 else reps)
      in \<lparr>w_ring = NewRing reps, weights = []\<rparr>)"

definition virtualNode :: "string \<Rightarrow> nat \<Rightarrow> string" where
  "virtualNode backend i = backend @ ''-'' @ itoa (int i)"

definition w_AddBackend :: "md5 \<Rightarrow> string \<Rightarrow> int \<Rightarrow> weighted \<Rightarrow> weighted" where
  "w_AddBackend md5 backend weight w =
     (let weight = (if weight \<le> 0 then 1 else weight)
      in \<lparr>w_ring = foldl (\<lambda>r n. AddNode md5 n r) (w_ring w) (map (virtualNode backend) [0..<nat weight]),
          weights = mput backend weight (weights w)\<rparr>)"

definition w_RemoveBackend :: "md5 \<Rightarrow> string \<Rightarrow> weighted \<Rightarrow> weighted" where
  "w_RemoveBackend md5 backend w =
     (case map_of (weights w) backend of
        None \<Rightarrow> w
      | Some weight \<Rightarrow>
          \<lparr>w_ring = foldl (\<lambda>r n. RemoveNode md5 n r) (w_ring w) (map (virtualNode backend) [0..<nat weight]),
           weights = mdel backend (weights w)\<rparr>)"

text \<open>The loop that looks for the last dash, from position \<open>i - 1\<close> down.\<close>

fun strip_dash :: "string \<Rightarrow> nat \<Rightarrow> string" where
  "strip_dash node 0 = node"
| "strip_dash node (Suc i) = (if node ! i = CHR ''-'' then take i node else strip_dash node i)"

definition w_SelectBackend :: "md5 \<Rightarrow> string \<Rightarrow> weighted \<Rightarrow> go_error + string" where
  "w_SelectBackend md5 key w =
     (case GetNode md5 key (w_ring w) of
        Inl err \<Rightarrow> Inl err
      | Inr node \<Rightarrow> Inr (strip_dash node (length node)))"

definition GetStats :: "((string \<times> int) list \<Rightarrow> (string \<times> int) list) \<Rightarrow> weighted \<Rightarrow> (string, int) gomap" where
  "GetStats sh w = foldl (\<lambda>stats p. mput (fst p) (snd p) stats) [] (sh (weights w))"

text \<open>\<open>strconv.FormatUint(n, 16)\<close>.\<close>

fun hex :: "nat \<Rightarrow> string" where
  "hex n = (let d = (if n mod 16 < 10 then digit_char (n mod 16) else char_of (87 + n mod 16))
            in if n < 16 then [d] else hex (n div 16) @ [d])"

declare hex.simps [simp del]

definition HashKey :: "md5 \<Rightarrow> string \<Rightarrow> string" where
  "HashKey md5 key = hex (unat (md5 key ! 0))"

section \<open>Virtual nodes\<close>

lemma strip_dash_suffix:
  assumes "CHR ''-'' \<notin> set d" "k \<le> length d"
  shows "strip_dash (b @ CHR ''-'' # d) (Suc (length b + k)) = b"
  using assms(2)
proof (induction k)
  case (Suc k)
  then have "(b @ CHR ''-'' # d) ! Suc (length b + k) = d ! k" by (simp add: nth_append)
  moreover have "d ! k \<noteq> CHR ''-''" using assms(1) Suc.prems by (metis Suc_le_lessD nth_mem)
  ultimately show ?case using Suc by simp
qed (simp add: nth_append)

lemma strip_virtualNode: "strip_dash (virtualNode b i) (length (virtualNode b i)) = b"
proof -
  have "CHR ''-'' \<notin> set (itoa (int i))"
    using itoa_chars [of "int i"] digit_not_sign by auto
  from strip_dash_suffix [OF this order_refl] show ?thesis by (simp add: virtualNode_def)
qed

lemma virtualNode_inj: "virtualNode a i = virtualNode b j \<Longrightarrow> a = b \<and> i = j"
proof -
  assume eq: "virtualNode a i = virtualNode b j"
  then have "a = b" by (metis strip_virtualNode)
  with eq show ?thesis by (auto simp: virtualNode_def itoa_def dest: dec_inj)
qed

definition virtuals :: "(string, int) gomap \<Rightarrow> string set" where
  "virtuals wts = {virtualNode b i | b i. \<exists>w. map_of wts b = Some w \<and> i < nat w}"

definition weighted_inv :: "md5 \<Rightarrow> int \<Rightarrow> string set \<Rightarrow> weighted \<Rightarrow> bool" where
  "weighted_inv md5 reps U w \<longleftrightarrow> ring_rep md5 reps U (w_ring w) (virtuals (weights w)) \<and>
     (\<forall>b n. map_of (weights w) b = Some n \<longrightarrow> 0 < n)"

lemma virtuals_iff: "virtualNode b i \<in> virtuals wts \<longleftrightarrow> (\<exists>w. map_of wts b = Some w \<and> i < nat w)"
  by (auto simp: virtuals_def dest: virtualNode_inj)

lemma virtuals_shape: "x \<in> virtuals wts \<Longrightarrow> \<exists>b i. x = virtualNode b i"
  by (auto simp: virtuals_def)

lemma virtuals_mput:
  assumes "\<And>v. map_of wts b = Some v \<Longrightarrow> v \<le> n"
  shows "virtuals (mput b n wts) = virtuals wts \<union> virtualNode b ` {..<nat n}"
proof -
  have "virtuals (mput b n wts) =
      {virtualNode c i | c i. c \<noteq> b \<and> (\<exists>w. map_of wts c = Some w \<and> i < nat w)} \<union> virtualNode b ` {..<nat n}"
    by (auto simp: virtuals_def go_map_simps)
  also have "\<dots> = virtuals wts \<union> virtualNode b ` {..<nat n}"
    using assms by (fastforce simp: virtuals_def)
  finally show ?thesis .
qed

lemma virtuals_mdel:
  assumes "map_of wts b = Some n"
  shows "virtuals (mdel b wts) = virtuals wts - virtualNode b ` {..<nat n}"
proof (rule set_eqI)
  fix x
  show "x \<in> virtuals (mdel b wts) \<longleftrightarrow> x \<in> virtuals wts - virtualNode b ` {..<nat n}"
  proof (cases "\<exists>c i. x = virtualNode c i")
    case True
    then obtain c i where "x = virtualNode c i" by blast
    with assms show ?thesis by (auto simp: virtuals_iff go_map_simps image_iff dest: virtualNode_inj)
  qed (use virtuals_shape in blast)
qed

lemma weighted_inv_new:
  assumes "no_collide md5 (if reps \<le> 0 then 160 else reps) U"
  shows "weighted_inv md5 (if reps \<le> 0 then 160 else reps) U (NewWeightedKetamaBalancer reps)"
  using assms by (auto simp: weighted_inv_def NewWeightedKetamaBalancer_def Let_def virtuals_def
      intro!: ring_rep_new)

lemma weighted_inv_add:
  assumes "weighted_inv md5 reps U w"
    and "virtualNode b ` {..<nat (max 1 n)} \<subseteq> U"
    and "\<And>v. map_of (weights w) b = Some v \<Longrightarrow> v \<le> max 1 n"
  shows "weighted_inv md5 reps U (w_AddBackend md5 b n w)"
proof -
  let ?n = "max 1 n"
  have n: "(if n \<le> 0 then 1 else n) = ?n" by auto
  have "ring_rep md5 reps U
      (foldl (\<lambda>r n. AddNode md5 n r) (w_ring w) (map (virtualNode b) [0..<nat ?n]))
      (virtuals (weights w) \<union> set (map (virtualNode b) [0..<nat ?n]))"
    using assms(1,2) by (intro rg.rep_foldl_add) (auto simp: weighted_inv_def)
  moreover have "virtuals (mput b ?n (weights w)) =
      virtuals (weights w) \<union> set (map (virtualNode b) [0..<nat ?n])"
    using assms(3) by (simp add: virtuals_mput atLeast0LessThan)
  moreover have "0 < v" if "map_of (mput b ?n (weights w)) c = Some v" for c v
    using assms(1) that by (auto simp: weighted_inv_def go_map_simps split: if_splits)
  ultimately show ?thesis
    by (simp add: weighted_inv_def w_AddBackend_def n Let_def)
qed

lemma weighted_inv_remove:
  assumes "weighted_inv md5 reps U w"
  shows "weighted_inv md5 reps U (w_RemoveBackend md5 b w)"
proof (cases "map_of (weights w) b")
  case (Some n)
  have sub: "set (map (virtualNode b) [0..<nat n]) \<subseteq> virtuals (weights w)"
    using Some by (auto simp: virtuals_iff)
  then have "set (map (virtualNode b) [0..<nat n]) \<subseteq> U"
    using assms rg.rep_universe unfolding weighted_inv_def by blast
  then have "ring_rep md5 reps U
      (foldl (\<lambda>r n. RemoveNode md5 n r) (w_ring w) (map (virtualNode b) [0..<nat n]))
      (virtuals (weights w) - set (map (virtualNode b) [0..<nat n]))"
    using assms by (intro rg.rep_foldl_remove) (simp_all add: weighted_inv_def)
  with assms Some show ?thesis
    by (auto simp: weighted_inv_def w_RemoveBackend_def virtuals_mdel atLeast0LessThan go_map_simps)
qed (use assms in \<open>simp add: w_RemoveBackend_def\<close>)

text \<open>What a lookup returns where the ring holds exactly the configured virtual nodes.\<close>

lemma weighted_select:
  assumes "weighted_inv md5 reps U w"
  shows "case w_SelectBackend md5 key w of
      Inl e \<Rightarrow> e = no_nodes \<and> weights w = []
    | Inr b \<Rightarrow> b \<in> dom (map_of (weights w))"
proof (cases "nodes (w_ring w) = []")
  case True
  have "virtuals (weights w) = set (GetAllNodes (w_ring w))"
    using assms rg.rep_all unfolding weighted_inv_def by blast
  with True have "virtuals (weights w) = {}" by (simp add: GetAllNodes_def uniqueNodes_props)
  moreover have "virtualNode b 0 \<in> virtuals (weights w)" if "map_of (weights w) b = Some n" for b n
    using that assms by (simp add: virtuals_iff weighted_inv_def)
  ultimately have "map_of (weights w) b = None" for b by (cases "map_of (weights w) b") auto
  then have "weights w = []" by (metis neq_Nil_conv map_of_Cons_code(2) option.distinct(1) surj_pair)
  with True show ?thesis by (simp add: w_SelectBackend_def GetNode_def)
next
  case False
  then obtain k n where "map_of (nodes (w_ring w)) k = Some n" "GetNode md5 key (w_ring w) = Inr n"
    using GetNode_owner [of "w_ring w" md5 key] assms
    unfolding weighted_inv_def ring_rep_def by metis
  moreover from this have "n \<in> virtuals (weights w)"
    using assms by (auto simp: weighted_inv_def ring_rep_def)
  ultimately show ?thesis by (auto simp: w_SelectBackend_def virtuals_def strip_virtualNode)
qed


section \<open>Properties\<close>

datatype w_event = WAdd string int | WRemove string

fun w_run :: "md5 \<Rightarrow> w_event list \<Rightarrow> weighted \<Rightarrow> weighted" where
  "w_run md5 [] w = w"
| "w_run md5 (WAdd b n # es) w = w_run md5 es (w_AddBackend md5 b n w)"
| "w_run md5 (WRemove b # es) w = w_run md5 es (w_RemoveBackend md5 b w)"

text \<open>No event adds a backend again with a smaller weight than it has.\<close>

fun w_grows :: "md5 \<Rightarrow> w_event list \<Rightarrow> weighted \<Rightarrow> bool" where
  "w_grows md5 [] w = True"
| "w_grows md5 (WAdd b n # es) w =
     ((case map_of (weights w) b of None \<Rightarrow> True | Some v \<Rightarrow> v \<le> max 1 n) \<and>
      w_grows md5 es (w_AddBackend md5 b n w))"
| "w_grows md5 (WRemove b # es) w = w_grows md5 es (w_RemoveBackend md5 b w)"

fun w_universe :: "w_event list \<Rightarrow> string set" where
  "w_universe [] = {}"
| "w_universe (WAdd b n # es) = virtualNode b ` {..<nat (max 1 n)} \<union> w_universe es"
| "w_universe (WRemove b # es) = w_universe es"

lemma weighted_inv_run:
  "weighted_inv md5 reps U w \<Longrightarrow> w_universe es \<subseteq> U \<Longrightarrow> w_grows md5 es w \<Longrightarrow>
   weighted_inv md5 reps U (w_run md5 es w)"
proof (induction md5 es w rule: w_run.induct)
  case (2 md5 b n es w)
  have "weighted_inv md5 reps U (w_AddBackend md5 b n w)"
    using "2.prems" by (intro weighted_inv_add) (auto split: option.splits)
  with 2 show ?case by simp
next
  case (3 md5 b es w)
  then show ?case by (simp add: weighted_inv_remove)
qed simp

text \<open>
  C15: as long as no backend is added again with a smaller weight, and points do not collide,
  a lookup in the weighted balancer returns a backend that is configured now, and fails
  exactly when none is.
\<close>
theorem weighted_select_returns_configured_backend:
  assumes "no_collide md5 (if reps \<le> 0 then 160 else reps) (w_universe es)"
    and "w_grows md5 es (NewWeightedKetamaBalancer reps)"
  shows "let w = w_run md5 es (NewWeightedKetamaBalancer reps)
    in case w_SelectBackend md5 key w of
         Inl e \<Rightarrow> e = no_nodes \<and> weights w = []
       | Inr b \<Rightarrow> b \<in> dom (map_of (weights w))"
  unfolding Let_def
  by (rule weighted_select [OF weighted_inv_run [OF weighted_inv_new [OF assms(1)] order_refl assms(2)]])

theorem weighted_select_returns_configured_backend_witness:
  "let w = w_run sample_md5 [WAdd ''a'' 1, WAdd ''b'' 1, WRemove ''a''] (NewWeightedKetamaBalancer 1)
   in case w_SelectBackend sample_md5 ''k'' w of
        Inl e \<Rightarrow> e = no_nodes \<and> weights w = []
      | Inr b \<Rightarrow> b \<in> dom (map_of (weights w))"
proof (rule weighted_select_returns_configured_backend)
  have "points sample_md5 1 (virtualNode ''a'' 0) = {0x612D303A}"
    "points sample_md5 1 (virtualNode ''b'' 0) = {0x622D303A}"
    by (simp_all add: points_def lessThan_Suc sample_point sample_hash virtualNode_def itoa_def dec.simps)
  then show "no_collide sample_md5 (if 1 \<le> (0::int) then 160 else 1)
      (w_universe [WAdd ''a'' 1, WAdd ''b'' 1, WRemove ''a''])"
    by (simp add: no_collide_def lessThan_Suc)
qed (simp add: w_AddBackend_def NewWeightedKetamaBalancer_def go_map_simps Let_def)

text \<open>
  C16: adding a backend again with a smaller weight forgets its extra virtual nodes, so
  removing it leaves these behind.  From any state in which the ring and the weights agree:
  the backend is no longer configured, but every key that hashes to a point of a forgotten
  virtual node still selects it, and when no other backend is configured every key does.
\<close>
theorem lowered_weight_leaves_a_ghost:
  assumes "weighted_inv md5 reps U w" "map_of (weights w) b = Some v" "max 1 n < v"
  shows "let w' = w_RemoveBackend md5 b (w_AddBackend md5 b n w)
    in map_of (weights w') b = None \<and>
       (\<forall>i key. max 1 n \<le> int i \<and> int i < v \<and> hash md5 key \<in> points md5 reps (virtualNode b i) \<longrightarrow>
          w_SelectBackend md5 key w' = Inr b) \<and>
       (dom (map_of (weights w)) = {b} \<longrightarrow> (\<forall>key. w_SelectBackend md5 key w' = Inr b))"
proof -
  let ?n = "max 1 n" and ?w' = "w_RemoveBackend md5 b (w_AddBackend md5 b n w)"
  let ?vs = "set (map (virtualNode b) [0..<nat ?n])" and ?N = "virtuals (weights w)"
  have n: "(if n \<le> 0 then 1 else n) = ?n" by auto
  have rep: "ring_rep md5 reps U (w_ring w) ?N" using assms(1) by (simp add: weighted_inv_def)
  have sub: "?vs \<subseteq> ?N" using assms(2,3) by (auto simp: virtuals_iff)
  then have U: "?vs \<subseteq> U" using rep rg.rep_universe by blast
  have ring: "w_ring ?w' = foldl (\<lambda>r n. RemoveNode md5 n r)
      (foldl (\<lambda>r n. AddNode md5 n r) (w_ring w) (map (virtualNode b) [0..<nat ?n])) (map (virtualNode b) [0..<nat ?n])"
    by (simp add: w_RemoveBackend_def w_AddBackend_def n Let_def go_map_simps)
  have rep': "ring_rep md5 reps U (w_ring ?w') (?N - ?vs)"
    unfolding ring using rg.rep_foldl_remove [OF rg.rep_foldl_add [OF rep U] U] sub by (simp add: Un_absorb2 del: set_map)
  have ghost: "virtualNode b i \<in> ?N - ?vs" if "?n \<le> int i" "int i < v" for i
    using that assms(2) by (auto simp: virtuals_iff dest: virtualNode_inj)
  have owner: "w_SelectBackend md5 key ?w' = Inr c"
    if "GetNode md5 key (w_ring ?w') = Inr (virtualNode c i)" for key c i
    using that by (simp add: w_SelectBackend_def strip_virtualNode)
  have inv: "ring_inv (w_ring ?w')" and owns: "\<And>k m. map_of (nodes (w_ring ?w')) k = Some m \<longleftrightarrow> m \<in> ?N - ?vs \<and> k \<in> points md5 reps m"
    using rep' by (auto simp: ring_rep_def)
  have pos: "0 < reps" using rep by (simp add: ring_rep_def)
  have "nat ?n < nat v" using assms(3) by simp
  then have last: "virtualNode b (nat ?n) \<in> ?N - ?vs" using assms(3) by (intro ghost) auto
  obtain k0 where "k0 \<in> points md5 reps (virtualNode b (nat ?n))" using points_nonempty [OF pos] by fastforce
  with last have "map_of (nodes (w_ring ?w')) k0 \<noteq> None" using owns by fastforce
  then have ne: "nodes (w_ring ?w') \<noteq> []" by (metis map_of.simps(1))
  have "w_SelectBackend md5 key ?w' = Inr b"
    if i: "?n \<le> int i" "int i < v" and h: "hash md5 key \<in> points md5 reps (virtualNode b i)" for i key
  proof -
    have own: "map_of (nodes (w_ring ?w')) (hash md5 key) = Some (virtualNode b i)" using owns ghost [OF i] h by blast
    then have "clockwise (dom (map_of (nodes (w_ring ?w')))) (hash md5 key) = hash md5 key"
      by (intro clockwise_self) (auto simp: finite_ring)
    with own show ?thesis by (intro owner) (simp add: GetNode_clockwise [OF inv ne] node_at_def)
  qed
  moreover have "w_SelectBackend md5 key ?w' = Inr b" if only: "dom (map_of (weights w)) = {b}" for key
  proof -
    obtain k m where "map_of (nodes (w_ring ?w')) k = Some m" "GetNode md5 key (w_ring ?w') = Inr m"
      using GetNode_owner [OF inv ne] by metis
    moreover from this owns obtain c i where "m = virtualNode c i" "map_of (weights w) c \<noteq> None"
      by (fastforce simp: virtuals_def)
    moreover from this only have "c = b" by (metis domIff singletonD)
    ultimately show ?thesis using owner by metis
  qed
  moreover have "map_of (weights ?w') b = None"
    by (simp add: w_RemoveBackend_def w_AddBackend_def Let_def go_map_simps)
  ultimately show ?thesis unfolding Let_def by blast
qed

theorem lowered_weight_leaves_a_ghost_witness:
  "let w = w_run sample_md5 [WAdd ''b'' 2, WAdd ''b'' 1, WRemove ''b''] (NewWeightedKetamaBalancer 1)
   in map_of (weights w) ''b'' = None \<and> w_SelectBackend sample_md5 ''k'' w = Inr ''b''"
proof -
  let ?es = "[WAdd ''b'' 2]" and ?w0 = "NewWeightedKetamaBalancer 1"
  have pts: "points sample_md5 1 (virtualNode ''b'' 0) = {0x622D303A}"
    "points sample_md5 1 (virtualNode ''b'' (Suc 0)) = {0x622D313A}"
    by (simp_all add: points_def lessThan_Suc sample_point sample_hash virtualNode_def itoa_def dec.simps)
  have "w_universe ?es = {virtualNode ''b'' 0, virtualNode ''b'' (Suc 0)}" by (auto simp: lessThan_Suc numeral_2_eq_2)
  then have "no_collide sample_md5 (if 1 \<le> (0::int) then 160 else 1) (w_universe ?es)"
    by (simp add: no_collide_def pts)
  then have "weighted_inv sample_md5 1 (w_universe ?es) (w_run sample_md5 ?es ?w0)"
    using weighted_inv_run [OF weighted_inv_new order_refl, of sample_md5 1 ?es] by (simp add: NewWeightedKetamaBalancer_def)
  moreover have "weights (w_run sample_md5 ?es ?w0) = [(''b'', 2)]"
    by (simp add: w_AddBackend_def NewWeightedKetamaBalancer_def Let_def mput_def)
  ultimately show ?thesis
    using lowered_weight_leaves_a_ghost [of sample_md5 1 "w_universe ?es" "w_run sample_md5 ?es ?w0" "''b''" 2 1]
    by (simp add: Let_def)
qed

end
