(* ===== verification/Cache.thy ===== *)
theory Cache
  imports Errors
begin

text \<open>
  Package \<open>pkg/cache\<close>, the in-memory cache: entries with expiry, size and item limits, LRU
  eviction, statistics.  The methods are modelled as they run when no other goroutine is
  between two of their critical sections.  Each reading of the clock is an argument; the
  order in which eviction ranges over the entries is a shuffle for each round.  The eviction
  loop is a partial function: \<open>None\<close> is a call that never returns.
\<close>

type_synonym bytes = "8 word list"

section \<open>Entries, statistics, the cache\<close>

record cache_entry =
  EValue :: bytes
  ExpiresAt :: time
  AccessedAt :: time
  CreatedAt :: time
  ESize :: int

definition IsExpired :: "time \<Rightarrow> cache_entry \<Rightarrow> bool" where
  "IsExpired now e = (if is_zero_time (ExpiresAt e) then False else now > ExpiresAt e)"

record cache_stats =
  Hits :: int
  Misses :: int
  Evictions :: int
  SSize :: int
  MaxSize :: int
  ItemCount :: int
  MaxItems :: int

definition zero_stats :: cache_stats where
  "zero_stats = \<lparr>Hits = 0, Misses = 0, Evictions = 0, SSize = 0, MaxSize = 0, ItemCount = 0, MaxItems = 0\<rparr>"

record memory_cache =
  entries :: "(string, cache_entry) gomap"
  maxSize :: int
  maxItems :: int
  currentSize :: int
  stats :: cache_stats
  locks :: "(string, nat) gomap"

record cache_config =
  cfg_MaxSize :: int
  cfg_MaxItems :: int

definition NewMemoryCache :: "cache_config option \<Rightarrow> memory_cache" where
  "NewMemoryCache config =
     (let config = (case config of None \<Rightarrow> \<lparr>cfg_MaxSize = 100 * 1024 * 1024, cfg_MaxItems = 10000\<rparr>
                                 | Some c \<Rightarrow> c)
      in \<lparr>entries = [], maxSize = cfg_MaxSize config, maxItems = cfg_MaxItems config, currentSize = 0,
          stats = zero_stats\<lparr>MaxSize := cfg_MaxSize config, MaxItems := cfg_MaxItems config\<rparr>,
          locks = []\<rparr>)"

section \<open>Eviction\<close>

type_synonym entry_order = "(string \<times> cache_entry) list \<Rightarrow> (string \<times> cache_entry) list"

text \<open>The scan of \<open>evictLRU\<close>; the empty string doubles as "no key yet".\<close>

fun lru_scan :: "(string \<times> cache_entry) list \<Rightarrow> string \<Rightarrow> time \<Rightarrow> string" where
  "lru_scan [] oldestKey oldestTime = oldestKey"
| "lru_scan ((key, entry) # ps) oldestKey oldestTime =
     (if oldestKey = [] \<or> AccessedAt entry < oldestTime
      then lru_scan ps key (AccessedAt entry)
      else lru_scan ps oldestKey oldestTime)"

definition evictLRU :: "entry_order \<Rightarrow> memory_cache \<Rightarrow> memory_cache" where
  "evictLRU sh c =
     (let oldestKey = lru_scan (sh (entries c)) [] 0
      in if oldestKey \<noteq> []
         then case map_of (entries c) oldestKey of
                Some e \<Rightarrow>
                  c\<lparr>currentSize := i64 (currentSize c - ESize e),
                    stats := (stats c)\<lparr>ItemCount := i64 (ItemCount (stats c) - 1),
                                       Evictions := i64 (Evictions (stats c) + 1)\<rparr>,
                    entries := mdel oldestKey (entries c)\<rparr>
              | None \<Rightarrow> c
         else c)"

definition needs_evict :: "memory_cache \<Rightarrow> bool" where
  "needs_evict c \<longleftrightarrow> (maxSize c > 0 \<and> currentSize c > maxSize c) \<or>
     (maxItems c > 0 \<and> ItemCount (stats c) > maxItems c)"

partial_function (option) evictIfNeeded :: "(nat \<Rightarrow> entry_order) \<Rightarrow> nat \<Rightarrow> memory_cache \<Rightarrow> memory_cache option" where
  "evictIfNeeded sh n c =
     (if needs_evict c then evictIfNeeded sh (Suc n) (evictLRU (sh n) c) else Some c)"

section \<open>Methods\<close>

definition mc_Delete :: "string \<Rightarrow> memory_cache \<Rightarrow> go_error option \<times> memory_cache" where
  "mc_Delete key c =
     (let c = (case map_of (entries c) key of
                 Some e \<Rightarrow> c\<lparr>currentSize := i64 (currentSize c - ESize e),
                              stats := (stats c)\<lparr>ItemCount := i64 (ItemCount (stats c) - 1)\<rparr>,
                              entries := mdel key (entries c)\<rparr>
               | None \<Rightarrow> c)
      in (None, c\<lparr>stats := (stats c)\<lparr>SSize := currentSize c\<rparr>\<rparr>))"

definition miss :: "memory_cache \<Rightarrow> memory_cache" where
  "miss c = c\<lparr>stats := (stats c)\<lparr>Misses := i64 (Misses (stats c) + 1)\<rparr>\<rparr>"

text \<open>\<open>t1\<close> is the instant of the expiry test, \<open>t2\<close> that of the access mark.\<close>

definition mc_Get :: "time \<Rightarrow> time \<Rightarrow> string \<Rightarrow> memory_cache \<Rightarrow> (go_error + bytes) \<times> memory_cache" where
  "mc_Get t1 t2 key c =
     (case map_of (entries c) key of
        None \<Rightarrow> (Inl (New CacheError ''key not found''), miss c)
      | Some entry \<Rightarrow>
          if IsExpired t1 entry
          then (Inl (New CacheError ''key expired''), miss (snd (mc_Delete key c)))
          else (Inr (EValue entry),
                c\<lparr>entries := mput key (entry\<lparr>AccessedAt := t2\<rparr>) (entries c),
                  stats := (stats c)\<lparr>Hits := i64 (Hits (stats c) + 1)\<rparr>\<rparr>))"

definition getKeyLock :: "string \<Rightarrow> memory_cache \<Rightarrow> memory_cache" where
  "getKeyLock key c =
     (case map_of (locks c) key of
        Some l \<Rightarrow> c
      | None \<Rightarrow> c\<lparr>locks := mput key (length (locks c)) (locks c)\<rparr>)"

definition new_entry :: "time \<Rightarrow> bytes \<Rightarrow> duration \<Rightarrow> cache_entry" where
  "new_entry now value ttl =
     \<lparr>EValue = value, ExpiresAt = (if ttl > 0 then time_add now ttl else 0),
      AccessedAt = now, CreatedAt = now, ESize = int (length value)\<rparr>"

definition store_entry :: "string \<Rightarrow> cache_entry \<Rightarrow> memory_cache \<Rightarrow> memory_cache" where
  "store_entry key entry c =
     (let c = (case map_of (entries c) key of
                 Some existing \<Rightarrow> c\<lparr>currentSize := i64 (currentSize c - ESize existing)\<rparr>
               | None \<Rightarrow> c\<lparr>stats := (stats c)\<lparr>ItemCount := i64 (ItemCount (stats c) + 1)\<rparr>\<rparr>)
      in c\<lparr>currentSize := i64 (currentSize c + ESize entry), entries := mput key entry (entries c)\<rparr>)"

definition mc_Set :: "(nat \<Rightarrow> entry_order) \<Rightarrow> time \<Rightarrow> string \<Rightarrow> bytes \<Rightarrow> duration \<Rightarrow> memory_cache \<Rightarrow>
    (go_error option \<times> memory_cache) option" where
  "mc_Set sh now key value ttl c =
     (let c = getKeyLock key c;
          entry = new_entry now value ttl
      in case evictIfNeeded sh 0 (store_entry key entry c) of
           None \<Rightarrow> None
         | Some c \<Rightarrow> Some (None, c\<lparr>stats := (stats c)\<lparr>SSize := currentSize c\<rparr>\<rparr>))"

definition mc_Clear :: "memory_cache \<Rightarrow> go_error option \<times> memory_cache" where
  "mc_Clear c = (None, c\<lparr>entries := [], currentSize := 0,
     stats := (stats c)\<lparr>ItemCount := 0, SSize := 0\<rparr>\<rparr>)"

definition mc_Stats :: "memory_cache \<Rightarrow> cache_stats" where
  "mc_Stats c = stats c"

section \<open>Accounting\<close>

definition total_size :: "memory_cache \<Rightarrow> int" where
  "total_size c = sum_list (map (ESize \<circ> snd) (entries c))"

text \<open>
  The counters agree with the entries, up to the 64-bit wrap; this is what every critical
  section keeps.
\<close>

definition acc_inv :: "memory_cache \<Rightarrow> bool" where
  "acc_inv c \<longleftrightarrow> mwf (entries c) \<and> currentSize c = i64 (total_size c) \<and>
     ItemCount (stats c) = i64 (int (length (entries c))) \<and>
     (\<forall>(k, e) \<in> set (entries c). ESize e = int (length (EValue e)))"

text \<open>Between calls the published size agrees too.\<close>

definition cache_inv :: "memory_cache \<Rightarrow> bool" where
  "cache_inv c \<longleftrightarrow> acc_inv c \<and> SSize (stats c) = currentSize c"

definition no_empty_key :: "memory_cache \<Rightarrow> bool" where
  "no_empty_key c \<longleftrightarrow> map_of (entries c) [] = None"

definition fair_order :: "(nat \<Rightarrow> entry_order) \<Rightarrow> bool" where
  "fair_order sh \<longleftrightarrow> (\<forall>n. is_shuffle (sh n))"

lemma mdel_subset: "set (mdel k m) \<subseteq> set m"
  by (auto simp: mdel_def)

lemma mput_set: "(k', v') \<in> set (mput k v m) \<Longrightarrow> (k', v') = (k, v) \<or> (k', v') \<in> set m"
  by (induction m) (auto simp: mput_def split: if_splits)

lemma acc_inv_delete:
  assumes "acc_inv c" "map_of (entries c) k = Some e"
    "entries c' = mdel k (entries c)" "currentSize c' = i64 (currentSize c - ESize e)"
    "ItemCount (stats c') = i64 (ItemCount (stats c) - 1)"
  shows "acc_inv c'"
proof -
  have wf: "mwf (entries c)" using assms(1) by (simp add: acc_inv_def)
  have "total_size c' = total_size c - ESize e"
    unfolding total_size_def assms(3) by (rule sum_mdel [OF wf assms(2)])
  moreover have "int (length (entries c')) = int (length (entries c)) - 1"
    using length_mdel [OF wf assms(2)] unfolding assms(3) by linarith
  ultimately show ?thesis
    using assms mdel_subset [of k "entries c"]
    by (auto simp: acc_inv_def go_map_simps i64_simps)
qed

lemma acc_inv_store:
  assumes "acc_inv c" "ESize e = int (length (EValue e))"
  shows "acc_inv (store_entry k e c)"
proof -
  have wf: "mwf (entries c)" using assms(1) by (simp add: acc_inv_def)
  have ents: "entries (store_entry k e c) = mput k e (entries c)"
    by (simp add: store_entry_def Let_def split: option.splits)
  have sizes: "\<forall>(k', e') \<in> set (mput k e (entries c)). ESize e' = int (length (EValue e'))"
    using assms by (auto simp: acc_inv_def dest: mput_set)
  have sum: "total_size (store_entry k e c) = total_size c + ESize e
       - (case map_of (entries c) k of None \<Rightarrow> 0 | Some w \<Rightarrow> ESize w)"
    unfolding total_size_def ents by (rule sum_mput [OF wf])
  have len: "length (entries (store_entry k e c)) =
       (case map_of (entries c) k of None \<Rightarrow> Suc (length (entries c)) | Some _ \<Rightarrow> length (entries c))"
    unfolding ents by (rule length_mput)
  have cur: "currentSize (store_entry k e c) = i64 (total_size (store_entry k e c))"
    unfolding sum using assms(1)
    by (auto simp: acc_inv_def store_entry_def i64_simps algebra_simps split: option.splits)
  have items: "ItemCount (stats (store_entry k e c)) = i64 (int (length (entries (store_entry k e c))))"
    unfolding len using assms(1)
    by (auto simp: acc_inv_def store_entry_def i64_simps algebra_simps split: option.splits)
  show ?thesis
    using cur items sizes wf by (simp add: acc_inv_def ents mwf_mput)
qed

lemma acc_inv_clear: "acc_inv (snd (mc_Clear c))"
  by (simp add: acc_inv_def mc_Clear_def total_size_def mwf_empty)

section \<open>What eviction does\<close>

lemma lru_scan_spec:
  assumes "k0 \<noteq> []" "\<forall>p \<in> set ps. fst p \<noteq> []"
  shows "\<exists>t \<le> t0. (lru_scan ps k0 t0, t) \<in> set ((k0, t0) # map (\<lambda>p. (fst p, AccessedAt (snd p))) ps) \<and>
     (\<forall>p \<in> set ps. t \<le> AccessedAt (snd p))"
  using assms
proof (induction ps arbitrary: k0 t0)
  case (Cons p ps)
  obtain k e where p: "p = (k, e)" by (cases p)
  from Cons.prems p have nonempty: "k \<noteq> []" "k0 \<noteq> []" "\<forall>p \<in> set ps. fst p \<noteq> []" by auto
  show ?case
  proof (cases "AccessedAt e < t0")
    case True
    with p nonempty have step: "lru_scan (p # ps) k0 t0 = lru_scan ps k (AccessedAt e)" by simp
    from Cons.IH [OF nonempty(1,3), of "AccessedAt e"] obtain t where
      "t \<le> AccessedAt e"
      "(lru_scan ps k (AccessedAt e), t) \<in> set ((k, AccessedAt e) # map (\<lambda>p. (fst p, AccessedAt (snd p))) ps)"
      "\<forall>p \<in> set ps. t \<le> AccessedAt (snd p)" by blast
    with True show ?thesis unfolding step by (intro exI [of _ t]) (auto simp: p)
  next
    case False
    with p nonempty have step: "lru_scan (p # ps) k0 t0 = lru_scan ps k0 t0" by simp
    from Cons.IH [OF nonempty(2,3), of t0] obtain t where
      "t \<le> t0"
      "(lru_scan ps k0 t0, t) \<in> set ((k0, t0) # map (\<lambda>p. (fst p, AccessedAt (snd p))) ps)"
      "\<forall>p \<in> set ps. t \<le> AccessedAt (snd p)" by blast
    with False show ?thesis unfolding step by (intro exI [of _ t]) (auto simp: p)
  qed
qed simp

lemma lru_scan_oldest:
  assumes "ps \<noteq> []" "\<forall>p \<in> set ps. fst p \<noteq> []"
  shows "\<exists>e. (lru_scan ps [] t0, e) \<in> set ps \<and> (\<forall>p \<in> set ps. AccessedAt e \<le> AccessedAt (snd p))"
proof -
  obtain k e qs where ps: "ps = (k, e) # qs" using assms(1) by (cases ps) auto
  have "k \<noteq> []" "\<forall>p \<in> set qs. fst p \<noteq> []" using assms(2) ps by auto
  from lru_scan_spec [OF this, of "AccessedAt e"] obtain t where
    t: "(lru_scan qs k (AccessedAt e), t) \<in> set (map (\<lambda>p. (fst p, AccessedAt (snd p))) ps)"
      "\<forall>p \<in> set ps. t \<le> AccessedAt (snd p)"
    by (auto simp: ps)
  moreover have "lru_scan ps [] t0 = lru_scan qs k (AccessedAt e)" by (simp add: ps)
  ultimately show ?thesis by force
qed

lemma evictLRU_oldest:
  assumes "acc_inv c" "no_empty_key c" "is_shuffle sh" "entries c \<noteq> []"
  obtains k e where "k \<noteq> []" "map_of (entries c) k = Some e"
    "\<forall>p \<in> set (entries c). AccessedAt e \<le> AccessedAt (snd p)"
    "evictLRU sh c = c\<lparr>currentSize := i64 (currentSize c - ESize e),
       stats := (stats c)\<lparr>ItemCount := i64 (ItemCount (stats c) - 1),
                          Evictions := i64 (Evictions (stats c) + 1)\<rparr>,
       entries := mdel k (entries c)\<rparr>"
proof -
  have set: "set (sh (entries c)) = set (entries c)" by (rule shuffle_set [OF assms(3)])
  have ne: "\<forall>p \<in> set (entries c). fst p \<noteq> []"
    using assms(2) by (auto simp: no_empty_key_def map_of_eq_None_iff image_iff)
  have "sh (entries c) \<noteq> []" using set assms(4) by (metis set_empty)
  from lru_scan_oldest [OF this, of 0] ne obtain e where
    e: "(lru_scan (sh (entries c)) [] 0, e) \<in> set (entries c)"
      "\<forall>p \<in> set (entries c). AccessedAt e \<le> AccessedAt (snd p)"
    by (auto simp: set)
  let ?k = "lru_scan (sh (entries c)) [] 0"
  have "map_of (entries c) ?k = Some e"
    using e(1) assms(1) by (simp add: acc_inv_def mwf_lookup)
  moreover have "?k \<noteq> []" using e(1) ne by auto
  ultimately show ?thesis using e(2) by (intro that [of ?k e]) (auto simp: evictLRU_def Let_def)
qed

lemma needs_evict_nonempty: "acc_inv c \<Longrightarrow> needs_evict c \<Longrightarrow> entries c \<noteq> []"
  by (auto simp: acc_inv_def needs_evict_def total_size_def)

text \<open>
  The relation between the cache before and after the eviction loop: limits and locks stay,
  what is left are some of the entries, every entry that is gone was accessed no later than
  any that is left.
\<close>

definition evicted :: "memory_cache \<Rightarrow> memory_cache \<Rightarrow> bool" where
  "evicted c d \<longleftrightarrow> maxSize d = maxSize c \<and> maxItems d = maxItems c \<and> locks d = locks c \<and>
     Hits (stats d) = Hits (stats c) \<and> Misses (stats d) = Misses (stats c) \<and>
     set (entries d) \<subseteq> set (entries c) \<and>
     total_size d \<le> total_size c \<and> length (entries d) \<le> length (entries c) \<and>
     (\<forall>p \<in> set (entries c) - set (entries d). \<forall>q \<in> set (entries d).
        AccessedAt (snd p) \<le> AccessedAt (snd q))"

lemma evicted_refl: "evicted c c"
  by (simp add: evicted_def)

lemma evict_loop:
  assumes "acc_inv c" "no_empty_key c" "fair_order sh"
  shows "\<exists>d. evictIfNeeded sh n c = Some d \<and> acc_inv d \<and> \<not> needs_evict d \<and> evicted c d"
  using assms(1,2)
proof (induction "length (entries c)" arbitrary: c n rule: less_induct)
  case less
  show ?case
  proof (cases "needs_evict c")
    case False
    with less.prems show ?thesis by (simp add: evictIfNeeded.simps evicted_refl)
  next
    case True
    have "is_shuffle (sh n)" using assms(3) by (simp add: fair_order_def)
    from evictLRU_oldest [OF less.prems this needs_evict_nonempty [OF less.prems(1) True]]
    obtain k e where ke: "k \<noteq> []" "map_of (entries c) k = Some e"
      "\<forall>p \<in> set (entries c). AccessedAt e \<le> AccessedAt (snd p)"
      and c': "evictLRU (sh n) c = c\<lparr>currentSize := i64 (currentSize c - ESize e),
         stats := (stats c)\<lparr>ItemCount := i64 (ItemCount (stats c) - 1),
                            Evictions := i64 (Evictions (stats c) + 1)\<rparr>,
         entries := mdel k (entries c)\<rparr>" (is "_ = ?c") by blast
    have wf: "mwf (entries c)" using less.prems(1) by (simp add: acc_inv_def)
    have inv: "acc_inv ?c" by (rule acc_inv_delete [OF less.prems(1) ke(2)]) simp_all
    have ne: "no_empty_key ?c" using less.prems(2) ke(1) by (simp add: no_empty_key_def mdel_lookup)
    have lt: "length (entries ?c) < length (entries c)"
      using length_mdel [OF wf ke(2)] by simp
    from less.hyps [OF lt inv ne, of "Suc n"] obtain d where
      d: "evictIfNeeded sh (Suc n) ?c = Some d" "acc_inv d" "\<not> needs_evict d" "evicted ?c d" by blast
    have gone: "p \<in> set (mdel k (entries c)) \<or> snd p = e" if "p \<in> set (entries c)" for p
      using that mwf_lookup [OF wf, of "fst p" "snd p"] ke(2) by (auto simp: mdel_def)
    have "set (entries d) \<subseteq> set (entries c)"
      using d(4) mdel_subset [of k "entries c"] by (auto simp: evicted_def)
    moreover have "AccessedAt (snd p) \<le> AccessedAt (snd q)"
      if "p \<in> set (entries c)" "p \<notin> set (entries d)" "q \<in> set (entries d)" for p q
      using gone [OF that(1)] d(4) ke(3) that calculation by (auto simp: evicted_def)
    moreover have "total_size ?c \<le> total_size c"
      using sum_mdel [OF wf ke(2), of ESize] less.prems(1) mwf_lookup [OF wf, of k e] ke(2)
      by (auto simp: total_size_def acc_inv_def)
    ultimately have "evicted c d"
      using d(4) lt by (auto simp: evicted_def)
    with d True c' show ?thesis by (simp add: evictIfNeeded.simps)
  qed
qed


text \<open>An entry accessed strictly after all others survives eviction if it fits by itself.\<close>

definition fits :: "memory_cache \<Rightarrow> cache_entry \<Rightarrow> bool" where
  "fits c e \<longleftrightarrow> in_i64 (ESize e) \<and> (maxSize c > 0 \<longrightarrow> ESize e \<le> maxSize c)"

lemma only_entry_fits:
  assumes "acc_inv c" "map_of (entries c) k = Some e" "\<forall>p \<in> set (entries c). fst p = k" "fits c e"
  shows "\<not> needs_evict c"
proof -
  have "mwf (entries c)" using assms(1) by (simp add: acc_inv_def)
  with assms(2,3) have "entries c = [(k, e)]"
    by (cases "entries c"; cases "tl (entries c)") (auto simp: mwf_def)
  with assms(1,4) show ?thesis
    by (auto simp: acc_inv_def needs_evict_def total_size_def fits_def i64_simps in_i64_def)
qed

lemma evict_keeps_newest:
  assumes "acc_inv c" "no_empty_key c" "fair_order sh" "evictIfNeeded sh n c = Some d"
    "map_of (entries c) k = Some e" "fits c e"
    "\<forall>p \<in> set (entries c). fst p \<noteq> k \<longrightarrow> AccessedAt (snd p) < AccessedAt e"
  shows "map_of (entries d) k = Some e"
  using assms(1,2,4-)
proof (induction "length (entries c)" arbitrary: c n rule: less_induct)
  case less
  show ?case
  proof (cases "needs_evict c")
    case False
    with less.prems(3,4) show ?thesis by (simp add: evictIfNeeded.simps)
  next
    case True
    have wf: "mwf (entries c)" using less.prems(1) by (simp add: acc_inv_def)
    have "is_shuffle (sh n)" using assms(3) by (simp add: fair_order_def)
    from evictLRU_oldest [OF less.prems(1,2) this needs_evict_nonempty [OF less.prems(1) True]]
    obtain k' e' where ke: "k' \<noteq> []" "map_of (entries c) k' = Some e'"
      "\<forall>p \<in> set (entries c). AccessedAt e' \<le> AccessedAt (snd p)"
      and c': "evictLRU (sh n) c = c\<lparr>currentSize := i64 (currentSize c - ESize e'),
         stats := (stats c)\<lparr>ItemCount := i64 (ItemCount (stats c) - 1),
                            Evictions := i64 (Evictions (stats c) + 1)\<rparr>,
         entries := mdel k' (entries c)\<rparr>" (is "_ = ?c") by blast
    obtain p where p: "p \<in> set (entries c)" "fst p \<noteq> k"
      using only_entry_fits [OF less.prems(1,4) _ less.prems(5)] True by blast
    with less.prems(6) ke(3) have "AccessedAt e' < AccessedAt e" by fastforce
    with ke(2) less.prems(4) have other: "k' \<noteq> k" by auto
    show ?thesis
    proof (rule less.hyps [of ?c "Suc n"])
      show "length (entries ?c) < length (entries c)" using length_mdel [OF wf ke(2)] by simp
      show "acc_inv ?c" by (rule acc_inv_delete [OF less.prems(1) ke(2)]) simp_all
      show "no_empty_key ?c" using less.prems(2) by (simp add: no_empty_key_def mdel_lookup)
      show "evictIfNeeded sh (Suc n) ?c = Some d"
        using less.prems(3) True c' by (simp add: evictIfNeeded.simps [of sh n c])
      show "map_of (entries ?c) k = Some e" using less.prems(4) other by (simp add: mdel_lookup)
      show "fits ?c e" using less.prems(5) by (simp add: fits_def)
      show "\<forall>p \<in> set (entries ?c). fst p \<noteq> k \<longrightarrow> AccessedAt (snd p) < AccessedAt e"
        using less.prems(6) mdel_subset [of k' "entries c"] by auto
    qed
  qed
qed

lemma store_entry_frame [simp]:
  "entries (store_entry k e c) = mput k e (entries c)"
  "maxSize (store_entry k e c) = maxSize c" "maxItems (store_entry k e c) = maxItems c"
  by (simp_all add: store_entry_def Let_def split: option.splits)

lemma getKeyLock_frame [simp]:
  "entries (getKeyLock k c) = entries c" "maxSize (getKeyLock k c) = maxSize c"
  "maxItems (getKeyLock k c) = maxItems c" "stats (getKeyLock k c) = stats c"
  "currentSize (getKeyLock k c) = currentSize c" "total_size (getKeyLock k c) = total_size c"
  "acc_inv (getKeyLock k c) = acc_inv c" "no_empty_key (getKeyLock k c) = no_empty_key c"
  by (simp_all add: getKeyLock_def acc_inv_def total_size_def no_empty_key_def split: option.splits)

lemma new_entry_frame [simp]:
  "ESize (new_entry now v ttl) = int (length v)" "EValue (new_entry now v ttl) = v"
  "AccessedAt (new_entry now v ttl) = now"
  by (simp_all add: new_entry_def)

text \<open>One \<open>Set\<close>: it returns, and what it leaves.\<close>

lemma mc_Set_effect:
  assumes "acc_inv c" "no_empty_key c" "fair_order sh" "key \<noteq> []"
  obtains d where "mc_Set sh now key v ttl c = Some (None, d)" "cache_inv d" "no_empty_key d"
    "\<not> needs_evict d" "evicted (store_entry key (new_entry now v ttl) (getKeyLock key c)) d"
    "\<exists>d'. evictIfNeeded sh 0 (store_entry key (new_entry now v ttl) (getKeyLock key c)) = Some d' \<and>
       entries d = entries d'"
proof -
  let ?s = "store_entry key (new_entry now v ttl) (getKeyLock key c)"
  have inv: "acc_inv ?s" using assms(1) by (intro acc_inv_store) simp_all
  have ne: "no_empty_key ?s" using assms(2,4) by (simp add: no_empty_key_def mput_lookup)
  from evict_loop [OF inv ne assms(3), of 0] obtain d where
    d: "evictIfNeeded sh 0 ?s = Some d" "acc_inv d" "\<not> needs_evict d" "evicted ?s d" by blast
  let ?d = "d\<lparr>stats := (stats d)\<lparr>SSize := currentSize d\<rparr>\<rparr>"
  have "no_empty_key d"
    using ne inv d(2,4) by (auto simp: no_empty_key_def evicted_def acc_inv_def map_of_eq_None_iff)
  with d show ?thesis
    by (intro that [of ?d])
      (simp_all add: mc_Set_def Let_def cache_inv_def acc_inv_def total_size_def no_empty_key_def
        needs_evict_def evicted_def)
qed


lemma mc_Set_keeps:
  assumes "acc_inv c" "no_empty_key c" "fair_order sh" "key \<noteq> []"
    and "int (length v) < 2 ^ 63" "maxSize c > 0 \<longrightarrow> int (length v) \<le> maxSize c"
    and "\<forall>k e. map_of (entries c) k = Some e \<longrightarrow> AccessedAt e < now"
    and "mc_Set sh now key v ttl c = Some (err, d)"
  shows "map_of (entries d) key = Some (new_entry now v ttl)"
proof -
  let ?s = "store_entry key (new_entry now v ttl) (getKeyLock key c)"
  have wf: "mwf (entries c)" using assms(1) by (auto simp: acc_inv_def)
  obtain d' where d': "evictIfNeeded sh 0 ?s = Some d'" "entries d = entries d'"
    using assms(8) by (auto simp: mc_Set_def Let_def split: option.splits)
  have "map_of (entries d') key = Some (new_entry now v ttl)"
  proof (rule evict_keeps_newest [OF _ _ assms(3) d'(1)])
    show "acc_inv ?s" using assms(1) by (intro acc_inv_store) simp_all
    show "no_empty_key ?s" using assms(2,4) by (simp add: no_empty_key_def mput_lookup)
    show "fits ?s (new_entry now v ttl)" using assms(5,6) by (simp add: fits_def in_i64_def)
    show "\<forall>p \<in> set (entries ?s). fst p \<noteq> key \<longrightarrow> AccessedAt (snd p) < AccessedAt (new_entry now v ttl)"
      using assms(7) by (auto dest!: mput_set simp: mwf_lookup [OF wf])
  qed (simp add: mput_lookup)
  with d' show ?thesis by simp
qed

lemma mc_Get_new_entry:
  assumes "map_of (entries d) key = Some (new_entry now v ttl)" "ttl > 0 \<longrightarrow> t1 \<le> now + ttl"
  shows "fst (mc_Get t1 t2 key d) = Inr v"
  using assms by (cases "0 < ttl") (auto simp: mc_Get_def IsExpired_def new_entry_def time_add_def is_zero_time_def)

section \<open>Sequences of calls\<close>

datatype cache_call =
    CGet time time string
  | CSet "nat \<Rightarrow> entry_order" time string bytes duration
  | CDelete string
  | CClear

fun cache_step :: "cache_call \<Rightarrow> memory_cache \<Rightarrow> memory_cache option" where
  "cache_step (CGet t1 t2 key) c = Some (snd (mc_Get t1 t2 key c))"
| "cache_step (CSet sh now key value ttl) c = map_option snd (mc_Set sh now key value ttl c)"
| "cache_step (CDelete key) c = Some (snd (mc_Delete key c))"
| "cache_step CClear c = Some (snd (mc_Clear c))"

fun cache_run :: "cache_call list \<Rightarrow> memory_cache \<Rightarrow> memory_cache option" where
  "cache_run [] c = Some c"
| "cache_run (x # xs) c = Option.bind (cache_step x c) (cache_run xs)"

text \<open>
  The calls for which every method returns: no entry is stored under the empty key, and the
  sizes stay within 64 bits.
\<close>

fun good_call :: "cache_config \<Rightarrow> cache_call \<Rightarrow> bool" where
  "good_call cfg (CSet sh now key value ttl) \<longleftrightarrow>
     key \<noteq> [] \<and> fair_order sh \<and> max 0 (cfg_MaxSize cfg) + int (length value) < 2 ^ 63"
| "good_call cfg _ \<longleftrightarrow> True"

definition within_limits :: "memory_cache \<Rightarrow> bool" where
  "within_limits c \<longleftrightarrow> (maxSize c > 0 \<longrightarrow> total_size c \<le> maxSize c) \<and>
     (maxItems c > 0 \<longrightarrow> int (length (entries c)) \<le> maxItems c)"

definition healthy :: "cache_config \<Rightarrow> memory_cache \<Rightarrow> bool" where
  "healthy cfg c \<longleftrightarrow> cache_inv c \<and> no_empty_key c \<and> within_limits c \<and>
     maxSize c = cfg_MaxSize cfg \<and> maxItems c = cfg_MaxItems cfg"

lemma acc_inv_size: "acc_inv c \<Longrightarrow> map_of (entries c) k = Some e \<Longrightarrow> ESize e = int (length (EValue e))"
  by (auto simp: acc_inv_def mwf_lookup [symmetric])

lemma total_size_nonneg: "acc_inv c \<Longrightarrow> 0 \<le> total_size c"
  unfolding acc_inv_def total_size_def by (intro sum_list_nonneg) auto

lemma healthy_new: "healthy cfg (NewMemoryCache (Some cfg))"
  by (simp add: healthy_def NewMemoryCache_def cache_inv_def acc_inv_def total_size_def mwf_empty
      no_empty_key_def within_limits_def zero_stats_def)

lemma healthy_delete:
  assumes "healthy cfg c"
  shows "healthy cfg (snd (mc_Delete key c))"
proof (cases "map_of (entries c) key")
  case None
  with assms show ?thesis
    by (auto simp: mc_Delete_def healthy_def cache_inv_def acc_inv_def total_size_def no_empty_key_def
        within_limits_def)
next
  case (Some e)
  have inv: "acc_inv c" "mwf (entries c)" using assms by (auto simp: healthy_def cache_inv_def acc_inv_def)
  have size: "0 \<le> ESize e" using acc_inv_size [OF inv(1) Some] by simp
  have "acc_inv (snd (mc_Delete key c))"
    by (rule acc_inv_delete [OF inv(1) Some]) (simp_all add: mc_Delete_def Some)
  moreover have "total_size (snd (mc_Delete key c)) = total_size c - ESize e"
    using sum_mdel [OF inv(2) Some, of ESize] by (simp add: mc_Delete_def Some total_size_def)
  moreover have "length (entries (snd (mc_Delete key c))) \<le> length (entries c)"
    using length_mdel [OF inv(2) Some] by (simp add: mc_Delete_def Some)
  ultimately show ?thesis
    using assms size
    by (auto simp: mc_Delete_def Some healthy_def cache_inv_def no_empty_key_def within_limits_def mdel_lookup)
qed

lemma touch_size:
  assumes "mwf (entries c)" "map_of (entries c) key = Some e"
  shows "sum_list (map (ESize \<circ> snd) (mput key (e\<lparr>AccessedAt := t\<rparr>) (entries c))) = total_size c"
  using sum_mput [OF assms(1), of ESize key] assms(2) by (simp add: total_size_def)

lemma acc_inv_touch:
  assumes "acc_inv c" "map_of (entries c) key = Some e"
  shows "acc_inv (c\<lparr>entries := mput key (e\<lparr>AccessedAt := t\<rparr>) (entries c), stats := (stats c)\<lparr>Hits := h\<rparr>\<rparr>)"
proof -
  have wf: "mwf (entries c)" using assms(1) by (simp add: acc_inv_def)
  have "\<forall>(k', e') \<in> set (mput key (e\<lparr>AccessedAt := t\<rparr>) (entries c)). ESize e' = int (length (EValue e'))"
    using assms acc_inv_size [OF assms] by (auto simp: acc_inv_def dest!: mput_set)
  with touch_size [OF wf assms(2), of t] assms wf show ?thesis
    by (auto simp: acc_inv_def total_size_def mwf_mput length_mput)
qed

lemma healthy_touch:
  assumes "healthy cfg c" "map_of (entries c) key = Some e"
  shows "healthy cfg (c\<lparr>entries := mput key (e\<lparr>AccessedAt := t\<rparr>) (entries c), stats := (stats c)\<lparr>Hits := h\<rparr>\<rparr>)"
proof -
  have inv: "acc_inv c" "mwf (entries c)" using assms by (auto simp: healthy_def cache_inv_def acc_inv_def)
  from acc_inv_touch [OF inv(1) assms(2), where t = t and h = h] touch_size [OF inv(2) assms(2), where t = t] assms
  show ?thesis
    by (auto simp: healthy_def cache_inv_def total_size_def no_empty_key_def within_limits_def
        mput_lookup length_mput)
qed

lemma healthy_get:
  assumes "healthy cfg c"
  shows "healthy cfg (snd (mc_Get t1 t2 key c))"
proof -
  have "healthy cfg (miss c)" if "healthy cfg c" for c
    using that by (auto simp: miss_def healthy_def cache_inv_def acc_inv_def total_size_def no_empty_key_def
        within_limits_def)
  with assms show ?thesis
    using healthy_delete healthy_touch by (simp add: mc_Get_def split: option.splits)
qed

lemma healthy_set:
  assumes "healthy cfg c" "good_call cfg (CSet sh now key v ttl)" "cfg_MaxItems cfg < 2 ^ 63 - 1"
  shows "\<exists>d. mc_Set sh now key v ttl c = Some (None, d) \<and> healthy cfg d"
proof -
  let ?s = "store_entry key (new_entry now v ttl) (getKeyLock key c)"
  have inv: "acc_inv c" "no_empty_key c" "mwf (entries c)"
    using assms(1) by (auto simp: healthy_def cache_inv_def acc_inv_def)
  have good: "fair_order sh" "key \<noteq> []" "max 0 (cfg_MaxSize cfg) + int (length v) < 2 ^ 63"
    using assms(2) by simp_all
  obtain d where d: "mc_Set sh now key v ttl c = Some (None, d)" "cache_inv d" "no_empty_key d"
    "\<not> needs_evict d" "evicted ?s d"
    by (rule mc_Set_effect [OF inv(1,2) good(1,2)])
  have "total_size ?s \<le> total_size c + int (length v)"
  proof -
    have "0 \<le> (case map_of (entries c) key of None \<Rightarrow> 0 | Some w \<Rightarrow> ESize w)"
      by (auto dest: acc_inv_size [OF inv(1)] split: option.splits)
    then show ?thesis
      using sum_mput [OF inv(3), of ESize key "new_entry now v ttl"] by (simp add: total_size_def)
  qed
  moreover have "length (entries ?s) \<le> Suc (length (entries c))"
    by (simp add: length_mput split: option.splits)
  ultimately have "within_limits d"
    using d assms(1,3) good(3) total_size_nonneg [of d]
    by (auto simp: within_limits_def healthy_def cache_inv_def needs_evict_def evicted_def acc_inv_def
        i64_simps in_i64_def)
  with d assms(1) show ?thesis by (auto simp: healthy_def evicted_def)
qed

lemma healthy_clear: "healthy cfg c \<Longrightarrow> healthy cfg (snd (mc_Clear c))"
  by (simp add: mc_Clear_def healthy_def cache_inv_def acc_inv_def total_size_def mwf_empty no_empty_key_def
      within_limits_def)

lemma healthy_call:
  assumes "healthy cfg c" "good_call cfg x" "cfg_MaxItems cfg < 2 ^ 63 - 1"
  shows "\<exists>d. cache_step x c = Some d \<and> healthy cfg d"
proof (cases x)
  case (CSet sh now key v ttl)
  with healthy_set [OF assms(1) _ assms(3), of sh now key v ttl] assms(2) show ?thesis by auto
qed (simp_all add: healthy_get healthy_delete healthy_clear assms)

lemma healthy_run:
  assumes "healthy cfg c" "\<forall>x \<in> set xs. good_call cfg x" "cfg_MaxItems cfg < 2 ^ 63 - 1"
  shows "\<exists>d. cache_run xs c = Some d \<and> healthy cfg d"
  using assms(1,2)
proof (induction xs arbitrary: c)
  case (Cons x xs)
  from healthy_call [OF Cons.prems(1) _ assms(3), of x] Cons.prems(2)
  obtain d where "cache_step x c = Some d" "healthy cfg d" by auto
  with Cons.IH [of d] Cons.prems(2) show ?case by simp
qed simp


text \<open>
  The contract of a cache: what the history of calls promises under a key is the value and
  the expiry of its last \<open>Set\<close> that no \<open>Delete\<close> or \<open>Clear\<close> followed.  An evicting cache may
  forget a promise but holds nothing else.
\<close>

type_synonym promises = "string \<rightharpoonup> bytes \<times> time"

fun promise_step :: "cache_call \<Rightarrow> promises \<Rightarrow> promises" where
  "promise_step (CSet sh now key value ttl) m = m(key \<mapsto> (value, if ttl > 0 then time_add now ttl else 0))"
| "promise_step (CDelete key) m = m(key := None)"
| "promise_step CClear m = Map.empty"
| "promise_step (CGet t1 t2 key) m = m"

definition promised :: "cache_call list \<Rightarrow> promises" where
  "promised xs = fold promise_step xs Map.empty"

definition held :: "memory_cache \<Rightarrow> promises" where
  "held c key = map_option (\<lambda>e. (EValue e, ExpiresAt e)) (map_of (entries c) key)"

lemma evicted_lookup:
  assumes "evicted c d" "mwf (entries c)" "map_of (entries d) k = Some e"
  shows "map_of (entries c) k = Some e"
  using assms(1) map_of_SomeD [OF assms(3)] by (auto simp: evicted_def mwf_lookup [OF assms(2), symmetric])

lemma held_set:
  assumes "healthy cfg c" "good_call cfg (CSet sh now key v ttl)" "held c \<subseteq>\<^sub>m m"
    "mc_Set sh now key v ttl c = Some (err, d)"
  shows "held d \<subseteq>\<^sub>m promise_step (CSet sh now key v ttl) m"
proof -
  let ?s = "store_entry key (new_entry now v ttl) (getKeyLock key c)"
  have inv: "acc_inv c" "no_empty_key c" "mwf (entries c)" "fair_order sh" "key \<noteq> []"
    using assms(1,2) by (auto simp: healthy_def cache_inv_def acc_inv_def)
  obtain d' where "mc_Set sh now key v ttl c = Some (None, d')" "evicted ?s d'"
    by (rule mc_Set_effect [OF inv(1,2,4,5)])
  with assms(4) have ev: "evicted ?s d" by simp
  have wf: "mwf (entries ?s)" using inv(3) by (simp add: mwf_mput)
  have "held ?s = (held c)(key \<mapsto> (v, if ttl > 0 then time_add now ttl else 0))"
    by (simp add: held_def mput_lookup new_entry_def fun_eq_iff)
  with assms(3) have "held ?s \<subseteq>\<^sub>m promise_step (CSet sh now key v ttl) m"
    by (simp add: map_le_upd)
  moreover have "held d \<subseteq>\<^sub>m held ?s"
    using evicted_lookup [OF ev wf] by (auto simp: map_le_def held_def)
  ultimately show ?thesis by (metis map_le_trans)
qed

lemma held_delete: "held (snd (mc_Delete key c)) = (held c)(key := None)"
  by (auto simp: mc_Delete_def Let_def held_def mdel_lookup fun_eq_iff split: option.splits)

lemma map_le_update_None: "m \<subseteq>\<^sub>m m' \<Longrightarrow> m(k := None) \<subseteq>\<^sub>m m'"
  by (auto simp: map_le_def)

lemma held_get: "held c \<subseteq>\<^sub>m m \<Longrightarrow> held (snd (mc_Get t1 t2 key c)) \<subseteq>\<^sub>m m"
proof -
  assume le: "held c \<subseteq>\<^sub>m m"
  have "held (miss c) = held c" for c by (simp add: held_def miss_def fun_eq_iff)
  moreover have "held (c\<lparr>entries := mput key (e\<lparr>AccessedAt := t2\<rparr>) (entries c), stats := st\<rparr>) = held c"
    if "map_of (entries c) key = Some e" for e st
    using that by (simp add: held_def mput_lookup fun_eq_iff)
  ultimately show ?thesis
    using le by (auto simp: mc_Get_def held_delete intro: map_le_update_None split: option.splits)
qed

lemma held_step:
  assumes "healthy cfg c" "good_call cfg x" "held c \<subseteq>\<^sub>m m" "cache_step x c = Some d"
  shows "held d \<subseteq>\<^sub>m promise_step x m"
proof (cases x)
  case (CGet t1 t2 key)
  with assms(3,4) show ?thesis by (auto intro: held_get)
next
  case (CSet sh now key v ttl)
  with assms held_set [OF assms(1) _ assms(3), of sh now key v ttl] show ?thesis by auto
next
  case (CDelete key)
  with assms(3,4) show ?thesis by (auto simp: held_delete map_le_def dom_def)
next
  case CClear
  with assms(4) show ?thesis by (auto simp: mc_Clear_def held_def map_le_def)
qed

lemma held_run:
  assumes "healthy cfg c" "\<forall>x \<in> set xs. good_call cfg x" "cfg_MaxItems cfg < 2 ^ 63 - 1"
    "held c \<subseteq>\<^sub>m m" "cache_run xs c = Some d"
  shows "held d \<subseteq>\<^sub>m fold promise_step xs m"
  using assms(1,2,4,5)
proof (induction xs arbitrary: c m)
  case (Cons x xs)
  from healthy_call [OF Cons.prems(1) _ assms(3), of x] Cons.prems(2)
  obtain c' where c': "cache_step x c = Some c'" "healthy cfg c'" by auto
  have "held c' \<subseteq>\<^sub>m promise_step x m"
    using held_step [OF Cons.prems(1) _ Cons.prems(3) c'(1)] Cons.prems(2) by simp
  from Cons.IH [OF c'(2) _ this] Cons.prems(2,4) c'(1) show ?case by simp
qed simp

section \<open>Properties\<close>

text \<open>
  C17: Every sequence of calls that stores nothing under the empty key returns, whatever order
  the eviction loop ranges over the map in; afterwards the published statistics agree
  with the entries and the configured size and item limits hold.
\<close>
theorem cache_stays_within_limits:
  assumes "\<forall>x \<in> set xs. good_call cfg x" "cfg_MaxItems cfg < 2 ^ 63 - 1"
  shows "\<exists>c. cache_run xs (NewMemoryCache (Some cfg)) = Some c \<and> cache_inv c \<and>
     (cfg_MaxSize cfg > 0 \<longrightarrow> total_size c \<le> cfg_MaxSize cfg) \<and>
     (cfg_MaxItems cfg > 0 \<longrightarrow> int (length (entries c)) \<le> cfg_MaxItems cfg)"
proof -
  from healthy_run [OF healthy_new assms] obtain c where
    "cache_run xs (NewMemoryCache (Some cfg)) = Some c" "healthy cfg c" by blast
  then show ?thesis by (auto simp: healthy_def within_limits_def)
qed

theorem cache_stays_within_limits_witness:
  "\<exists>c. cache_run [CSet (\<lambda>_ xs. xs) 5 ''a'' [1, 2] 0, CSet (\<lambda>_. rev) 6 ''b'' [3, 4] 0, CGet 7 8 ''a'']
         (NewMemoryCache (Some \<lparr>cfg_MaxSize = 3, cfg_MaxItems = 9\<rparr>)) = Some c \<and> cache_inv c \<and> total_size c \<le> 3"
  using cache_stays_within_limits
    [of "[CSet (\<lambda>_ xs. xs) 5 ''a'' [1, 2] 0, CSet (\<lambda>_. rev) 6 ''b'' [3, 4] 0, CGet 7 8 ''a'']"
       "\<lparr>cfg_MaxSize = 3, cfg_MaxItems = 9\<rparr>"]
  by (simp add: fair_order_def is_shuffle_id is_shuffle_rev) blast

text \<open>
  C18: After any such sequence of calls, what \<open>Get\<close> returns is the value of the last \<open>Set\<close> of
  the key that no \<open>Delete\<close> or \<open>Clear\<close> followed, and its time to live has not passed.
\<close>
theorem get_returns_the_last_value_set:
  assumes "\<forall>x \<in> set xs. good_call cfg x" "cfg_MaxItems cfg < 2 ^ 63 - 1"
  shows "\<exists>c. cache_run xs (NewMemoryCache (Some cfg)) = Some c \<and>
     (\<forall>t1 t2 key. case fst (mc_Get t1 t2 key c) of
        Inl err \<Rightarrow> Type err = CacheError
      | Inr v \<Rightarrow> \<exists>exp. promised xs key = Some (v, exp) \<and> (is_zero_time exp \<or> t1 \<le> exp))"
proof -
  from healthy_run [OF healthy_new assms] obtain c where
    c: "cache_run xs (NewMemoryCache (Some cfg)) = Some c" "healthy cfg c" by blast
  have "held (NewMemoryCache (Some cfg)) \<subseteq>\<^sub>m Map.empty" by (simp add: held_def NewMemoryCache_def map_le_def)
  from held_run [OF healthy_new assms this c(1)] have "held c \<subseteq>\<^sub>m promised xs" by (simp add: promised_def)
  then have "map_of (entries c) key = Some e \<Longrightarrow> promised xs key = Some (EValue e, ExpiresAt e)" for key e
    by (force simp: map_le_def held_def)
  with c(1) show ?thesis
    by (auto simp: mc_Get_def IsExpired_def New_def split: option.splits if_splits)
qed

theorem get_returns_the_last_value_set_witness:
  "\<exists>c. cache_run [CSet (\<lambda>_ xs. xs) 5 ''a'' [1, 2] 10] (NewMemoryCache (Some \<lparr>cfg_MaxSize = 3, cfg_MaxItems = 9\<rparr>)) = Some c \<and>
     fst (mc_Get 15 15 ''a'' c) = Inr [1, 2] \<and> fst (mc_Get 16 16 ''a'' c) = Inl (New CacheError ''key expired'') \<and>
     (\<exists>exp. promised [CSet (\<lambda>_ xs. xs) 5 ''a'' [1, 2] 10] ''a'' = Some ([1, 2], exp) \<and> (is_zero_time exp \<or> 15 \<le> exp))"
proof -
  let ?xs = "[CSet (\<lambda>_ xs. xs) 5 ''a'' [1, 2] 10]" and ?cfg = "\<lparr>cfg_MaxSize = 3, cfg_MaxItems = 9\<rparr>"
  obtain c where c: "cache_run ?xs (NewMemoryCache (Some ?cfg)) = Some c"
    "\<forall>t1 t2 key. case fst (mc_Get t1 t2 key c) of Inl err \<Rightarrow> Type err = CacheError
       | Inr v \<Rightarrow> \<exists>exp. promised ?xs key = Some (v, exp) \<and> (is_zero_time exp \<or> t1 \<le> exp)"
    using get_returns_the_last_value_set [of ?xs ?cfg] by (auto simp: fair_order_def is_shuffle_id)
  have "fst (mc_Get 15 15 ''a'' c) = Inr [1, 2]" "fst (mc_Get 16 16 ''a'' c) = Inl (New CacheError ''key expired'')"
    using c(1) by (auto simp: mc_Set_def NewMemoryCache_def getKeyLock_def store_entry_def new_entry_def
        evictIfNeeded.simps needs_evict_def zero_stats_def mput_def mc_Get_def IsExpired_def is_zero_time_def
        time_add_def i64_def)
  with c(1) spec [OF c(2), of 15] show ?thesis by (auto dest!: spec [of _ 15] spec [of _ "''a''"])
qed





definition cache_ab :: memory_cache where
  "cache_ab = snd (the (mc_Set (\<lambda>_. rev) 6 ''b'' [3] 0
     (snd (the (mc_Set (\<lambda>_ xs. xs) 5 ''a'' [1, 2] 0 (NewMemoryCache (Some \<lparr>cfg_MaxSize = 3, cfg_MaxItems = 9\<rparr>)))))))"

lemma cache_ab_eval:
  "entries cache_ab = [(''a'', \<lparr>EValue = [1, 2], ExpiresAt = 0, AccessedAt = 5, CreatedAt = 5, ESize = 2\<rparr>),
     (''b'', \<lparr>EValue = [3], ExpiresAt = 0, AccessedAt = 6, CreatedAt = 6, ESize = 1\<rparr>)]"
  "maxSize cache_ab = 3" "cache_inv cache_ab" "no_empty_key cache_ab"
  by (simp_all add: cache_ab_def mc_Set_def NewMemoryCache_def getKeyLock_def store_entry_def new_entry_def
      evictIfNeeded.simps needs_evict_def zero_stats_def mput_def i64_def cache_inv_def acc_inv_def
      mwf_def total_size_def no_empty_key_def)




end
