(* ===== verification/TieredCache.thy ===== *)
theory TieredCache
  imports Cache
begin

text \<open>
  The rest of package \<open>pkg/cache\<close>: the \<open>Cache\<close> interface, the tiered cache over any two
  caches, the no-op cache and the cache key.  The interface is a record of the five methods
  over a state; what a client may rely on is the locale \<open>cache_contract\<close>, which the memory
  cache and the no-op cache meet and which the tiered cache meets when its levels do.
\<close>

section \<open>The interface\<close>

text \<open>
  What a call reads from its environment: instants and the map orders of the eviction loop.
  A call on a composite cache hands each part a stream of its own.
\<close>

record moment =
  m_check :: time
  m_now :: time
  m_orders :: "nat \<Rightarrow> entry_order"

type_synonym env = "nat \<Rightarrow> moment"

definition part :: "nat \<Rightarrow> env \<Rightarrow> env" where
  "part i en n = en (3 * n + i)"

record 's cache_impl =
  impl_Get :: "env \<Rightarrow> string \<Rightarrow> 's \<Rightarrow> ((go_error + bytes) \<times> 's) option"
  impl_Set :: "env \<Rightarrow> string \<Rightarrow> bytes \<Rightarrow> duration \<Rightarrow> 's \<Rightarrow> (go_error option \<times> 's) option"
  impl_Delete :: "string \<Rightarrow> 's \<Rightarrow> go_error option \<times> 's"
  impl_Clear :: "'s \<Rightarrow> go_error option \<times> 's"
  impl_Stats :: "'s \<Rightarrow> cache_stats"

definition memory :: "memory_cache cache_impl" where
  "memory = \<lparr>impl_Get = \<lambda>en key c. Some (mc_Get (m_check (en 0)) (m_now (en 0)) key c),
     impl_Set = \<lambda>en key value ttl c. mc_Set (m_orders (en 0)) (m_now (en 0)) key value ttl c,
     impl_Delete = mc_Delete, impl_Clear = mc_Clear, impl_Stats = mc_Stats\<rparr>"

section \<open>The no-op cache\<close>

definition noop_Get :: "env \<Rightarrow> string \<Rightarrow> unit \<Rightarrow> ((go_error + bytes) \<times> unit) option" where
  "noop_Get en key n = Some (Inl (New CacheError ''cache disabled''), n)"

definition noop_Set :: "env \<Rightarrow> string \<Rightarrow> bytes \<Rightarrow> duration \<Rightarrow> unit \<Rightarrow> (go_error option \<times> unit) option" where
  "noop_Set en key value ttl n = Some (None, n)"

definition noop_Delete :: "string \<Rightarrow> unit \<Rightarrow> go_error option \<times> unit" where
  "noop_Delete key n = (None, n)"

definition noop_Clear :: "unit \<Rightarrow> go_error option \<times> unit" where
  "noop_Clear n = (None, n)"

definition noop_Stats :: "unit \<Rightarrow> cache_stats" where
  "noop_Stats n = zero_stats"

definition NewNoOpCache :: unit where
  "NewNoOpCache = ()"

definition no_op :: "unit cache_impl" where
  "no_op = \<lparr>impl_Get = noop_Get, impl_Set = noop_Set, impl_Delete = noop_Delete,
     impl_Clear = noop_Clear, impl_Stats = noop_Stats\<rparr>"

section \<open>The tiered cache\<close>

definition NewTieredCache :: "'a \<Rightarrow> 'b \<Rightarrow> 'a \<times> 'b" where
  "NewTieredCache l1 l2 = (l1, l2)"

fun t_Get :: "'a cache_impl \<Rightarrow> 'b cache_impl \<Rightarrow> env \<Rightarrow> string \<Rightarrow> 'a \<times> 'b \<Rightarrow> ((go_error + bytes) \<times> 'a \<times> 'b) option" where
  "t_Get c1 c2 en key (l1, l2) =
     (case impl_Get c1 (part 0 en) key l1 of
        None \<Rightarrow> None
      | Some (Inr value, l1) \<Rightarrow> Some (Inr value, l1, l2)
      | Some (Inl err, l1) \<Rightarrow>
          (case impl_Get c2 (part 1 en) key l2 of
             None \<Rightarrow> None
           | Some (Inr value, l2) \<Rightarrow>
               (case impl_Set c1 (part 2 en) key value hour l1 of
                  None \<Rightarrow> None
                | Some (_, l1) \<Rightarrow> Some (Inr value, l1, l2))
           | Some (Inl err, l2) \<Rightarrow> Some (Inl err, l1, l2)))"

fun t_Set :: "'a cache_impl \<Rightarrow> 'b cache_impl \<Rightarrow> env \<Rightarrow> string \<Rightarrow> bytes \<Rightarrow> duration \<Rightarrow> 'a \<times> 'b \<Rightarrow>
    (go_error option \<times> 'a \<times> 'b) option" where
  "t_Set c1 c2 en key value ttl (l1, l2) =
     (case impl_Set c1 (part 0 en) key value ttl l1 of
        None \<Rightarrow> None
      | Some (Some err, l1) \<Rightarrow> Some (Some err, l1, l2)
      | Some (None, l1) \<Rightarrow>
          (case impl_Set c2 (part 1 en) key value ttl l2 of
             None \<Rightarrow> None
           | Some (err, l2) \<Rightarrow> Some (err, l1, l2)))"

fun t_Delete :: "'a cache_impl \<Rightarrow> 'b cache_impl \<Rightarrow> string \<Rightarrow> 'a \<times> 'b \<Rightarrow> go_error option \<times> 'a \<times> 'b" where
  "t_Delete c1 c2 key (l1, l2) =
     (let (_, l1) = impl_Delete c1 key l1; (err, l2) = impl_Delete c2 key l2 in (err, l1, l2))"

fun t_Clear :: "'a cache_impl \<Rightarrow> 'b cache_impl \<Rightarrow> 'a \<times> 'b \<Rightarrow> go_error option \<times> 'a \<times> 'b" where
  "t_Clear c1 c2 (l1, l2) =
     (let (_, l1) = impl_Clear c1 l1; (err, l2) = impl_Clear c2 l2 in (err, l1, l2))"

fun t_Stats :: "'a cache_impl \<Rightarrow> 'b cache_impl \<Rightarrow> 'a \<times> 'b \<Rightarrow> cache_stats" where
  "t_Stats c1 c2 (l1, l2) =
     (let l1Stats = impl_Stats c1 l1; l2Stats = impl_Stats c2 l2
      in \<lparr>Hits = i64 (Hits l1Stats + Hits l2Stats), Misses = i64 (Misses l1Stats + Misses l2Stats),
          Evictions = i64 (Evictions l1Stats + Evictions l2Stats),
          SSize = i64 (SSize l1Stats + SSize l2Stats), MaxSize = i64 (MaxSize l1Stats + MaxSize l2Stats),
          ItemCount = i64 (ItemCount l1Stats + ItemCount l2Stats),
          MaxItems = i64 (MaxItems l1Stats + MaxItems l2Stats)\<rparr>)"

definition tiered :: "'a cache_impl \<Rightarrow> 'b cache_impl \<Rightarrow> ('a \<times> 'b) cache_impl" where
  "tiered c1 c2 = \<lparr>impl_Get = t_Get c1 c2, impl_Set = t_Set c1 c2, impl_Delete = t_Delete c1 c2,
     impl_Clear = t_Clear c1 c2, impl_Stats = t_Stats c1 c2\<rparr>"

section \<open>The contract\<close>

text \<open>
  \<open>content\<close> is what the cache can still return.  A call under a non-empty key returns; \<open>Get\<close>
  returns only what is held; no call adds to the content but \<open>Set\<close>, which adds what it was
  given; any call may forget.
\<close>

definition fair_env :: "env \<Rightarrow> bool" where
  "fair_env en \<longleftrightarrow> (\<forall>n. fair_order (m_orders (en n)))"

lemma fair_part: "fair_env en \<Longrightarrow> fair_env (part i en)"
  by (simp add: fair_env_def part_def)

locale cache_contract =
  fixes c :: "'s cache_impl"
    and good :: "'s \<Rightarrow> bool"
    and content :: "'s \<Rightarrow> string \<rightharpoonup> bytes"
  assumes get_law: "good s \<Longrightarrow> fair_env en \<Longrightarrow> key \<noteq> [] \<Longrightarrow>
      \<exists>r s'. impl_Get c en key s = Some (r, s') \<and> good s' \<and> content s' \<subseteq>\<^sub>m content s \<and>
        (\<forall>v. r = Inr v \<longrightarrow> content s key = Some v)"
    and set_law: "good s \<Longrightarrow> fair_env en \<Longrightarrow> key \<noteq> [] \<Longrightarrow>
      \<exists>s'. impl_Set c en key v ttl s = Some (None, s') \<and> good s' \<and> content s' \<subseteq>\<^sub>m (content s)(key \<mapsto> v)"
    and delete_law: "good s \<Longrightarrow> good (snd (impl_Delete c key s)) \<and>
      content (snd (impl_Delete c key s)) \<subseteq>\<^sub>m (content s)(key := None)"
    and clear_law: "good s \<Longrightarrow> good (snd (impl_Clear c s)) \<and> content (snd (impl_Clear c s)) = Map.empty"

text \<open>Sequences of calls through the interface, and what they promise.\<close>

datatype icall = IGet env string | ISet env string bytes duration | IDelete string | IClear

fun icall_ok :: "icall \<Rightarrow> bool" where
  "icall_ok (IGet en key) \<longleftrightarrow> fair_env en \<and> key \<noteq> []"
| "icall_ok (ISet en key value ttl) \<longleftrightarrow> fair_env en \<and> key \<noteq> []"
| "icall_ok _ \<longleftrightarrow> True"

fun istep :: "'s cache_impl \<Rightarrow> icall \<Rightarrow> 's \<Rightarrow> 's option" where
  "istep c (IGet en key) s = map_option snd (impl_Get c en key s)"
| "istep c (ISet en key value ttl) s = map_option snd (impl_Set c en key value ttl s)"
| "istep c (IDelete key) s = Some (snd (impl_Delete c key s))"
| "istep c IClear s = Some (snd (impl_Clear c s))"

fun irun :: "'s cache_impl \<Rightarrow> icall list \<Rightarrow> 's \<Rightarrow> 's option" where
  "irun c [] s = Some s"
| "irun c (x # xs) s = Option.bind (istep c x s) (irun c xs)"

fun last_set_step :: "icall \<Rightarrow> (string \<rightharpoonup> bytes) \<Rightarrow> string \<rightharpoonup> bytes" where
  "last_set_step (ISet en key value ttl) m = m(key \<mapsto> value)"
| "last_set_step (IDelete key) m = m(key := None)"
| "last_set_step IClear m = Map.empty"
| "last_set_step (IGet en key) m = m"

definition last_set :: "icall list \<Rightarrow> string \<rightharpoonup> bytes" where
  "last_set xs = fold last_set_step xs Map.empty"

context cache_contract begin

lemma step_law:
  assumes "good s" "icall_ok x" "content s \<subseteq>\<^sub>m m"
  shows "\<exists>s'. istep c x s = Some s' \<and> good s' \<and> content s' \<subseteq>\<^sub>m last_set_step x m"
proof (cases x)
  case (IGet en key)
  with get_law [OF assms(1), of en key] assms show ?thesis by (auto intro: map_le_trans)
next
  case (ISet en key v ttl)
  have "(content s)(key \<mapsto> v) \<subseteq>\<^sub>m m(key \<mapsto> v)" using assms(3) by (rule map_le_upd)
  with ISet set_law [OF assms(1), of en key v ttl] assms(2) show ?thesis by (auto intro: map_le_trans)
next
  case (IDelete key)
  have "(content s)(key := None) \<subseteq>\<^sub>m m(key := None)" using assms(3) by (auto simp: map_le_def dom_def)
  with IDelete delete_law [OF assms(1), of key] show ?thesis by (auto intro: map_le_trans)
next
  case IClear
  with clear_law [OF assms(1)] show ?thesis by simp
qed

lemma run_law:
  assumes "good s" "\<forall>x \<in> set xs. icall_ok x" "content s \<subseteq>\<^sub>m m"
  shows "\<exists>s'. irun c xs s = Some s' \<and> good s' \<and> content s' \<subseteq>\<^sub>m fold last_set_step xs m"
  using assms
proof (induction xs arbitrary: s m)
  case (Cons x xs)
  from step_law [OF Cons.prems(1) _ Cons.prems(3), of x] Cons.prems(2) obtain s' where
    s': "istep c x s = Some s'" "good s'" "content s' \<subseteq>\<^sub>m last_set_step x m" by auto
  from Cons.IH [OF s'(2) _ s'(3)] Cons.prems(2) s'(1) show ?case by simp
qed simp

lemma lossy_map:
  assumes "good s" "content s = Map.empty" "\<forall>x \<in> set xs. icall_ok x" "fair_env en" "key \<noteq> []"
  shows "\<exists>s' r s''. irun c xs s = Some s' \<and> impl_Get c en key s' = Some (r, s'') \<and>
     (\<forall>v. r = Inr v \<longrightarrow> last_set xs key = Some v)"
proof -
  have "content s \<subseteq>\<^sub>m Map.empty" using assms(2) by simp
  from run_law [OF assms(1,3) this] obtain s' where
    s': "irun c xs s = Some s'" "good s'" "content s' \<subseteq>\<^sub>m last_set xs"
    by (auto simp: last_set_def)
  from get_law [OF s'(2) assms(4,5)] s' show ?thesis by (auto simp: map_le_def) (metis domI)
qed

end


section \<open>The caches meet the contract\<close>

definition mem_good :: "memory_cache \<Rightarrow> bool" where
  "mem_good c \<longleftrightarrow> acc_inv c \<and> no_empty_key c"

definition mem_content :: "memory_cache \<Rightarrow> string \<rightharpoonup> bytes" where
  "mem_content c key = map_option EValue (map_of (entries c) key)"

lemma mem_set_law:
  assumes "mem_good c" "fair_order sh" "key \<noteq> []"
  shows "\<exists>d. mc_Set sh now key v ttl c = Some (None, d) \<and> mem_good d \<and> mem_content d \<subseteq>\<^sub>m (mem_content c)(key \<mapsto> v)"
proof -
  let ?s = "store_entry key (new_entry now v ttl) (getKeyLock key c)"
  have inv: "acc_inv c" "no_empty_key c" using assms(1) by (simp_all add: mem_good_def)
  obtain d where d: "mc_Set sh now key v ttl c = Some (None, d)" "cache_inv d" "no_empty_key d" "evicted ?s d"
    by (rule mc_Set_effect [OF inv assms(2,3)])
  have "mem_content ?s = (mem_content c)(key \<mapsto> v)"
    by (simp add: mem_content_def mput_lookup fun_eq_iff)
  moreover have "mwf (entries ?s)" using inv by (simp add: acc_inv_def mwf_mput)
  then have "mem_content d \<subseteq>\<^sub>m mem_content ?s"
    using evicted_lookup [OF d(4)] by (auto simp: map_le_def mem_content_def)
  ultimately show ?thesis using d by (simp add: mem_good_def cache_inv_def)
qed

lemma mem_delete_law:
  assumes "mem_good c"
  shows "mem_good (snd (mc_Delete key c))" "mem_content (snd (mc_Delete key c)) = (mem_content c)(key := None)"
proof -
  show "mem_content (snd (mc_Delete key c)) = (mem_content c)(key := None)"
    by (auto simp: mem_content_def mdel_lookup fun_eq_iff mc_Delete_def Let_def split: option.splits)
  have delete_entries: "map_of (entries (snd (mc_Delete key c))) = (map_of (entries c))(key := None)"
    by (auto simp: mc_Delete_def Let_def mdel_lookup fun_eq_iff split: option.splits)
  have "acc_inv (snd (mc_Delete key c))"
  proof (cases "map_of (entries c) key")
    case None
    with assms show ?thesis by (simp add: mc_Delete_def mem_good_def acc_inv_def total_size_def)
  next
    case (Some e)
    show ?thesis
      by (rule acc_inv_delete [OF _ Some]) (use assms in \<open>simp_all add: mc_Delete_def Some mem_good_def\<close>)
  qed
  with assms show "mem_good (snd (mc_Delete key c))"
    by (simp add: mem_good_def no_empty_key_def delete_entries)
qed

lemma mem_get_law:
  assumes "mem_good c"
  shows "\<exists>r d. mc_Get t1 t2 key c = (r, d) \<and> mem_good d \<and> mem_content d \<subseteq>\<^sub>m mem_content c \<and>
     (\<forall>v. r = Inr v \<longrightarrow> mem_content c key = Some v)"
proof -
  have miss: "mem_good (miss d) = mem_good d" "mem_content (miss d) = mem_content d" for d
    by (simp_all add: miss_def mem_good_def acc_inv_def total_size_def no_empty_key_def mem_content_def fun_eq_iff)
  have touch: "mem_good (c\<lparr>entries := mput key (e\<lparr>AccessedAt := t\<rparr>) (entries c), stats := (stats c)\<lparr>Hits := h\<rparr>\<rparr>)"
    "mem_content (c\<lparr>entries := mput key (e\<lparr>AccessedAt := t\<rparr>) (entries c), stats := (stats c)\<lparr>Hits := h\<rparr>\<rparr>) = mem_content c"
    if "map_of (entries c) key = Some e" for e t h
    using assms that acc_inv_touch [of c key e, where t = t and h = h]
    by (auto simp: mem_good_def no_empty_key_def mem_content_def mput_lookup fun_eq_iff)
  have "mem_content (snd (mc_Delete key c)) \<subseteq>\<^sub>m mem_content c"
    unfolding mem_delete_law(2) [OF assms] by (rule map_le_update_None) simp
  then show ?thesis
    using assms touch mem_delete_law(1) [OF assms]
    by (auto simp: mc_Get_def miss mem_content_def split: option.splits)
qed

interpretation mem: cache_contract memory mem_good mem_content
proof unfold_locales
  fix s and en :: env and key :: string and v ttl
  assume s: "mem_good s"
  show "mem_good (snd (impl_Delete memory key s)) \<and>
      mem_content (snd (impl_Delete memory key s)) \<subseteq>\<^sub>m (mem_content s)(key := None)"
    using mem_delete_law [OF s] by (simp add: memory_def)
  show "mem_good (snd (impl_Clear memory s)) \<and> mem_content (snd (impl_Clear memory s)) = Map.empty"
    using acc_inv_clear [of s] by (simp add: memory_def mem_good_def mc_Clear_def no_empty_key_def mem_content_def fun_eq_iff)
  assume en: "fair_env en" and key: "key \<noteq> []"
  show "\<exists>r s'. impl_Get memory en key s = Some (r, s') \<and> mem_good s' \<and> mem_content s' \<subseteq>\<^sub>m mem_content s \<and>
      (\<forall>v. r = Inr v \<longrightarrow> mem_content s key = Some v)"
    using mem_get_law [OF s] by (simp add: memory_def)
  show "\<exists>s'. impl_Set memory en key v ttl s = Some (None, s') \<and> mem_good s' \<and>
      mem_content s' \<subseteq>\<^sub>m (mem_content s)(key \<mapsto> v)"
    using mem_set_law [OF s _ key] en by (simp add: memory_def fair_env_def)
qed

interpretation noop: cache_contract no_op "\<lambda>_. True" "\<lambda>_. Map.empty"
  by unfold_locales
    (simp_all add: no_op_def noop_Get_def noop_Set_def noop_Delete_def noop_Clear_def)

text \<open>
  Two levels that meet the contract give a tiered cache that does, as long as they agree
  where both hold a key; that they agree is part of the invariant.
\<close>

definition agree :: "('k \<rightharpoonup> 'v) \<Rightarrow> ('k \<rightharpoonup> 'v) \<Rightarrow> bool" where
  "agree m1 m2 \<longleftrightarrow> (\<forall>k v1 v2. m1 k = Some v1 \<and> m2 k = Some v2 \<longrightarrow> v1 = v2)"

definition t_good where
  "t_good good1 content1 good2 content2 l \<longleftrightarrow>
     good1 (fst l) \<and> good2 (snd l) \<and> agree (content1 (fst l)) (content2 (snd l))"

definition t_content where
  "t_content content1 content2 l = content1 (fst l) ++ content2 (snd l)"

lemma agree_sub: "agree m1 m2 \<Longrightarrow> n1 \<subseteq>\<^sub>m m1 \<Longrightarrow> n2 \<subseteq>\<^sub>m m2 \<Longrightarrow> agree n1 n2 \<and> n1 ++ n2 \<subseteq>\<^sub>m m1 ++ m2"
  unfolding agree_def map_le_def dom_def map_add_def
  by (auto split: option.splits) (metis option.inject option.distinct(1))+

lemma agree_put: "agree m1 m2 \<Longrightarrow> agree (m1(k \<mapsto> v)) (m2(k \<mapsto> v)) \<and> m1(k \<mapsto> v) ++ m2(k \<mapsto> v) = (m1 ++ m2)(k \<mapsto> v)"
  by (auto simp: agree_def fun_eq_iff map_add_def split: option.splits)

lemma agree_del: "agree m1 m2 \<Longrightarrow> agree (m1(k := None)) (m2(k := None)) \<and> m1(k := None) ++ m2(k := None) = (m1 ++ m2)(k := None)"
  by (auto simp: agree_def fun_eq_iff map_add_def split: option.splits)

lemma agree_promote: "agree m1 m2 \<Longrightarrow> m2 k = Some v \<Longrightarrow> agree (m1(k \<mapsto> v)) m2 \<and> m1(k \<mapsto> v) ++ m2 = m1 ++ m2"
  by (auto simp: agree_def fun_eq_iff map_add_def split: option.splits)


locale two_caches =
  l1: cache_contract c1 good1 content1 + l2: cache_contract c2 good2 content2
  for c1 :: "'a cache_impl" and good1 content1 and c2 :: "'b cache_impl" and good2 content2
begin

abbreviation both_good where "both_good \<equiv> t_good good1 content1 good2 content2"
abbreviation both_content where "both_content \<equiv> t_content content1 content2"

lemma both_sub:
  assumes "agree (content1 s1) (content2 s2)" "good1 s1'" "good2 s2'"
    "content1 s1' \<subseteq>\<^sub>m content1 s1" "content2 s2' \<subseteq>\<^sub>m content2 s2"
  shows "both_good (s1', s2') \<and> both_content (s1', s2') \<subseteq>\<^sub>m both_content (s1, s2)"
  using agree_sub [OF assms(1,4,5)] assms(2,3) by (simp add: t_good_def t_content_def)

lemma tiered_get:
  assumes good: "both_good (s1, s2)" and en: "fair_env en" and key: "key \<noteq> []"
  shows "\<exists>r s'. t_Get c1 c2 en key (s1, s2) = Some (r, s') \<and> both_good s' \<and>
     both_content s' \<subseteq>\<^sub>m both_content (s1, s2) \<and> (\<forall>v. r = Inr v \<longrightarrow> both_content (s1, s2) key = Some v)"
proof -
  have g: "good1 s1" "good2 s2" "agree (content1 s1) (content2 s2)" using good by (simp_all add: t_good_def)
  obtain r1 s1' where s1': "impl_Get c1 (part 0 en) key s1 = Some (r1, s1')" "good1 s1'"
    "content1 s1' \<subseteq>\<^sub>m content1 s1" "\<forall>v. r1 = Inr v \<longrightarrow> content1 s1 key = Some v"
    using l1.get_law [OF g(1) fair_part [OF en] key] by blast
  show ?thesis
  proof (cases r1)
    case (Inr v)
    have "both_content (s1, s2) key = Some v"
      using s1'(4) Inr g(3) by (auto simp: t_content_def agree_def map_add_def split: option.splits)
    with both_sub [OF g(3) s1'(2) g(2) s1'(3)] s1'(1) Inr show ?thesis by simp
  next
    case (Inl err)
    obtain r2 s2' where s2': "impl_Get c2 (part 1 en) key s2 = Some (r2, s2')" "good2 s2'"
      "content2 s2' \<subseteq>\<^sub>m content2 s2" "\<forall>v. r2 = Inr v \<longrightarrow> content2 s2 key = Some v"
      using l2.get_law [OF g(2) fair_part [OF en] key] by blast
    show ?thesis
    proof (cases r2)
      case (Inl err2)
      with both_sub [OF g(3) s1'(2) s2'(2) s1'(3) s2'(3)] s1'(1) s2'(1) \<open>r1 = Inl err\<close> show ?thesis by simp
    next
      case (Inr v)
      have held: "content2 s2 key = Some v" using s2'(4) Inr by simp
      obtain s1'' where s1'': "impl_Set c1 (part 2 en) key v hour s1' = Some (None, s1'')" "good1 s1''"
        "content1 s1'' \<subseteq>\<^sub>m (content1 s1')(key \<mapsto> v)"
        using l1.set_law [OF s1'(2) fair_part [OF en] key] by blast
      have "content1 s1'' \<subseteq>\<^sub>m (content1 s1)(key \<mapsto> v)"
        using map_le_trans [OF s1''(3) map_le_upd [OF s1'(3)]] .
      from agree_sub [OF conjunct1 [OF agree_promote [OF g(3) held]] this s2'(3)]
      have "both_good (s1'', s2')" "both_content (s1'', s2') \<subseteq>\<^sub>m both_content (s1, s2)"
        using s1''(2) s2'(2) agree_promote [OF g(3) held] by (auto simp: t_good_def t_content_def)
      moreover have "both_content (s1, s2) key = Some v" using held by (simp add: t_content_def)
      ultimately show ?thesis using s1'(1) s2'(1) s1''(1) \<open>r1 = Inl err\<close> Inr by simp
    qed
  qed
qed

lemma tiered_set:
  assumes good: "both_good (s1, s2)" and en: "fair_env en" and key: "key \<noteq> []"
  shows "\<exists>s'. t_Set c1 c2 en key v ttl (s1, s2) = Some (None, s') \<and> both_good s' \<and>
     both_content s' \<subseteq>\<^sub>m (both_content (s1, s2))(key \<mapsto> v)"
proof -
  have g: "good1 s1" "good2 s2" "agree (content1 s1) (content2 s2)" using good by (simp_all add: t_good_def)
  obtain s1' where s1': "impl_Set c1 (part 0 en) key v ttl s1 = Some (None, s1')" "good1 s1'"
    "content1 s1' \<subseteq>\<^sub>m (content1 s1)(key \<mapsto> v)"
    using l1.set_law [OF g(1) fair_part [OF en] key] by blast
  obtain s2' where s2': "impl_Set c2 (part 1 en) key v ttl s2 = Some (None, s2')" "good2 s2'"
    "content2 s2' \<subseteq>\<^sub>m (content2 s2)(key \<mapsto> v)"
    using l2.set_law [OF g(2) fair_part [OF en] key] by blast
  from agree_sub [OF conjunct1 [OF agree_put [OF g(3)]] s1'(3) s2'(3)]
  show ?thesis using s1' s2' agree_put [OF g(3), of key v] by (auto simp: t_good_def t_content_def)
qed

lemma tiered_delete:
  assumes good: "both_good (s1, s2)"
  shows "both_good (snd (t_Delete c1 c2 key (s1, s2))) \<and>
     both_content (snd (t_Delete c1 c2 key (s1, s2))) \<subseteq>\<^sub>m (both_content (s1, s2))(key := None)"
proof -
  have g: "good1 s1" "good2 s2" "agree (content1 s1) (content2 s2)" using good by (simp_all add: t_good_def)
  from agree_sub [OF conjunct1 [OF agree_del [OF g(3)]]
      conjunct2 [OF l1.delete_law [OF g(1), of key]] conjunct2 [OF l2.delete_law [OF g(2), of key]]]
  show ?thesis using l1.delete_law [OF g(1), of key] l2.delete_law [OF g(2), of key] agree_del [OF g(3), of key]
    by (simp add: t_good_def t_content_def split_beta Let_def)
qed

lemma tiered_clear:
  assumes good: "both_good (s1, s2)"
  shows "both_good (snd (t_Clear c1 c2 (s1, s2))) \<and> both_content (snd (t_Clear c1 c2 (s1, s2))) = Map.empty"
  using l1.clear_law [of s1] l2.clear_law [of s2] good
  by (simp add: t_good_def t_content_def split_beta Let_def agree_def)

end

sublocale two_caches \<subseteq> both: cache_contract "tiered c1 c2" both_good both_content
proof unfold_locales
  fix s :: "'a \<times> 'b" and en :: env and key :: string and v ttl
  assume s: "both_good s"
  obtain s1 s2 where eq: "s = (s1, s2)" by (cases s)
  note s' = s [unfolded eq]
  show "both_good (snd (impl_Delete (tiered c1 c2) key s)) \<and>
      both_content (snd (impl_Delete (tiered c1 c2) key s)) \<subseteq>\<^sub>m (both_content s)(key := None)"
    using tiered_delete [OF s', of key] by (simp add: tiered_def eq del: t_Delete.simps)
  show "both_good (snd (impl_Clear (tiered c1 c2) s)) \<and> both_content (snd (impl_Clear (tiered c1 c2) s)) = Map.empty"
    using tiered_clear [OF s'] by (simp add: tiered_def eq del: t_Clear.simps)
  assume en: "fair_env en" and key: "key \<noteq> []"
  show "\<exists>r s'. impl_Get (tiered c1 c2) en key s = Some (r, s') \<and> both_good s' \<and>
      both_content s' \<subseteq>\<^sub>m both_content s \<and> (\<forall>v. r = Inr v \<longrightarrow> both_content s key = Some v)"
    using tiered_get [OF s' en key] by (simp add: tiered_def eq del: t_Get.simps)
  show "\<exists>s'. impl_Set (tiered c1 c2) en key v ttl s = Some (None, s') \<and> both_good s' \<and>
      both_content s' \<subseteq>\<^sub>m (both_content s)(key \<mapsto> v)"
    using tiered_set [OF s' en key] by (simp add: tiered_def eq del: t_Set.simps)
qed

interpretation mm: two_caches memory mem_good mem_content memory mem_good mem_content
  by unfold_locales

interpretation nm: two_caches no_op "\<lambda>_. True" "\<lambda>_. Map.empty" memory mem_good mem_content
  by unfold_locales

section \<open>The cache key\<close>

record cache_key =
  Method :: string
  URI :: string
  Headers :: "(string, string) gomap"

definition NewCacheKey :: "string \<Rightarrow> string \<Rightarrow> (string, string) gomap \<Rightarrow> cache_key" where
  "NewCacheKey method uri headers = \<lparr>Method = method, URI = uri, Headers = headers\<rparr>"

text \<open>The bytes written to the hash; \<open>sh\<close> is the order of the loop over the header map.\<close>

definition key_bytes :: "((string \<times> string) list \<Rightarrow> (string \<times> string) list) \<Rightarrow> cache_key \<Rightarrow> string" where
  "key_bytes sh k = Method k @ URI k @ concat (map (\<lambda>(name, value). name @ value) (sh (Headers k)))"

text \<open>\<open>fmt.Sprintf("%x", bs)\<close>: two digits for each byte.\<close>

definition hex_digit :: "nat \<Rightarrow> char" where
  "hex_digit d = (if d < 10 then digit_char d else char_of (87 + d))"

definition hex_bytes :: "bytes \<Rightarrow> string" where
  "hex_bytes bs = concat (map (\<lambda>b. [hex_digit (unat b div 16), hex_digit (unat b mod 16)]) bs)"

definition CacheKey_String :: "(string \<Rightarrow> bytes) \<Rightarrow> ((string \<times> string) list \<Rightarrow> (string \<times> string) list) \<Rightarrow>
    cache_key \<Rightarrow> string" where
  "CacheKey_String md5 sh k = hex_bytes (md5 (key_bytes sh k))"

lemma hex_digit_code: "d < 16 \<Longrightarrow> of_char (hex_digit d) = (if d < 10 then 48 + d else 87 + d)"
  unfolding hex_digit_def digit_char_def by (cases "d < 10") (simp_all only: if_True if_False of_char_of, simp_all)

lemma hex_digit_inj:
  assumes "d < 16" "e < 16"
  shows "hex_digit d = hex_digit e \<longleftrightarrow> d = e"
proof
  assume "hex_digit d = hex_digit e"
  then have "(if d < 10 then 48 + d else 87 + d) = (if e < 10 then 48 + e else 87 + e)"
    using hex_digit_code [OF assms(1)] hex_digit_code [OF assms(2)] by metis
  then show "d = e" by (simp split: if_splits)
qed simp

lemma hex_byte_inj:
  fixes a b :: "8 word"
  shows "hex_digit (unat a div 16) = hex_digit (unat b div 16) \<and> hex_digit (unat a mod 16) = hex_digit (unat b mod 16) \<longleftrightarrow> a = b"
proof -
  have "unat a < 256" "unat b < 256" using unsigned_less [of a, where ?'a = nat] unsigned_less [of b, where ?'a = nat] by simp_all
  then have "unat a div 16 < 16" "unat b div 16 < 16" by (auto simp: less_mult_imp_div_less)
  then have "hex_digit (unat a div 16) = hex_digit (unat b div 16) \<longleftrightarrow> unat a div 16 = unat b div 16"
    "hex_digit (unat a mod 16) = hex_digit (unat b mod 16) \<longleftrightarrow> unat a mod 16 = unat b mod 16"
    by (simp_all add: hex_digit_inj)
  then show ?thesis by (metis div_mult_mod_eq word_eq_iff_unsigned [where ?'a = nat])
qed

lemma hex_bytes_Cons: "hex_bytes (b # bs) = hex_digit (unat b div 16) # hex_digit (unat b mod 16) # hex_bytes bs"
  by (simp add: hex_bytes_def)

lemma hex_bytes_inj: "hex_bytes bs = hex_bytes cs \<longleftrightarrow> bs = cs"
proof (induction bs arbitrary: cs)
  case Nil
  then show ?case by (cases cs) (simp_all add: hex_bytes_def)
next
  case (Cons b bs)
  show ?case
  proof (cases cs)
    case Nil
    then show ?thesis by (simp add: hex_bytes_def)
  next
    case (Cons c cs')
    with hex_byte_inj [of b c] \<open>\<And>cs. (hex_bytes bs = hex_bytes cs) = (bs = cs)\<close>
    show ?thesis by (simp only: hex_bytes_Cons list.inject) blast
  qed
qed

section \<open>Properties\<close>

text \<open>
  C22: A tiered cache of two memory caches is a map that may forget.  Every sequence of calls
  under non-empty keys returns, and a later \<open>Get\<close> returns either an error or the value of
  the last \<open>Set\<close> of the key that no \<open>Delete\<close> or \<open>Clear\<close> followed, from whichever level.
\<close>
theorem tiered_cache_is_a_lossy_map:
  assumes "\<forall>x \<in> set xs. icall_ok x" "fair_env en" "key \<noteq> []"
  shows "\<exists>l r l'. irun (tiered memory memory) xs (NewTieredCache (NewMemoryCache cfg1) (NewMemoryCache cfg2)) = Some l \<and>
     t_Get memory memory en key l = Some (r, l') \<and> (\<forall>v. r = Inr v \<longrightarrow> last_set xs key = Some v)"
proof -
  have new: "mem_good (NewMemoryCache cfg)" "mem_content (NewMemoryCache cfg) = Map.empty" for cfg
    by (auto simp: mem_good_def NewMemoryCache_def acc_inv_def total_size_def mwf_empty no_empty_key_def
        zero_stats_def mem_content_def Let_def)
  have "mm.both_good (NewTieredCache (NewMemoryCache cfg1) (NewMemoryCache cfg2))"
    "mm.both_content (NewTieredCache (NewMemoryCache cfg1) (NewMemoryCache cfg2)) = Map.empty"
    by (simp_all add: t_good_def t_content_def NewTieredCache_def new agree_def)
  from mm.both.lossy_map [OF this assms] show ?thesis by (simp add: tiered_def)
qed

definition env_at :: "time \<Rightarrow> env" where
  "env_at t = (\<lambda>_. \<lparr>m_check = t, m_now = t, m_orders = \<lambda>_ xs. xs\<rparr>)"

lemma fair_env_at: "fair_env (env_at t)"
  by (simp add: fair_env_def env_at_def fair_order_def is_shuffle_id)

theorem tiered_cache_is_a_lossy_map_witness:
  "\<exists>l r l'. irun (tiered memory memory) [ISet (env_at 5) ''a'' [1] 0, IDelete ''a'', ISet (env_at 6) ''a'' [2] 0]
       (NewTieredCache (NewMemoryCache None) (NewMemoryCache None)) = Some l \<and>
     t_Get memory memory (env_at 7) ''a'' l = Some (r, l') \<and> (\<forall>v. r = Inr v \<longrightarrow> v = [2])"
proof -
  let ?xs = "[ISet (env_at 5) ''a'' [1] 0, IDelete ''a'', ISet (env_at 6) ''a'' [2] 0]"
  have ok: "\<forall>x \<in> set ?xs. icall_ok x" by (simp add: fair_env_at)
  obtain l r l' where
    "irun (tiered memory memory) ?xs (NewTieredCache (NewMemoryCache None) (NewMemoryCache None)) = Some l"
    "t_Get memory memory (env_at 7) ''a'' l = Some (r, l')" "\<forall>v. r = Inr v \<longrightarrow> last_set ?xs ''a'' = Some v"
    using tiered_cache_is_a_lossy_map [OF ok fair_env_at [of 7], of "''a''" None None] by blast
  moreover have "last_set ?xs ''a'' = Some [2]" by (simp add: last_set_def)
  ultimately show ?thesis by fastforce
qed

text \<open>
  C23: Promotion forgets the time to live.  When the first level has no entry and the second
  returns a value, the value is stored in the first for an hour: a later \<open>Get\<close> within that
  hour returns it, however long ago the entry of the second level expired.
\<close>
theorem promoted_value_lives_an_hour:
  assumes l1: "cache_inv l1" "no_empty_key l1" "map_of (entries l1) key = None"
    and newest: "\<forall>k e. map_of (entries l1) k = Some e \<longrightarrow> AccessedAt e < m_now (en 2)"
    and fits: "maxSize l1 > 0 \<longrightarrow> int (length v) \<le> maxSize l1" "int (length v) < 2 ^ 63"
    and l2: "fst (mc_Get (m_check (en 1)) (m_now (en 1)) key l2) = Inr v"
    and env: "fair_env en" "key \<noteq> []" "m_check (en' 0) \<le> m_now (en 2) + hour"
  shows "\<exists>l' l''. t_Get memory memory en key (l1, l2) = Some (Inr v, l') \<and>
     t_Get memory memory en' key l' = Some (Inr v, l'')"
proof -
  have inv: "acc_inv (miss l1)" "no_empty_key (miss l1)" "fair_order (m_orders (en 2))"
    using l1 env(1) by (simp_all add: cache_inv_def miss_def acc_inv_def total_size_def no_empty_key_def fair_env_def)
  obtain d where d: "mc_Set (m_orders (en 2)) (m_now (en 2)) key v hour (miss l1) = Some (None, d)"
    by (rule mc_Set_effect [OF inv env(2)])
  obtain l2' where l2': "mc_Get (m_check (en 1)) (m_now (en 1)) key l2 = (Inr v, l2')"
    using l2 by (metis prod.collapse)
  have first: "t_Get memory memory en key (l1, l2) = Some (Inr v, d, l2')"
    using d l1(3) l2' by (simp add: memory_def part_def mc_Get_def [of _ _ key l1] numeral_2_eq_2)
  have "map_of (entries d) key = Some (new_entry (m_now (en 2)) v hour)"
    by (rule mc_Set_keeps [OF inv env(2) fits(2) _ _ d]) (use fits(1) newest in \<open>simp_all add: miss_def\<close>)
  from mc_Get_new_entry [OF this, of "m_check (en' 0)" "m_now (en' 0)"] env(3)
  obtain d' where "mc_Get (m_check (en' 0)) (m_now (en' 0)) key d = (Inr v, d')"
    by (metis prod.collapse)
  with first show ?thesis by (simp add: memory_def part_def)
qed

theorem promoted_value_lives_an_hour_witness:
  "let l2 = snd (the (mc_Set (\<lambda>_ xs. xs) 5 ''a'' [1] 10 (NewMemoryCache None)))
   in fst (mc_Get 16 16 ''a'' l2) = Inl (New CacheError ''key expired'') \<and>
     (\<exists>l' l''. t_Get memory memory (env_at 15) ''a'' (NewMemoryCache None, l2) = Some (Inr [1], l') \<and>
        t_Get memory memory (env_at (15 + hour)) ''a'' l' = Some (Inr [1], l''))"
proof -
  let ?l2 = "snd (the (mc_Set (\<lambda>_ xs. xs) 5 ''a'' [1] 10 (NewMemoryCache None)))"
  have l2: "entries ?l2 = [(''a'', new_entry 5 [1] 10)]"
    by (simp add: mc_Set_def NewMemoryCache_def getKeyLock_def store_entry_def zero_stats_def
        evictIfNeeded.simps needs_evict_def mput_def i64_def)
  have fresh: "entries (NewMemoryCache None) = []" "cache_inv (NewMemoryCache None)" "no_empty_key (NewMemoryCache None)"
    "maxSize (NewMemoryCache None) = 104857600"
    by (simp_all add: NewMemoryCache_def cache_inv_def acc_inv_def total_size_def mwf_empty no_empty_key_def zero_stats_def)
  have "\<exists>l' l''. t_Get memory memory (env_at 15) ''a'' (NewMemoryCache None, ?l2) = Some (Inr [1], l') \<and>
     t_Get memory memory (env_at (15 + hour)) ''a'' l' = Some (Inr [1], l'')"
    by (rule promoted_value_lives_an_hour)
      (simp_all add: fair_env_at, simp_all add: l2 mc_Get_def IsExpired_def new_entry_def time_add_def
        is_zero_time_def env_at_def fresh)
  then show ?thesis
    by (simp add: l2 mc_Get_def IsExpired_def new_entry_def time_add_def is_zero_time_def)
qed

text \<open>
  The cache key of one request depends on the order in which the header map is ranged
  over: two headers whose concatenations differ give, for a digest that tells the two byte
  strings apart, two different keys under two orders.
\<close>
lemma cache_key_depends_on_map_order:
  assumes "n1 @ v1 @ n2 @ v2 \<noteq> n2 @ v2 @ n1 @ v1"
    and "md5 (m @ u @ n1 @ v1 @ n2 @ v2) \<noteq> md5 (m @ u @ n2 @ v2 @ n1 @ v1)"
  shows "\<exists>sh sh'. is_shuffle sh \<and> is_shuffle sh' \<and>
     CacheKey_String md5 sh (NewCacheKey m u [(n1, v1), (n2, v2)]) \<noteq>
     CacheKey_String md5 sh' (NewCacheKey m u [(n1, v1), (n2, v2)])"
proof (intro exI conjI)
  show "is_shuffle (\<lambda>xs :: (string \<times> string) list. xs)" by (rule is_shuffle_id)
  show "is_shuffle (rev :: (string \<times> string) list \<Rightarrow> _)" by (rule is_shuffle_rev)
qed (use assms in \<open>simp add: CacheKey_String_def hex_bytes_inj key_bytes_def NewCacheKey_def\<close>)

text \<open>A digest for the witness: the codes of the characters.\<close>

definition codes :: "string \<Rightarrow> bytes" where
  "codes s = map (\<lambda>c. of_nat (of_char c)) s"

lemma cache_key_depends_on_map_order_witness:
  "\<exists>sh sh'. is_shuffle sh \<and> is_shuffle sh' \<and>
     CacheKey_String codes sh (NewCacheKey ''GET'' ''/'' [(''A'', ''1''), (''B'', ''2'')]) \<noteq>
     CacheKey_String codes sh' (NewCacheKey ''GET'' ''/'' [(''A'', ''1''), (''B'', ''2'')])"
  by (rule cache_key_depends_on_map_order) (simp_all add: codes_def)

text \<open>The fields are written without separators, so different requests share a key.\<close>

lemma cache_key_conflates_requests:
  assumes "is_shuffle sh"
  shows "CacheKey_String md5 sh (NewCacheKey m u [(n, v)]) = CacheKey_String md5 sh (NewCacheKey m (u @ n @ v) [])"
proof -
  have "mset (sh [(n, v)]) = {#(n, v)#}" "mset (sh ([] :: (string \<times> string) list)) = {#}"
    using assms by (simp_all add: is_shuffle_def)
  then show ?thesis by (simp add: CacheKey_String_def key_bytes_def NewCacheKey_def)
qed

end
