(* ===== verification/RateLimiter.thy ===== *)
theory RateLimiter
  imports Errors
begin

text \<open>
  Package \<open>pkg/limits\<close>, what its rate limiters share: the interface as a locale and the loop
  of \<open>WaitN\<close>, which the limiters write out with their own pause.
\<close>

section \<open>The loop of WaitN\<close>

text \<open>
  One round of the loop: the instants at which it asks and at which it computes its pause,
  what other callers do to the limiter before the pause is computed and while it lasts, and
  whether the timer fires or the context ends.
\<close>

datatype wake = Fired | CtxDone go_error

record 's round =
  r_ask :: time
  r_before :: "'s \<Rightarrow> 's"
  r_pause :: time
  r_during :: "'s \<Rightarrow> 's"
  r_wake :: wake

text \<open>\<open>Waiting\<close> is a loop still running after the given rounds; \<open>Panicked\<close> a division by zero.\<close>

datatype outcome = Returned "go_error option" | Waiting | Panicked

definition cancelled :: "go_error \<Rightarrow> go_error" where
  "cancelled err = NewWithCause TimeoutError ''rate limit wait cancelled'' (Some err)"

fun wait_loop :: "(time \<Rightarrow> int \<Rightarrow> 's \<Rightarrow> bool \<times> 's) \<Rightarrow> (time \<Rightarrow> int \<Rightarrow> 's \<Rightarrow> (duration \<times> 's) option) \<Rightarrow>
    int \<Rightarrow> 's round list \<Rightarrow> 's \<Rightarrow> outcome \<times> 's" where
  "wait_loop allow pause n [] s = (Waiting, s)"
| "wait_loop allow pause n (r # rs) s =
     (let (ok, s) = allow (r_ask r) n s
      in if ok then (Returned None, s)
         else case pause (r_pause r) n (r_before r s) of
                None \<Rightarrow> (Panicked, r_before r s)
              | Some (d, s) \<Rightarrow>
                  (case r_wake r of
                     Fired \<Rightarrow> wait_loop allow pause n rs (r_during r s)
                   | CtxDone err \<Rightarrow> (Returned (Some (cancelled err)), s)))"

section \<open>The contract\<close>

text \<open>
  \<open>admissible n s\<close>: a request for \<open>n\<close> can ever be granted.  Requests are counted in 64-bit
  integers; \<open>countable\<close> keeps sums of two of them in range.
\<close>

definition countable_n :: "int \<Rightarrow> bool" where
  "countable_n n \<longleftrightarrow> 0 \<le> n \<and> n < 2 ^ 62"

text \<open>Other callers: requests they make, one after the other.\<close>

definition requests_of :: "(time \<Rightarrow> int \<Rightarrow> 's \<Rightarrow> bool \<times> 's) \<Rightarrow> (time \<times> int) list \<Rightarrow> 's \<Rightarrow> 's" where
  "requests_of allow cs s = fold (\<lambda>(t, n) s. snd (allow t n s)) cs s"

definition round_with :: "(time \<Rightarrow> int \<Rightarrow> 's \<Rightarrow> bool \<times> 's) \<Rightarrow> time \<Rightarrow> (time \<times> int) list \<Rightarrow> time \<Rightarrow> (time \<times> int) list \<Rightarrow>
    wake \<Rightarrow> 's round" where
  "round_with allow t1 cs t2 ds w = \<lparr>r_ask = t1, r_before = requests_of allow cs, r_pause = t2,
     r_during = requests_of allow ds, r_wake = w\<rparr>"

definition countable_calls :: "(time \<times> int) list \<Rightarrow> bool" where
  "countable_calls cs \<longleftrightarrow> (\<forall>(t, n) \<in> set cs. countable_n n)"

locale rate_limiter =
  fixes allow :: "time \<Rightarrow> int \<Rightarrow> 's \<Rightarrow> bool \<times> 's"
    and pause :: "time \<Rightarrow> int \<Rightarrow> 's \<Rightarrow> (duration \<times> 's) option"
    and good :: "'s \<Rightarrow> bool"
    and admissible :: "int \<Rightarrow> 's \<Rightarrow> bool"
  assumes allow_good: "good s \<Longrightarrow> countable_n n \<Longrightarrow> good (snd (allow t n s))"
    and allow_admissible: "good s \<Longrightarrow> countable_n n \<Longrightarrow> admissible m (snd (allow t n s)) = admissible m s"
    and granted: "good s \<Longrightarrow> countable_n n \<Longrightarrow> fst (allow t n s) \<Longrightarrow> admissible n s"
    and pause_good: "good s \<Longrightarrow> pause t n s = Some (d, s') \<Longrightarrow> good s' \<and> (\<forall>m. admissible m s' = admissible m s)"
begin

definition polite :: "('s \<Rightarrow> 's) \<Rightarrow> bool" where
  "polite f \<longleftrightarrow> (\<forall>s. good s \<longrightarrow> good (f s) \<and> (\<forall>m. admissible m (f s) = admissible m s))"

lemma polite_id: "polite (\<lambda>s. s)"
  by (simp add: polite_def)

lemma polite_allow: "countable_n n \<Longrightarrow> polite (\<lambda>s. snd (allow t n s))"
  by (simp add: polite_def allow_good allow_admissible)

lemma polite_requests: "countable_calls cs \<Longrightarrow> polite (requests_of allow cs)"
proof (induction cs)
  case Nil
  then show ?case by (simp add: requests_of_def polite_def)
next
  case (Cons c cs)
  obtain t n where c: "c = (t, n)" by (cases c)
  with Cons.prems have n: "countable_n n" and cs: "countable_calls cs" by (simp_all add: countable_calls_def)
  have "requests_of allow (c # cs) = (\<lambda>s. requests_of allow cs (snd (allow t n s)))"
    by (simp add: requests_of_def c fun_eq_iff)
  with polite_allow [OF n, of t] Cons.IH [OF cs] show ?case by (simp add: polite_def)
qed

lemma wait_never_returns:
  assumes "good s" "countable_n n" "\<not> admissible n s"
    "\<forall>r \<in> set rs. polite (r_before r) \<and> polite (r_during r)"
  shows "fst (wait_loop allow pause n rs s) \<noteq> Returned None"
  using assms(1,3,4)
proof (induction rs arbitrary: s)
  case (Cons r rs)
  obtain ok s1 where allow: "allow (r_ask r) n s = (ok, s1)" by (cases "allow (r_ask r) n s")
  have s1: "good s1" "\<not> admissible n s1" "\<not> ok"
    using allow_good [OF Cons.prems(1) assms(2), of "r_ask r"] allow_admissible [OF Cons.prems(1) assms(2), of n "r_ask r"]
      granted [OF Cons.prems(1) assms(2), of "r_ask r"] allow Cons.prems(2) by auto
  have before: "good (r_before r s1)" "\<not> admissible n (r_before r s1)"
    using Cons.prems(3) s1 by (simp_all add: polite_def)
  show ?case
  proof (cases "pause (r_pause r) n (r_before r s1)")
    case None
    with allow s1(3) show ?thesis by simp
  next
    case (Some p)
    obtain d s2 where p: "p = (d, s2)" by (cases p)
    from pause_good [OF before(1)] Some p before(2) have s2: "good s2" "\<not> admissible n s2" by auto
    then have "good (r_during r s2)" "\<not> admissible n (r_during r s2)"
      using Cons.prems(3) by (simp_all add: polite_def)
    from Cons.IH [OF this] Cons.prems(3) allow s1(3) Some p show ?thesis by (simp split: wake.splits)
  qed
qed simp

lemma wait_error:
  assumes "fst (wait_loop allow pause n rs s) = Returned (Some err)"
  shows "\<exists>r \<in> set rs. \<exists>cause. r_wake r = CtxDone cause \<and> err = cancelled cause"
  using assms
proof (induction rs arbitrary: s)
  case (Cons r rs)
  then show ?case by (auto simp: Let_def split: prod.splits if_splits option.splits wake.splits)
qed simp

end

end
