(* ===== verification/GoFloat.thy ===== *)
theory GoFloat
  imports GoLib "HOL-Library.Log_Nat"
begin

text \<open>
  The one use of floating point in the program: \<open>int64(d.Seconds())\<close>.  A \<open>float64\<close> is the
  rational it denotes, and an operation rounds its exact result to 53 significant bits, ties
  to even (\<open>fl\<close>); the values that occur are far from overflow and from the subnormal range.
\<close>

section \<open>Rounding\<close>

definition rne :: "rat \<Rightarrow> int" where
  "rne x = (let f = \<lfloor>x\<rfloor>; d = x - of_int f
            in if d < 1 / 2 then f else if d > 1 / 2 then f + 1 else if even f then f else f + 1)"

text \<open>The exponent of the last of the 53 bits of a positive number.\<close>

definition last_bit :: "rat \<Rightarrow> int" where
  "last_bit x = (if x \<ge> 1 then int (floorlog 2 (nat \<lfloor>x\<rfloor>)) - 1 else - int (floorlog 2 (nat (\<lceil>1 / x\<rceil> - 1)))) - 52"

definition two_pow :: "int \<Rightarrow> rat" where
  "two_pow e = (if 0 \<le> e then 2 ^ nat e else 1 / 2 ^ nat (- e))"

definition fl :: "rat \<Rightarrow> rat" where
  "fl x = (if x = 0 then 0
           else let e = last_bit \<bar>x\<bar>; m = of_int (rne (\<bar>x\<bar> / two_pow e)) * two_pow e
                in if x < 0 then - m else m)"

text \<open>Truncation: Go's integer division and its conversion of a float to \<open>int64\<close>.\<close>

definition trunc :: "rat \<Rightarrow> int" where
  "trunc x = (if x < 0 then - \<lfloor>- x\<rfloor> else \<lfloor>x\<rfloor>)"

definition Seconds :: "duration \<Rightarrow> rat" where
  "Seconds d = (let sec = (if d < 0 then - (- d div second) else d div second); nsec = d - sec * second
                in fl (fl (of_int sec) + fl (fl (of_int nsec) / 1000000000)))"

definition whole_seconds :: "duration \<Rightarrow> int" where
  "whole_seconds d = trunc (Seconds d)"

section \<open>The rounded seconds of a duration under 97 days\<close>

lemma rne_ge: "of_int k \<le> x \<Longrightarrow> k \<le> rne x"
  unfolding rne_def Let_def by (simp add: le_floor_iff [symmetric] split: if_splits)

lemma rne_le: "x \<le> of_int k \<Longrightarrow> rne x \<le> k"
proof -
  assume le: "x \<le> of_int k"
  then have "\<lfloor>x\<rfloor> \<le> k" by linarith
  moreover have "\<lfloor>x\<rfloor> < k" if "x - of_int \<lfloor>x\<rfloor> \<ge> 1 / 2" using that le by linarith
  ultimately show ?thesis by (auto simp: rne_def Let_def)
qed

lemma two_pow_pos [simp]: "0 < two_pow e"
  by (simp add: two_pow_def)

lemma two_pow_split: "e \<le> e' \<Longrightarrow> two_pow e' = of_int (2 ^ nat (e' - e)) * two_pow e"
proof -
  assume "e \<le> e'"
  show ?thesis
  proof (cases "0 \<le> e")
    case True
    with \<open>e \<le> e'\<close> have "nat e' = nat (e' - e) + nat e" by simp
    with True \<open>e \<le> e'\<close> show ?thesis by (simp add: two_pow_def power_add)
  next
    case False
    show ?thesis
    proof (cases "0 \<le> e'")
      case True
      with False have "nat (e' - e) = nat e' + nat (- e)" by simp
      with True False show ?thesis by (simp add: two_pow_def power_add)
    next
      case nonneg: False
      with \<open>e \<le> e'\<close> have "nat (- e) = nat (e' - e) + nat (- e')" by simp
      with nonneg False show ?thesis by (simp add: two_pow_def power_add)
    qed
  qed
qed

text \<open>Rounding keeps every multiple of \<open>2 ^ e'\<close> on its side, where \<open>e'\<close> is no finer than the last bit.\<close>

lemma fl_ge:
  assumes "of_int k * two_pow e' \<le> x" "0 < x" "last_bit x \<le> e'"
  shows "of_int k * two_pow e' \<le> fl x"
proof -
  let ?e = "last_bit x"
  have eq: "of_int k * two_pow e' = of_int (k * 2 ^ nat (e' - ?e)) * two_pow ?e"
    using two_pow_split [OF assms(3)] by simp
  have "of_int (k * 2 ^ nat (e' - ?e)) \<le> x / two_pow ?e"
    using assms(1) unfolding eq by (simp add: pos_le_divide_eq)
  from rne_ge [OF this] have "(of_int (k * 2 ^ nat (e' - ?e)) :: rat) \<le> of_int (rne (x / two_pow ?e))"
    by (simp only: of_int_le_iff)
  then have "of_int (k * 2 ^ nat (e' - ?e)) * two_pow ?e \<le> of_int (rne (x / two_pow ?e)) * two_pow ?e"
    by (rule mult_right_mono) (simp add: less_imp_le)
  then show ?thesis unfolding eq using assms(2) by (simp only: fl_def Let_def abs_of_pos) simp
qed

lemma fl_le:
  assumes "x \<le> of_int k * two_pow e'" "0 < x" "last_bit x \<le> e'"
  shows "fl x \<le> of_int k * two_pow e'"
proof -
  let ?e = "last_bit x"
  have eq: "of_int k * two_pow e' = of_int (k * 2 ^ nat (e' - ?e)) * two_pow ?e"
    using two_pow_split [OF assms(3)] by simp
  have "x / two_pow ?e \<le> of_int (k * 2 ^ nat (e' - ?e))"
    using assms(1) unfolding eq by (simp add: pos_divide_le_eq)
  from rne_le [OF this] have "(of_int (rne (x / two_pow ?e)) :: rat) \<le> of_int (k * 2 ^ nat (e' - ?e))"
    by (simp only: of_int_le_iff)
  then have "of_int (rne (x / two_pow ?e)) * two_pow ?e \<le> of_int (k * 2 ^ nat (e' - ?e)) * two_pow ?e"
    by (rule mult_right_mono) (simp add: less_imp_le)
  then show ?thesis unfolding eq using assms(2) by (simp only: fl_def Let_def abs_of_pos) simp
qed

lemma last_bit_bound:
  assumes "0 < x" "x < 2 ^ n"
  shows "last_bit x \<le> int n - 53"
proof (cases "x \<ge> 1")
  case True
  then have "of_int \<lfloor>x\<rfloor> < (2 ^ n :: rat)" using assms(2) by (meson le_less_trans of_int_floor_le)
  then have "\<lfloor>x\<rfloor> < 2 ^ n" by (metis of_int_less_iff of_int_numeral of_int_power)
  then have "nat \<lfloor>x\<rfloor> < 2 ^ n" using True by (simp add: nat_less_iff)
  then have "floorlog 2 (nat \<lfloor>x\<rfloor>) \<le> n" by (intro floorlog_leI) simp_all
  with True show ?thesis by (simp add: last_bit_def)
next
  case False
  with assms(1) have "1 < 1 / x" by simp
  then have "2 \<le> \<lceil>1 / x\<rceil>" by linarith
  then have "0 < floorlog 2 (nat (\<lceil>1 / x\<rceil> - 1))" by (simp add: floorlog_def)
  with False show ?thesis by (simp add: last_bit_def)
qed

lemma two_pow_0 [simp]: "two_pow 0 = 1"
  by (simp add: two_pow_def)

lemma fl_int:
  assumes "0 \<le> n" "n < 2 ^ 53"
  shows "fl (of_int n) = of_int n"
proof (cases "n = 0")
  case False
  have "(of_int n :: rat) < 2 ^ 53" using assms(2) by (metis of_int_less_iff of_int_numeral of_int_power)
  with False assms(1) have "last_bit (of_int n) \<le> 0" using last_bit_bound [of "of_int n" 53] by simp
  with False assms(1) fl_ge [of n 0 "of_int n"] fl_le [of "of_int n" n 0] show ?thesis by simp
qed (simp add: fl_def)

lemma fl_bounds:
  assumes "of_int s \<le> x" "x \<le> of_int s + 1 - 1 / 2 ^ 30" "0 \<le> s" "s < 2 ^ 23"
  shows "of_int s \<le> fl x \<and> fl x \<le> of_int s + 1 - 1 / 2 ^ 30"
proof (cases "x = 0")
  case True
  with assms have "s = 0" by simp
  with True show ?thesis by (simp add: fl_def)
next
  case False
  with assms(1,3) have pos: "0 < x" by (metis of_int_0_le_iff order_le_less order_trans)
  have s: "(of_int s :: rat) \<le> 2 ^ 23 - 1"
    using assms(4) of_int_le_iff [of s "2 ^ 23 - 1", where ?'a = rat] by simp
  then have "x < 2 ^ 23" using assms(2) by simp
  from last_bit_bound [OF pos this] have lb: "last_bit x \<le> - 30" by simp
  have pow: "two_pow (- 30) = 1 / 2 ^ 30" by (simp add: two_pow_def)
  have low: "of_int (s * 2 ^ 30) * two_pow (- 30) = of_int s" unfolding pow by simp
  have "(of_int ((s + 1) * 2 ^ 30 - 1) :: rat) = (of_int s + 1) * 2 ^ 30 - 1" by simp
  then have high: "of_int ((s + 1) * 2 ^ 30 - 1) * two_pow (- 30) = of_int s + 1 - 1 / 2 ^ 30"
    unfolding pow by (simp add: field_simps)
  show ?thesis
    using fl_ge [of "s * 2 ^ 30" "- 30" x, unfolded low, OF assms(1) pos lb]
      fl_le [of x "(s + 1) * 2 ^ 30 - 1" "- 30", unfolded high, OF assms(2) pos lb] by simp
qed

theorem whole_seconds_exact:
  assumes "0 \<le> d" "d < 2 ^ 23 * second"
  shows "whole_seconds d = d div second"
proof -
  let ?s = "d div second" and ?n = "d mod second"
  have s: "0 \<le> ?s" "?s < 2 ^ 23" using assms by (simp_all add: div_less_iff_less_mult)
  have n: "0 \<le> ?n" "?n \<le> second - 1" using pos_mod_bound [of second d] by simp_all
  have eq: "d - d div second * second = d mod second" by (simp add: minus_div_mult_eq_mod)
  have fs: "fl (of_int ?s) = of_int ?s" using s by (intro fl_int) simp_all
  have fn: "fl (of_int ?n) = of_int ?n" using n by (intro fl_int) simp_all
  have "(of_int ?n :: rat) \<le> of_int (second - 1)" using n(2) by (simp only: of_int_le_iff)
  then have q: "0 \<le> (of_int ?n :: rat) / 1000000000" "(of_int ?n :: rat) / 1000000000 \<le> 1 - 1 / 2 ^ 30"
    using n(1) by simp_all
  have "0 \<le> fl (of_int ?n / 1000000000) \<and> fl (of_int ?n / 1000000000) \<le> 1 - 1 / 2 ^ 30"
    using fl_bounds [of 0 "of_int ?n / 1000000000"] q by simp
  then have "of_int ?s \<le> fl (of_int ?s + fl (of_int ?n / 1000000000)) \<and>
      fl (of_int ?s + fl (of_int ?n / 1000000000)) \<le> of_int ?s + 1 - 1 / 2 ^ 30"
    by (intro fl_bounds s) simp_all
  moreover have "Seconds d = fl (of_int ?s + fl (of_int ?n / 1000000000))"
    unfolding Seconds_def Let_def using assms(1) by (simp only: if_not_P [of "d < 0"] not_less eq fs fn)
  ultimately have sec: "of_int ?s \<le> Seconds d" "Seconds d < of_int ?s + 1"
    by (auto intro: le_less_trans)
  then have "0 \<le> Seconds d" using s(1) by (metis of_int_0_le_iff order_trans)
  with sec show ?thesis by (auto simp: whole_seconds_def trunc_def floor_unique)
qed

end
