(* ===== verification/TokenBucket.thy ===== *)
theory TokenBucket
  imports RateLimiter GoFloat
begin

text \<open>
  Package \<open>pkg/limits\<close>, the token bucket.  Each method runs under the limiter's lock and
  reads the clock once; the instant is an argument.  Tokens are 64-bit integers.
\<close>

record token_bucket =
  capacity :: int
  tokens :: int
  refillRate :: int
  lastRefill :: time

definition NewTokenBucket :: "time \<Rightarrow> int \<Rightarrow> int \<Rightarrow> token_bucket" where
  "NewTokenBucket now cap rate = \<lparr>capacity = cap, tokens = cap, refillRate = rate, lastRefill = now\<rparr>"

definition refill :: "time \<Rightarrow> token_bucket \<Rightarrow> token_bucket" where
  "refill now tb =
     (let elapsed = time_sub now (lastRefill tb);
          tokensToAdd = i64 (whole_seconds elapsed * refillRate tb)
      in if tokensToAdd > 0
         then let tb = tb\<lparr>tokens := i64 (tokens tb + tokensToAdd)\<rparr>;
                  tb = (if tokens tb > capacity tb then tb\<lparr>tokens := capacity tb\<rparr> else tb)
              in tb\<lparr>lastRefill := now\<rparr>
         else tb)"

definition tb_AllowN :: "time \<Rightarrow> int \<Rightarrow> token_bucket \<Rightarrow> bool \<times> token_bucket" where
  "tb_AllowN now n tb =
     (let tb = refill now tb
      in if tokens tb \<ge> n then (True, tb\<lparr>tokens := i64 (tokens tb - n)\<rparr>) else (False, tb))"

definition tb_Allow :: "time \<Rightarrow> token_bucket \<Rightarrow> bool \<times> token_bucket" where
  "tb_Allow now tb = tb_AllowN now 1 tb"

text \<open>\<open>None\<close> is the run-time panic of a division by zero.\<close>

definition calculateWaitTime :: "time \<Rightarrow> int \<Rightarrow> token_bucket \<Rightarrow> (duration \<times> token_bucket) option" where
  "calculateWaitTime now needed tb =
     (let tb = refill now tb; deficit = i64 (needed - tokens tb)
      in if deficit \<le> 0 then Some (0, tb)
         else if refillRate tb = 0 then None
         else Some (i64 (i64 (deficit sdiv refillRate tb) * second), tb))"

definition GetTokens :: "time \<Rightarrow> token_bucket \<Rightarrow> int \<times> token_bucket" where
  "GetTokens now tb = (let tb = refill now tb in (tokens tb, tb))"

definition tb_WaitN :: "int \<Rightarrow> token_bucket round list \<Rightarrow> token_bucket \<Rightarrow> outcome \<times> token_bucket" where
  "tb_WaitN n rs tb = wait_loop tb_AllowN calculateWaitTime n rs tb"

definition tb_Wait :: "token_bucket round list \<Rightarrow> token_bucket \<Rightarrow> outcome \<times> token_bucket" where
  "tb_Wait rs tb = tb_WaitN 1 rs tb"

section \<open>The bucket meets the limiter's contract\<close>

text \<open>A refill never exceeds the capacity, whatever overflows: the sum is capped or wraps below.\<close>

definition tb_good :: "token_bucket \<Rightarrow> bool" where
  "tb_good tb \<longleftrightarrow> in_i64 (tokens tb) \<and> tokens tb \<le> capacity tb \<and> in_i64 (capacity tb)"

lemma refill_frame [simp]:
  "capacity (refill now tb) = capacity tb" "refillRate (refill now tb) = refillRate tb"
  by (simp_all add: refill_def Let_def)

lemma refill_good: "tb_good tb \<Longrightarrow> tb_good (refill now tb)"
  using i64_range by (auto simp: tb_good_def refill_def Let_def)

lemma tb_AllowN_good:
  assumes "tb_good tb" "0 \<le> n"
  shows "tb_good (snd (tb_AllowN now n tb))"
proof (cases "tokens (refill now tb) \<ge> n")
  case True
  have "tb_good (refill now tb)" by (rule refill_good [OF assms(1)])
  with True assms(2) have "in_i64 (tokens (refill now tb) - n)"
    by (simp add: tb_good_def in_i64_def)
  with True assms(2) refill_good [OF assms(1), of now] show ?thesis
    by (simp add: tb_AllowN_def Let_def tb_good_def i64_id)
next
  case False
  with refill_good [OF assms(1), of now] show ?thesis by (simp add: tb_AllowN_def Let_def)
qed

interpretation tb: rate_limiter tb_AllowN calculateWaitTime tb_good "\<lambda>n tb. n \<le> capacity tb"
proof unfold_locales
  fix s n t m d s'
  assume s: "tb_good s"
  show "tb_good s' \<and> (\<forall>m. (m \<le> capacity s') = (m \<le> capacity s))" if "calculateWaitTime t n s = Some (d, s')"
    using that refill_good [OF s] by (auto simp: calculateWaitTime_def Let_def split: if_splits)
  assume n: "countable_n n"
  show "tb_good (snd (tb_AllowN t n s))"
    using tb_AllowN_good [OF s] n by (simp add: countable_n_def)
  show "(m \<le> capacity (snd (tb_AllowN t n s))) = (m \<le> capacity s)"
    by (simp add: tb_AllowN_def Let_def)
  show "n \<le> capacity s" if "fst (tb_AllowN t n s)"
    using that refill_good [OF s, of t] by (auto simp: tb_AllowN_def Let_def tb_good_def split: if_splits)
qed

section \<open>The rate\<close>

text \<open>
  A use of the bucket: requests, and calls of the methods that only look (\<open>GetTokens\<close> and
  the computation of a pause), which refill it too.  \<open>tb_run\<close> adds up what is granted.
\<close>

datatype tb_event = Ask (instant: time) int | Look (instant: time)

fun tb_step :: "tb_event \<Rightarrow> token_bucket \<Rightarrow> int \<times> token_bucket" where
  "tb_step (Ask t n) tb = (let (ok, tb) = tb_AllowN t n tb in (if ok then n else 0, tb))"
| "tb_step (Look t) tb = (0, snd (GetTokens t tb))"

fun tb_run :: "tb_event list \<Rightarrow> token_bucket \<Rightarrow> int \<times> token_bucket" where
  "tb_run [] tb = (0, tb)"
| "tb_run (e # es) tb = (let (g, tb) = tb_step e tb; (gs, tb) = tb_run es tb in (g + gs, tb))"

fun paced :: "time \<Rightarrow> tb_event list \<Rightarrow> bool" where
  "paced t [] \<longleftrightarrow> True"
| "paced t (e # es) \<longleftrightarrow> t \<le> instant e \<and> instant e - t \<le> 2 ^ 22 * second \<and>
     (case e of Ask _ n \<Rightarrow> 0 \<le> n | Look _ \<Rightarrow> True) \<and> paced (instant e) es"

fun last_at :: "time \<Rightarrow> tb_event list \<Rightarrow> time" where
  "last_at t [] = t"
| "last_at t (e # es) = last_at (instant e) es"

definition sane :: "token_bucket \<Rightarrow> bool" where
  "sane tb \<longleftrightarrow> 0 < refillRate tb \<and> 0 \<le> capacity tb \<and> capacity tb + 2 ^ 23 * refillRate tb < 2 ^ 63"

definition fresh :: "time \<Rightarrow> token_bucket \<Rightarrow> bool" where
  "fresh t tb \<longleftrightarrow> sane tb \<and> 0 \<le> tokens tb \<and> tokens tb \<le> capacity tb \<and>
     lastRefill tb \<le> t \<and> t - lastRefill tb < second"

lemma refill_step:
  assumes "fresh t tb" "t \<le> now" "now - t \<le> 2 ^ 22 * second"
  shows "fresh now (refill now tb)"
    "tokens (refill now tb) \<le> tokens tb + refillRate tb * ((lastRefill (refill now tb) - lastRefill tb) div second)"
    "tokens tb \<le> tokens (refill now tb)" "lastRefill tb \<le> lastRefill (refill now tb)"
proof -
  let ?e = "now - lastRefill tb"
  let ?k = "?e div second"
  have e: "0 \<le> ?e" "?e < 2 ^ 23 * second" using assms by (auto simp: fresh_def)
  have sub: "time_sub now (lastRefill tb) = ?e" using e by (intro time_sub_exact) (simp add: in_i64_def)
  have secs: "whole_seconds ?e = ?k" by (rule whole_seconds_exact [OF e])
  have k: "0 \<le> ?k" "?k \<le> 2 ^ 23" using e by linarith+
  have rate: "0 < refillRate tb" "0 \<le> capacity tb" "capacity tb + 2 ^ 23 * refillRate tb < 2 ^ 63"
    using assms(1) by (simp_all add: fresh_def sane_def)
  have kr: "0 \<le> ?k * refillRate tb" "?k * refillRate tb \<le> 2 ^ 23 * refillRate tb"
    using k rate by (simp_all add: mult_right_mono)
  have tok: "0 \<le> tokens tb" "tokens tb \<le> capacity tb" using assms(1) by (simp_all add: fresh_def)
  have "in_i64 (?k * refillRate tb)" "in_i64 (tokens tb + ?k * refillRate tb)"
    unfolding in_i64_def using kr rate(2,3) tok by linarith+
  then have add: "i64 (?k * refillRate tb) = ?k * refillRate tb"
    "i64 (tokens tb + ?k * refillRate tb) = tokens tb + ?k * refillRate tb"
    by (simp_all only: i64_id)
  have pos: "0 < ?k * refillRate tb \<longleftrightarrow> 0 < ?k" using rate(1) k(1) by (simp add: zero_less_mult_iff)
  have eq: "refill now tb =
      (if 0 < ?k then tb\<lparr>tokens := min (capacity tb) (tokens tb + ?k * refillRate tb), lastRefill := now\<rparr> else tb)"
    by (simp add: refill_def Let_def sub secs add pos min_def)
  have small: "?e < second" if "\<not> 0 < ?k" using that k(1) e(1) by (simp add: pos_imp_zdiv_pos_iff)
  show "fresh now (refill now tb)"
  proof (cases "0 < ?k")
    case True
    have "0 \<le> min (capacity tb) (tokens tb + ?k * refillRate tb)" using tok kr(1) by simp
    with True rate show ?thesis unfolding eq by (simp only: fresh_def sane_def if_True token_bucket.simps) simp
  next
    case False
    with assms(1) small [OF False] e(1) show ?thesis unfolding eq by (simp only: fresh_def if_False) simp
  qed
  show "tokens (refill now tb) \<le> tokens tb + refillRate tb * ((lastRefill (refill now tb) - lastRefill tb) div second)"
    unfolding eq by (simp add: mult.commute)
  show "tokens tb \<le> tokens (refill now tb)" unfolding eq using tok kr(1) by simp
  show "lastRefill tb \<le> lastRefill (refill now tb)" unfolding eq using e(1) by simp
qed

lemma tb_step_rate:
  assumes "fresh t tb" "t \<le> instant e" "instant e - t \<le> 2 ^ 22 * second" "case e of Ask _ n \<Rightarrow> 0 \<le> n | Look _ \<Rightarrow> True"
    "tb_step e tb = (g, tb')"
  shows "fresh (instant e) tb'" "g + tokens tb' \<le> tokens tb + refillRate tb * ((lastRefill tb' - lastRefill tb) div second)"
    "lastRefill tb \<le> lastRefill tb'" "capacity tb' = capacity tb" "refillRate tb' = refillRate tb"
proof -
  note r = refill_step [OF assms(1-3)]
  have "fresh (instant e) tb' \<and> g + tokens tb' = tokens (refill (instant e) tb) \<and> lastRefill tb' = lastRefill (refill (instant e) tb) \<and>
      capacity tb' = capacity tb \<and> refillRate tb' = refillRate tb"
  proof (cases e)
    case (Look now)
    with assms(5) r(1) show ?thesis by (auto simp: GetTokens_def Let_def)
  next
    case (Ask now n)
    show ?thesis
    proof (cases "tokens (refill now tb) \<ge> n")
      case True
      with Ask r(1) assms(4) have "i64 (tokens (refill now tb) - n) = tokens (refill now tb) - n"
        by (intro i64_id) (auto simp: fresh_def sane_def in_i64_def)
      with True Ask assms(4,5) r(1) show ?thesis by (auto simp: tb_AllowN_def Let_def fresh_def sane_def)
    next
      case False
      with Ask assms(5) r(1) show ?thesis by (auto simp: tb_AllowN_def Let_def)
    qed
  qed
  with r show "fresh (instant e) tb'" "g + tokens tb' \<le> tokens tb + refillRate tb * ((lastRefill tb' - lastRefill tb) div second)"
    "lastRefill tb \<le> lastRefill tb'" "capacity tb' = capacity tb" "refillRate tb' = refillRate tb" by auto
qed

lemma div_add_le: "(x :: int) div second + y div second \<le> (x + y) div second"
  by linarith

lemma tb_run_rate:
  assumes "fresh t tb" "paced t es" "tb_run es tb = (g, tb')"
  shows "fresh (last_at t es) tb' \<and> capacity tb' = capacity tb \<and> refillRate tb' = refillRate tb \<and>
     lastRefill tb \<le> lastRefill tb' \<and>
     g + tokens tb' \<le> tokens tb + refillRate tb * ((lastRefill tb' - lastRefill tb) div second)"
  using assms
proof (induction es arbitrary: t tb g)
  case (Cons e es)
  obtain g1 tb1 where step: "tb_step e tb = (g1, tb1)" by (cases "tb_step e tb")
  obtain g2 where rest: "tb_run es tb1 = (g2, tb')" "g = g1 + g2"
    using Cons.prems(3) step by (auto simp: Let_def split: prod.splits)
  have p: "t \<le> instant e" "instant e - t \<le> 2 ^ 22 * second" "case e of Ask _ n \<Rightarrow> 0 \<le> n | Look _ \<Rightarrow> True" "paced (instant e) es"
    using Cons.prems(2) by simp_all
  note s = tb_step_rate [OF Cons.prems(1) p(1-3) step]
  from Cons.IH [OF s(1) p(4) rest(1)] have IH: "fresh (last_at (instant e) es) tb'" "capacity tb' = capacity tb1"
    "refillRate tb' = refillRate tb1" "lastRefill tb1 \<le> lastRefill tb'"
    "g2 + tokens tb' \<le> tokens tb1 + refillRate tb1 * ((lastRefill tb' - lastRefill tb1) div second)" by simp_all
  have "(lastRefill tb1 - lastRefill tb) div second + (lastRefill tb' - lastRefill tb1) div second
      \<le> (lastRefill tb' - lastRefill tb) div second"
    using div_add_le [of "lastRefill tb1 - lastRefill tb" "lastRefill tb' - lastRefill tb1"] by simp
  then have "refillRate tb * ((lastRefill tb1 - lastRefill tb) div second + (lastRefill tb' - lastRefill tb1) div second)
      \<le> refillRate tb * ((lastRefill tb' - lastRefill tb) div second)"
    using Cons.prems(1) by (intro mult_left_mono) (auto simp: fresh_def sane_def)
  with s IH rest(2) show ?case by (auto simp: distrib_left)
qed simp


section \<open>Properties\<close>

text \<open>
  C24: The rate.  In any stretch of requests, whatever came before it, a bucket grants no more
  than its capacity plus its rate for each second of the stretch and one, and its tokens stay
  between zero and the capacity.  Requests are for at least nothing (one for less mints tokens:
  lemma \<open>negative_request_mints_tokens\<close>), calls are at most 48 days apart (the float of the elapsed
  seconds is then exact) and the numbers stay within 64 bits.
\<close>
theorem token_bucket_rate:
  assumes "0 < rate" "0 \<le> cap" "cap + 2 ^ 23 * rate < 2 ^ 63" "paced t0 (xs @ ys)"
  shows "let (g0, tb) = tb_run xs (NewTokenBucket t0 cap rate); (g, tb') = tb_run ys tb
     in g \<le> cap + rate * ((last_at t0 (xs @ ys) - last_at t0 xs) div second + 1) \<and>
        0 \<le> tokens tb' \<and> tokens tb' \<le> cap"
proof -
  let ?new = "NewTokenBucket t0 cap rate"
  have new: "fresh t0 ?new" using assms(1-3) by (simp add: fresh_def sane_def NewTokenBucket_def)
  have split: "paced t0 xs \<and> paced (last_at t0 xs) ys \<and> last_at t0 (xs @ ys) = last_at (last_at t0 xs) ys"
    using assms(4) by (induction xs arbitrary: t0) auto
  obtain g0 tb where xs: "tb_run xs ?new = (g0, tb)" by (cases "tb_run xs ?new")
  obtain g tb' where ys: "tb_run ys tb = (g, tb')" by (cases "tb_run ys tb")
  have tb: "fresh (last_at t0 xs) tb" "capacity tb = cap" "refillRate tb = rate"
    using tb_run_rate [OF new _ xs] split by (simp_all add: NewTokenBucket_def)
  have tb': "fresh (last_at t0 (xs @ ys)) tb'" "capacity tb' = cap"
    "g + tokens tb' \<le> tokens tb + rate * ((lastRefill tb' - lastRefill tb) div second)"
    using tb_run_rate [OF tb(1) _ ys] split tb(2,3) by simp_all
  let ?T = "last_at t0 (xs @ ys)" and ?S = "last_at t0 xs"
  have "lastRefill tb' - lastRefill tb \<le> ?T - ?S + second"
    using tb(1) tb'(1) by (simp add: fresh_def)
  then have "(lastRefill tb' - lastRefill tb) div second \<le> (?T - ?S) div second + 1" by linarith
  then have "rate * ((lastRefill tb' - lastRefill tb) div second) \<le> rate * ((?T - ?S) div second + 1)"
    using assms(1) by (intro mult_left_mono) simp_all
  with tb tb' show ?thesis by (simp add: xs ys fresh_def)
qed

theorem token_bucket_rate_witness:
  "let (g0, tb) = tb_run [Ask 0 5] (NewTokenBucket 0 5 2); (g, tb') = tb_run [Ask (2 * second) 4, Look (3 * second)] tb
   in g \<le> 5 + 2 * ((last_at 0 ([Ask 0 5] @ [Ask (2 * second) 4, Look (3 * second)]) - last_at 0 [Ask 0 5]) div second + 1) \<and>
      0 \<le> tokens tb' \<and> tokens tb' \<le> 5"
  by (rule token_bucket_rate) simp_all

text \<open>
  C25: A bucket that is asked often refills too slowly: a refill counts whole seconds and then
  forgets the rest of the time elapsed.  An empty bucket looked at every
  \<open>second + rest\<close> nanoseconds, \<open>rest < second\<close>, gains only one second's worth each time.
\<close>
theorem polling_loses_fractions_of_seconds:
  assumes "0 < rate" "0 \<le> rest" "rest < second" "int k * rate \<le> cap" "cap + 2 ^ 23 * rate < 2 ^ 63"
  shows "tokens (snd (tb_run (map (\<lambda>i. Look (int (Suc i) * (second + rest))) [0..<k])
           \<lparr>capacity = cap, tokens = 0, refillRate = rate, lastRefill = 0\<rparr>)) = int k * rate"
proof -
  have "k' \<le> k \<Longrightarrow> tb_run (map (\<lambda>i. Look (int (Suc i) * (second + rest))) [k - k'..<k])
      \<lparr>capacity = cap, tokens = int (k - k') * rate, refillRate = rate, lastRefill = int (k - k') * (second + rest)\<rparr> =
      (0, \<lparr>capacity = cap, tokens = int k * rate, refillRate = rate, lastRefill = int k * (second + rest)\<rparr>)" for k'
  proof (induction k')
    case (Suc k')
    let ?j = "k - Suc k'"
    have j: "k - k' = Suc ?j" "?j < k" using Suc.prems by simp_all
    let ?tb = "\<lparr>capacity = cap, tokens = int ?j * rate, refillRate = rate, lastRefill = int ?j * (second + rest)\<rparr>"
    have elapsed: "time_sub (int (Suc ?j) * (second + rest)) (lastRefill ?tb) = second + rest"
      using assms(2,3) by (subst time_sub_exact) (simp_all add: in_i64_def algebra_simps)
    have "whole_seconds (second + rest) = (second + rest) div second"
      using assms(2,3) by (intro whole_seconds_exact) simp_all
    also have "\<dots> = 1" using assms(2,3) by linarith
    finally have secs: "whole_seconds (second + rest) = 1" .
    have "int (Suc ?j) * rate \<le> int k * rate" using j(2) assms(1) by (intro mult_right_mono) simp_all
    then have le: "int ?j * rate + rate \<le> cap" using assms(4) by (simp add: algebra_simps)
    have range: "in_i64 rate \<and> in_i64 (p + rate)" if "0 \<le> p" "p + rate \<le> cap" for p
      using that assms(1,5) by (simp add: in_i64_def)
    have "0 \<le> int ?j * rate" using assms(1) by simp
    from range [OF this le] have "in_i64 rate" "in_i64 (int ?j * rate + rate)" by simp_all
    then have "refill (int (Suc ?j) * (second + rest)) ?tb =
        \<lparr>capacity = cap, tokens = int (Suc ?j) * rate, refillRate = rate, lastRefill = int (Suc ?j) * (second + rest)\<rparr>"
      using le assms(1) unfolding refill_def Let_def elapsed secs by (simp add: i64_id algebra_simps)
    moreover have "[?j..<k] = ?j # [k - k'..<k]" unfolding j(1) by (rule upt_conv_Cons [OF j(2)])
    ultimately show ?case using Suc j(1) by (simp add: GetTokens_def Let_def)
  qed simp
  from this [of k] show ?thesis by simp
qed

theorem polling_loses_fractions_of_seconds_witness:
  "tokens (snd (tb_run (map (\<lambda>i. Look (int (Suc i) * (second + 999999999))) [0..<10])
     \<lparr>capacity = 100, tokens = 0, refillRate = 5, lastRefill = 0\<rparr>)) = int 10 * 5"
  by (rule polling_loses_fractions_of_seconds) simp_all

text \<open>A refill rate of zero makes the wait divide by zero.\<close>

lemma zero_rate_wait_panics:
  assumes "refillRate tb = 0" "tokens tb < n" "in_i64 (n - tokens tb)" "r_before r = (\<lambda>s. s)"
  shows "fst (tb_WaitN n (r # rs) tb) = Panicked"
proof -
  have "refill t tb = tb" for t using assms(1) by (simp add: refill_def Let_def)
  with assms show ?thesis
    by (simp add: tb_WaitN_def tb_AllowN_def calculateWaitTime_def Let_def i64_id)
qed

text \<open>A negative request is granted and adds tokens beyond the capacity.\<close>

lemma negative_request_mints_tokens:
  "tb_AllowN 0 (- 7) (NewTokenBucket 0 5 1) = (True, (NewTokenBucket 0 5 1)\<lparr>tokens := 12\<rparr>)"
proof -
  have "whole_seconds 0 = 0" by (subst whole_seconds_exact) simp_all
  then show ?thesis by (simp add: tb_AllowN_def refill_def NewTokenBucket_def time_sub_def i64_def Let_def)
qed

end
