(* ===== verification/Windows.thy ===== *)
theory Windows
  imports RateLimiter
begin

text \<open>
  Package \<open>pkg/limits\<close>, the limiters over windows of time: the sliding window, which keeps
  the instants of the granted requests, and the fixed window, which keeps a count and the
  start of the window.  Each method runs under the limiter's lock and reads the clock once.
\<close>

section \<open>The sliding window\<close>

record sliding_window =
  sw_limit :: int
  sw_window :: duration
  requests :: "time list"

definition NewSlidingWindowLimiter :: "int \<Rightarrow> duration \<Rightarrow> sliding_window" where
  "NewSlidingWindowLimiter lim win = \<lparr>sw_limit = lim, sw_window = win, requests = []\<rparr>"

definition cleanup :: "time \<Rightarrow> sliding_window \<Rightarrow> sliding_window" where
  "cleanup now sw =
     (let cutoff = time_add now (i64 (- sw_window sw))
      in sw\<lparr>requests := filter (\<lambda>req. req > cutoff) (requests sw)\<rparr>)"

definition sw_AllowN :: "time \<Rightarrow> int \<Rightarrow> sliding_window \<Rightarrow> bool \<times> sliding_window" where
  "sw_AllowN now n sw =
     (let sw = cleanup now sw
      in if i64 (int (length (requests sw)) + n) \<le> sw_limit sw
         then (True, sw\<lparr>requests := requests sw @ replicate (nat n) now\<rparr>)
         else (False, sw))"

definition sw_Allow :: "time \<Rightarrow> sliding_window \<Rightarrow> bool \<times> sliding_window" where
  "sw_Allow now sw = sw_AllowN now 1 sw"

definition sw_pause :: "time \<Rightarrow> int \<Rightarrow> sliding_window \<Rightarrow> (duration \<times> sliding_window) option" where
  "sw_pause now n sw = Some (100 * millisecond, sw)"

definition sw_WaitN :: "int \<Rightarrow> sliding_window round list \<Rightarrow> sliding_window \<Rightarrow> outcome \<times> sliding_window" where
  "sw_WaitN n rs sw = wait_loop sw_AllowN sw_pause n rs sw"

definition sw_Wait :: "sliding_window round list \<Rightarrow> sliding_window \<Rightarrow> outcome \<times> sliding_window" where
  "sw_Wait rs sw = sw_WaitN 1 rs sw"

definition sw_GetCurrentCount :: "time \<Rightarrow> sliding_window \<Rightarrow> int \<times> sliding_window" where
  "sw_GetCurrentCount now sw = (let sw = cleanup now sw in (int (length (requests sw)), sw))"

section \<open>The fixed window\<close>

record fixed_window =
  fw_limit :: int
  fw_window :: duration
  fw_count :: int
  windowStart :: time

definition NewFixedWindowLimiter :: "time \<Rightarrow> int \<Rightarrow> duration \<Rightarrow> fixed_window" where
  "NewFixedWindowLimiter now lim win = \<lparr>fw_limit = lim, fw_window = win, fw_count = 0, windowStart = now\<rparr>"

definition fw_AllowN :: "time \<Rightarrow> int \<Rightarrow> fixed_window \<Rightarrow> bool \<times> fixed_window" where
  "fw_AllowN now n fw =
     (let fw = (if time_sub now (windowStart fw) \<ge> fw_window fw
                then fw\<lparr>fw_count := 0, windowStart := now\<rparr> else fw)
      in if i64 (fw_count fw + n) \<le> fw_limit fw
         then (True, fw\<lparr>fw_count := i64 (fw_count fw + n)\<rparr>)
         else (False, fw))"

definition fw_Allow :: "time \<Rightarrow> fixed_window \<Rightarrow> bool \<times> fixed_window" where
  "fw_Allow now fw = fw_AllowN now 1 fw"

definition fw_pause :: "time \<Rightarrow> int \<Rightarrow> fixed_window \<Rightarrow> (duration \<times> fixed_window) option" where
  "fw_pause now n fw =
     (let waitTime = i64 (fw_window fw - time_sub now (windowStart fw));
          waitTime = (if waitTime \<le> 0 then 100 * millisecond else waitTime)
      in Some (waitTime, fw))"

definition fw_WaitN :: "int \<Rightarrow> fixed_window round list \<Rightarrow> fixed_window \<Rightarrow> outcome \<times> fixed_window" where
  "fw_WaitN n rs fw = wait_loop fw_AllowN fw_pause n rs fw"

definition fw_Wait :: "fixed_window round list \<Rightarrow> fixed_window \<Rightarrow> outcome \<times> fixed_window" where
  "fw_Wait rs fw = fw_WaitN 1 rs fw"

definition fw_GetCurrentCount :: "time \<Rightarrow> fixed_window \<Rightarrow> int" where
  "fw_GetCurrentCount now fw =
     (if time_sub now (windowStart fw) \<ge> fw_window fw then 0 else fw_count fw)"

definition GetTimeToReset :: "time \<Rightarrow> fixed_window \<Rightarrow> duration" where
  "GetTimeToReset now fw =
     (let remaining = i64 (fw_window fw - time_sub now (windowStart fw))
      in if remaining < 0 then 0 else remaining)"

section \<open>The contract\<close>

definition sw_good :: "sliding_window \<Rightarrow> bool" where
  "sw_good sw \<longleftrightarrow> int (length (requests sw)) \<le> max 0 (sw_limit sw) \<and> sw_limit sw < 2 ^ 62"

definition fw_good :: "fixed_window \<Rightarrow> bool" where
  "fw_good fw \<longleftrightarrow> 0 \<le> fw_count fw \<and> fw_count fw \<le> max 0 (fw_limit fw) \<and> fw_limit fw < 2 ^ 62"

lemma cleanup_frame [simp]: "sw_limit (cleanup now sw) = sw_limit sw" "sw_window (cleanup now sw) = sw_window sw"
  by (simp_all add: cleanup_def Let_def)

lemma cleanup_length: "length (requests (cleanup now sw)) \<le> length (requests sw)"
  by (simp add: cleanup_def Let_def)

lemma sw_sum_exact:
  assumes "sw_good sw" "countable_n n"
  shows "i64 (int (length (requests (cleanup now sw))) + n) = int (length (requests (cleanup now sw))) + n"
  using assms cleanup_length [of now sw]
  by (intro i64_id) (auto simp: sw_good_def countable_n_def in_i64_def)

lemma sw_AllowN_good: "sw_good sw \<Longrightarrow> countable_n n \<Longrightarrow> sw_good (snd (sw_AllowN now n sw))"
  using cleanup_length [of now sw] sw_sum_exact [of sw n now]
  by (auto simp: sw_AllowN_def Let_def sw_good_def countable_n_def)

interpretation sw: rate_limiter sw_AllowN sw_pause sw_good "\<lambda>n sw. n \<le> sw_limit sw"
proof unfold_locales
  fix s n t m d s'
  assume s: "sw_good s"
  show "sw_good s' \<and> (\<forall>m. (m \<le> sw_limit s') = (m \<le> sw_limit s))" if "sw_pause t n s = Some (d, s')"
    using that s by (simp add: sw_pause_def)
  assume n: "countable_n n"
  show "sw_good (snd (sw_AllowN t n s))" by (rule sw_AllowN_good [OF s n])
  show "(m \<le> sw_limit (snd (sw_AllowN t n s))) = (m \<le> sw_limit s)"
    by (simp add: sw_AllowN_def Let_def)
  show "n \<le> sw_limit s" if "fst (sw_AllowN t n s)"
    using that sw_sum_exact [OF s n, of t] by (simp add: sw_AllowN_def Let_def split: if_splits)
qed

definition fw_reset :: "time \<Rightarrow> fixed_window \<Rightarrow> fixed_window" where
  "fw_reset now fw = (if time_sub now (windowStart fw) \<ge> fw_window fw
     then fw\<lparr>fw_count := 0, windowStart := now\<rparr> else fw)"

lemma fw_AllowN_alt:
  assumes "fw_good fw" "countable_n n"
  shows "fw_AllowN now n fw = (if fw_count (fw_reset now fw) + n \<le> fw_limit fw
     then (True, (fw_reset now fw)\<lparr>fw_count := fw_count (fw_reset now fw) + n\<rparr>) else (False, fw_reset now fw))"
proof -
  have "in_i64 (fw_count (fw_reset now fw) + n)"
    using assms by (auto simp: fw_reset_def fw_good_def countable_n_def in_i64_def)
  moreover have "fw_limit (fw_reset now fw) = fw_limit fw" by (simp add: fw_reset_def)
  ultimately show ?thesis by (simp add: fw_AllowN_def fw_reset_def [symmetric] i64_id Let_def)
qed

lemma fw_AllowN_good: "fw_good fw \<Longrightarrow> countable_n n \<Longrightarrow> fw_good (snd (fw_AllowN now n fw))"
  by (simp add: fw_AllowN_alt) (auto simp: fw_reset_def fw_good_def countable_n_def)

interpretation fw: rate_limiter fw_AllowN fw_pause fw_good "\<lambda>n fw. n \<le> fw_limit fw"
proof unfold_locales
  fix s n t m d s'
  assume s: "fw_good s"
  show "fw_good s' \<and> (\<forall>m. (m \<le> fw_limit s') = (m \<le> fw_limit s))" if "fw_pause t n s = Some (d, s')"
    using that s by (simp add: fw_pause_def Let_def)
  assume n: "countable_n n"
  show "fw_good (snd (fw_AllowN t n s))" by (rule fw_AllowN_good [OF s n])
  show "(m \<le> fw_limit (snd (fw_AllowN t n s))) = (m \<le> fw_limit s)"
    by (simp add: fw_AllowN_alt [OF s n]) (simp add: fw_reset_def)
  show "n \<le> fw_limit s" if "fst (fw_AllowN t n s)"
    using that s n by (auto simp: fw_AllowN_alt [OF s n] fw_reset_def fw_good_def split: if_splits)
qed

section \<open>What is granted over time\<close>

text \<open>
  A use of a limiter is a list of requests, an instant and a number each.  \<open>grants\<close> lists the
  granted ones, \<open>granted_in\<close> adds up those in a half-open interval of time.
\<close>

fun grants :: "(time \<Rightarrow> int \<Rightarrow> 's \<Rightarrow> bool \<times> 's) \<Rightarrow> (time \<times> int) list \<Rightarrow> 's \<Rightarrow> (time \<times> int) list" where
  "grants allow [] s = []"
| "grants allow ((t, n) # cs) s =
     (let (ok, s) = allow t n s in (if ok then [(t, n)] else []) @ grants allow cs s)"

definition granted_in :: "time \<Rightarrow> time \<Rightarrow> (time \<times> int) list \<Rightarrow> int" where
  "granted_in lo hi gs = sum_list (map snd (filter (\<lambda>(t, n). lo < t \<and> t \<le> hi) gs))"

fun in_order :: "time \<Rightarrow> (time \<times> int) list \<Rightarrow> bool" where
  "in_order t [] \<longleftrightarrow> True"
| "in_order t ((u, n) # cs) \<longleftrightarrow> t \<le> u \<and> countable_n n \<and> in_order u cs"

lemma granted_in_append: "granted_in lo hi (gs @ hs) = granted_in lo hi gs + granted_in lo hi hs"
  by (simp add: granted_in_def)

lemma granted_in_nonneg: "(\<And>t n. (t, n) \<in> set gs \<Longrightarrow> 0 \<le> n) \<Longrightarrow> 0 \<le> granted_in lo hi gs"
  unfolding granted_in_def by (intro sum_list_nonneg) auto

lemma in_order_nonneg: "in_order t cs \<Longrightarrow> (u, n) \<in> set cs \<Longrightarrow> t \<le> u \<and> 0 \<le> n"
  by (induction t cs rule: in_order.induct) (auto simp: countable_n_def)

lemma grants_sub: "set (grants allow cs s) \<subseteq> set cs"
proof (induction cs arbitrary: s)
  case (Cons c cs)
  obtain t n where c: "c = (t, n)" by (cases c)
  obtain ok s' where "allow t n s = (ok, s')" by (cases "allow t n s")
  with Cons.IH [of s'] c show ?case by auto
qed simp

text \<open>Sliding window: what the limiter remembers is what was granted within the last window.\<close>

definition instants :: "(time \<times> int) list \<Rightarrow> time list" where
  "instants gs = concat (map (\<lambda>(t, n). replicate (nat n) t) gs)"

lemma granted_in_instants:
  "\<forall>(t, n) \<in> set gs. 0 \<le> n \<Longrightarrow>
    granted_in lo hi gs = int (length (filter (\<lambda>r. lo < r \<and> r \<le> hi) (instants gs)))"
  by (induction gs) (auto simp: granted_in_def instants_def filter_replicate split: if_splits)

definition within :: "duration \<Rightarrow> time \<Rightarrow> time list \<Rightarrow> time list" where
  "within w u rs = filter (\<lambda>r. r > u - w) rs"

definition window_bound :: "duration \<Rightarrow> int \<Rightarrow> time list \<Rightarrow> bool" where
  "window_bound w L rs \<longleftrightarrow> (\<forall>hi. int (length (filter (\<lambda>r. hi - w < r \<and> r \<le> hi) rs)) \<le> L)"

lemma within_later: "u \<le> t \<Longrightarrow> within w t (within w u rs) = within w t rs"
  by (auto simp: within_def intro: filter_cong)

lemma window_bound_append:
  assumes "window_bound w L rs" "int (length (within w t rs) + k) \<le> L"
  shows "window_bound w L (rs @ replicate k t)"
  unfolding window_bound_def
proof
  fix hi
  show "int (length (filter (\<lambda>r. hi - w < r \<and> r \<le> hi) (rs @ replicate k t))) \<le> L"
  proof (cases "hi < t")
    case True
    with assms(1) show ?thesis by (simp add: window_bound_def)
  next
    case False
    have "length (filter (\<lambda>r. hi - w < r \<and> r \<le> hi) rs) \<le> length (within w t rs)"
      unfolding within_def using False
      by (induction rs) auto
    moreover have "length (filter (\<lambda>r. hi - w < r \<and> r \<le> hi) (replicate k t)) \<le> k"
      by (metis length_filter_le length_replicate)
    ultimately show ?thesis using assms(2) by simp
  qed
qed

lemma sliding_run:
  assumes "sw_good sw" "in_i64 (- sw_window sw)" "0 \<le> L" "sw_limit sw \<le> L" "in_order u cs"
    "within (sw_window sw) u rs = within (sw_window sw) u (requests sw)" "window_bound (sw_window sw) L rs"
  shows "window_bound (sw_window sw) L (rs @ instants (grants sw_AllowN cs sw))"
  using assms
proof (induction cs arbitrary: u sw rs)
  case Nil
  then show ?case by (simp add: instants_def)
next
  case (Cons c cs)
  obtain t n where c: "c = (t, n)" by (cases c)
  have t: "u \<le> t" "countable_n n" "in_order t cs" using Cons.prems(5) c by simp_all
  let ?w = "sw_window sw"
  let ?sw = "cleanup t sw"
  have kept: "requests ?sw = within ?w t rs"
  proof -
    have "requests ?sw = within ?w t (requests sw)"
      using Cons.prems(2) by (simp add: cleanup_def Let_def within_def time_add_def i64_id)
    also have "\<dots> = within ?w t rs" using within_later [OF t(1)] Cons.prems(6) by metis
    finally show ?thesis .
  qed
  have good: "sw_good (snd (sw_AllowN t n sw))" by (rule sw_AllowN_good [OF Cons.prems(1) t(2)])
  show ?case
  proof (cases "int (length (requests ?sw)) + n \<le> sw_limit sw")
    case True
    let ?sw' = "?sw\<lparr>requests := requests ?sw @ replicate (nat n) t\<rparr>"
    have step: "sw_AllowN t n sw = (True, ?sw')"
      using True sw_sum_exact [OF Cons.prems(1) t(2), of t] by (simp add: sw_AllowN_def Let_def)
    have "window_bound ?w L (rs @ replicate (nat n) t)"
      using True kept t(2) Cons.prems(4) by (intro window_bound_append Cons.prems(7)) (simp add: countable_n_def)
    moreover have "within ?w t (rs @ replicate (nat n) t) = within ?w t (requests ?sw')"
      using kept by (simp add: within_def)
    ultimately have "window_bound ?w L ((rs @ replicate (nat n) t) @ instants (grants sw_AllowN cs ?sw'))"
      using Cons.IH [of ?sw' t "rs @ replicate (nat n) t"] good step Cons.prems(2-4) t(3) by simp
    then show ?thesis by (simp add: c step instants_def)
  next
    case False
    have step: "sw_AllowN t n sw = (False, ?sw)"
      using False sw_sum_exact [OF Cons.prems(1) t(2), of t] by (simp add: sw_AllowN_def Let_def)
    have "within ?w t rs = within ?w t (requests ?sw)" using kept by (simp add: within_def)
    then have "window_bound ?w L (rs @ instants (grants sw_AllowN cs ?sw))"
      using Cons.IH [of ?sw t rs] good step Cons.prems(2-4,7) t(3) by simp
    then show ?thesis by (simp add: c step)
  qed
qed

text \<open>
  Fixed window: the grants split into those of earlier windows and those of the current one,
  which the count adds up.
\<close>

definition fw_inv :: "fixed_window \<Rightarrow> int \<Rightarrow> time \<Rightarrow> (time \<times> int) list \<Rightarrow> bool" where
  "fw_inv fw L u gs \<longleftrightarrow> fw_good fw \<and> windowStart fw \<le> u \<and> max 0 (fw_limit fw) = L \<and>
     (\<forall>(t, n) \<in> set gs. 0 \<le> n \<and> t \<le> u) \<and>
     (\<exists>old cur. gs = old @ cur \<and> (\<forall>(t, n) \<in> set old. t \<le> windowStart fw) \<and>
        sum_list (map snd cur) = fw_count fw \<and>
        (\<forall>hi. granted_in (windowStart fw - fw_window fw) hi old \<le> L)) \<and>
     (\<forall>hi. granted_in (hi - fw_window fw) hi gs \<le> 2 * L)"

lemma granted_in_le_sum: "\<forall>(t, n) \<in> set gs. 0 \<le> n \<Longrightarrow> granted_in lo hi gs \<le> sum_list (map snd gs)"
  by (induction gs) (auto simp: granted_in_def)

lemma granted_in_mono: "\<forall>(t, n) \<in> set gs. 0 \<le> n \<Longrightarrow> lo \<le> lo' \<Longrightarrow> granted_in lo' hi gs \<le> granted_in lo hi gs"
  by (induction gs) (auto simp: granted_in_def)

lemma granted_in_old: "\<forall>(t, n) \<in> set gs. t \<le> lo \<Longrightarrow> granted_in lo hi gs = 0"
  by (induction gs) (auto simp: granted_in_def)


lemma granted_in_two_windows:
  assumes "\<forall>(t, n) \<in> set (old @ cur). 0 \<le> n" "sum_list (map snd cur) \<le> L" "ws \<le> hi"
    "\<forall>hi. granted_in (ws - w) hi old \<le> L"
  shows "granted_in (hi - w) hi (old @ cur) \<le> 2 * L"
proof -
  have "granted_in (hi - w) hi old \<le> granted_in (ws - w) hi old"
    using assms(1,3) by (intro granted_in_mono) auto
  moreover have "granted_in (hi - w) hi cur \<le> sum_list (map snd cur)"
    using assms(1) by (intro granted_in_le_sum) auto
  ultimately show ?thesis using assms(2,4) by (simp add: granted_in_append) (smt (verit))
qed

lemma fw_inv_reset:
  assumes "fw_inv fw L u gs" "u \<le> t" "in_i64 (fw_window fw)"
  shows "fw_inv (fw_reset t fw) L t gs"
proof (cases "time_sub t (windowStart fw) \<ge> fw_window fw")
  case False
  with assms show ?thesis by (auto simp: fw_inv_def fw_reset_def)
next
  case True
  have ws: "windowStart fw \<le> t" using assms by (simp add: fw_inv_def)
  have late: "windowStart fw \<le> t - fw_window fw"
    using True assms(3) ws by (auto simp: time_sub_def in_i64_def)
  obtain old cur where gs: "gs = old @ cur" "\<forall>(t, n) \<in> set old. t \<le> windowStart fw"
    "sum_list (map snd cur) = fw_count fw"
    using assms(1) by (auto simp: fw_inv_def)
  have pos: "\<forall>(t, n) \<in> set gs. 0 \<le> n" using assms(1) by (auto simp: fw_inv_def)
  have "granted_in (t - fw_window fw) hi gs \<le> L" for hi
  proof -
    have "granted_in (t - fw_window fw) hi old = 0"
      using gs(2) late by (intro granted_in_old) fastforce
    moreover have "granted_in (t - fw_window fw) hi cur \<le> sum_list (map snd cur)"
      using pos gs(1) by (intro granted_in_le_sum) simp
    ultimately show ?thesis
      using gs(1,3) assms(1) by (simp add: granted_in_append fw_inv_def fw_good_def)
  qed
  moreover have "\<forall>(t', n) \<in> set gs. 0 \<le> n \<and> t' \<le> t" using assms(1,2) by (fastforce simp: fw_inv_def)
  ultimately have "\<exists>old cur. gs = old @ cur \<and> (\<forall>(t', n) \<in> set old. t' \<le> t) \<and>
        sum_list (map snd cur) = 0 \<and> (\<forall>hi. granted_in (t - fw_window fw) hi old \<le> L)"
    by (intro exI [of _ gs] exI [of _ "[]"]) auto
  with True assms(1) \<open>\<forall>(t', n) \<in> set gs. 0 \<le> n \<and> t' \<le> t\<close> show ?thesis
    by (simp add: fw_inv_def fw_reset_def fw_good_def)
qed

lemma fw_inv_grant:
  assumes "fw_inv fw L t gs" "0 \<le> n" "fw_count fw + n \<le> fw_limit fw"
  shows "fw_inv (fw\<lparr>fw_count := fw_count fw + n\<rparr>) L t (gs @ [(t, n)])"
proof -
  obtain old cur where gs: "gs = old @ cur" "\<forall>(t, n) \<in> set old. t \<le> windowStart fw"
    "sum_list (map snd cur) = fw_count fw" "\<forall>hi. granted_in (windowStart fw - fw_window fw) hi old \<le> L"
    using assms(1) by (auto simp: fw_inv_def)
  have inv: "fw_good fw" "windowStart fw \<le> t" "max 0 (fw_limit fw) = L"
    "\<forall>(t', n) \<in> set gs. 0 \<le> n \<and> t' \<le> t" "\<And>hi. granted_in (hi - fw_window fw) hi gs \<le> 2 * L"
    using assms(1) by (simp_all add: fw_inv_def)
  have all: "\<forall>(t', n) \<in> set (old @ cur @ [(t, n)]). 0 \<le> n" using inv(4) assms(2) gs(1) by auto
  have sum: "sum_list (map snd (cur @ [(t, n)])) \<le> L" using assms(3) inv(3) gs(3) by simp
  have bound: "granted_in (hi - fw_window fw) hi (gs @ [(t, n)]) \<le> 2 * L" for hi
  proof (cases "hi < t")
    case True
    with inv(5) [of hi] show ?thesis by (simp add: granted_in_append) (simp add: granted_in_def)
  next
    case False
    with inv(2) have "windowStart fw \<le> hi" by simp
    from granted_in_two_windows [OF _ sum this gs(4)] all show ?thesis by (simp add: gs(1))
  qed
  have "\<exists>old cur. gs @ [(t, n)] = old @ cur \<and> (\<forall>(t, n) \<in> set old. t \<le> windowStart fw) \<and>
      sum_list (map snd cur) = fw_count fw + n \<and>
      (\<forall>hi. granted_in (windowStart fw - fw_window fw) hi old \<le> L)"
    using gs by (intro exI [of _ old] exI [of _ "cur @ [(t, n)]"]) simp
  with inv assms bound show ?thesis by (auto simp: fw_inv_def fw_good_def)
qed

lemma fixed_run:
  assumes "fw_inv fw L u gs" "in_i64 (fw_window fw)" "in_order u cs"
  shows "granted_in (hi - fw_window fw) hi (gs @ grants fw_AllowN cs fw) \<le> 2 * L"
  using assms
proof (induction cs arbitrary: u fw gs)
  case Nil
  then show ?case by (simp add: fw_inv_def)
next
  case (Cons c cs)
  obtain t n where c: "c = (t, n)" by (cases c)
  have t: "u \<le> t" "countable_n n" "in_order t cs" using Cons.prems(3) c by simp_all
  have good: "fw_good fw" using Cons.prems(1) by (simp add: fw_inv_def)
  have frame: "fw_window (fw_reset t fw) = fw_window fw" "fw_limit (fw_reset t fw) = fw_limit fw"
    by (simp_all add: fw_reset_def)
  note reset = fw_inv_reset [OF Cons.prems(1) t(1) Cons.prems(2)]
  show ?case
  proof (cases "fw_count (fw_reset t fw) + n \<le> fw_limit fw")
    case True
    with fw_inv_grant [OF reset, of n] t(2) frame
    have "fw_inv ((fw_reset t fw)\<lparr>fw_count := fw_count (fw_reset t fw) + n\<rparr>) L t (gs @ [(t, n)])"
      by (simp add: countable_n_def)
    from Cons.IH [OF this _ t(3)] Cons.prems(2) True frame show ?thesis
      by (simp add: c fw_AllowN_alt [OF good t(2)])
  next
    case False
    from Cons.IH [OF reset _ t(3)] Cons.prems(2) False frame show ?thesis
      by (simp add: c fw_AllowN_alt [OF good t(2)])
  qed
qed

section \<open>Properties\<close>

text \<open>
  C26: The sliding window.  However requests arrive, no interval of the length of the window
  contains more granted requests than the limit.
\<close>
theorem sliding_window_limit:
  assumes "0 \<le> lim" "lim < 2 ^ 62" "in_i64 (- win)" "in_order t0 cs"
  shows "granted_in (hi - win) hi (grants sw_AllowN cs (NewSlidingWindowLimiter lim win)) \<le> lim"
proof -
  let ?new = "NewSlidingWindowLimiter lim win" and ?gs = "grants sw_AllowN cs (NewSlidingWindowLimiter lim win)"
  have "window_bound win lim ([] @ instants ?gs)"
    using sliding_run [of ?new lim t0 cs "[]"] assms
    by (simp add: NewSlidingWindowLimiter_def sw_good_def window_bound_def)
  moreover have "\<forall>(t, n) \<in> set ?gs. 0 \<le> n"
    using grants_sub [of sw_AllowN cs ?new] in_order_nonneg [OF assms(4)] by blast
  ultimately show ?thesis by (simp add: granted_in_instants window_bound_def)
qed

theorem sliding_window_limit_witness:
  "granted_in (50 - 100) 50 (grants sw_AllowN [(10, 2), (20, 1), (30, 2), (120, 3)] (NewSlidingWindowLimiter 3 100)) \<le> 3"
  by (rule sliding_window_limit [of _ _ 0]) (simp_all add: in_i64_def countable_n_def)



end
