(* ===== verification/MultiLimiter.thy ===== *)
theory MultiLimiter
  imports TokenBucket Windows
begin

text \<open>
  Package \<open>pkg/limits\<close>, the interface \<open>RateLimiter\<close> and the limiter composed of others.
  The types that implement the interface are the constructors of a datatype.  Each limiter
  reads the clock itself: a clock gives an instant to each path into the composition.  The
  parts of a composition are different objects: one limiter that is given twice is modelled
  as two.
\<close>

datatype limiter =
    Bucket token_bucket
  | Sliding sliding_window
  | Fixed fixed_window
  | Multi "limiter list"

type_synonym clock = "nat list \<Rightarrow> time"

definition NewMultiLimiter :: "limiter list \<Rightarrow> limiter" where
  "NewMultiLimiter ls = Multi ls"

fun l_AllowN :: "clock \<Rightarrow> int \<Rightarrow> limiter \<Rightarrow> bool \<times> limiter"
and ml_AllowN :: "clock \<Rightarrow> nat \<Rightarrow> int \<Rightarrow> limiter list \<Rightarrow> bool \<times> limiter list" where
  "l_AllowN clk n (Bucket b) = (let (ok, b) = tb_AllowN (clk []) n b in (ok, Bucket b))"
| "l_AllowN clk n (Sliding s) = (let (ok, s) = sw_AllowN (clk []) n s in (ok, Sliding s))"
| "l_AllowN clk n (Fixed f) = (let (ok, f) = fw_AllowN (clk []) n f in (ok, Fixed f))"
| "l_AllowN clk n (Multi ls) = (let (ok, ls) = ml_AllowN clk 0 n ls in (ok, Multi ls))"
| "ml_AllowN clk i n [] = (True, [])"
| "ml_AllowN clk i n (l # ls) =
     (let (ok, l) = l_AllowN (\<lambda>p. clk (i # p)) n l
      in if \<not> ok then (False, l # ls)
         else let (ok, ls) = ml_AllowN clk (Suc i) n ls in (ok, l # ls))"

definition l_Allow :: "clock \<Rightarrow> limiter \<Rightarrow> bool \<times> limiter" where
  "l_Allow clk l = l_AllowN clk 1 l"

text \<open>What happens around a wait: the rounds of each limiter, in the shape of the composition.\<close>

datatype schedule =
    OnBucket "token_bucket round list"
  | OnSliding "sliding_window round list"
  | OnFixed "fixed_window round list"
  | OnMulti "schedule list"

fun l_WaitN :: "schedule \<Rightarrow> int \<Rightarrow> limiter \<Rightarrow> outcome \<times> limiter"
and ml_WaitN :: "schedule list \<Rightarrow> int \<Rightarrow> limiter list \<Rightarrow> outcome \<times> limiter list" where
  "l_WaitN (OnBucket rs) n (Bucket b) = (let (r, b) = tb_WaitN n rs b in (r, Bucket b))"
| "l_WaitN (OnSliding rs) n (Sliding s) = (let (r, s) = sw_WaitN n rs s in (r, Sliding s))"
| "l_WaitN (OnFixed rs) n (Fixed f) = (let (r, f) = fw_WaitN n rs f in (r, Fixed f))"
| "l_WaitN (OnMulti rss) n (Multi ls) = (let (r, ls) = ml_WaitN rss n ls in (r, Multi ls))"
| "l_WaitN rss n l = (Waiting, l)"
| "ml_WaitN rss n [] = (Returned None, [])"
| "ml_WaitN (rs # rss) n (l # ls) =
     (case l_WaitN rs n l of
        (Returned None, l) \<Rightarrow> (let (r, ls) = ml_WaitN rss n ls in (r, l # ls))
      | (r, l) \<Rightarrow> (r, l # ls))"
| "ml_WaitN [] n (l # ls) = (Waiting, l # ls)"

definition l_Wait :: "schedule \<Rightarrow> limiter \<Rightarrow> outcome \<times> limiter" where
  "l_Wait rs l = l_WaitN rs 1 l"

section \<open>The contract, for every limiter\<close>

fun l_good :: "limiter \<Rightarrow> bool" where
  "l_good (Bucket b) \<longleftrightarrow> tb_good b"
| "l_good (Sliding s) \<longleftrightarrow> sw_good s"
| "l_good (Fixed f) \<longleftrightarrow> fw_good f"
| "l_good (Multi ls) \<longleftrightarrow> list_all l_good ls"

text \<open>A limiter can grant \<open>n\<close> only if no limit in it is below \<open>n\<close>.\<close>

fun l_admits :: "int \<Rightarrow> limiter \<Rightarrow> bool" where
  "l_admits n (Bucket b) \<longleftrightarrow> n \<le> capacity b"
| "l_admits n (Sliding s) \<longleftrightarrow> n \<le> sw_limit s"
| "l_admits n (Fixed f) \<longleftrightarrow> n \<le> fw_limit f"
| "l_admits n (Multi ls) \<longleftrightarrow> list_all (l_admits n) ls"

text \<open>Rounds in which other callers do nothing but make requests, none of them negative.\<close>

definition rounds_of :: "(time \<Rightarrow> int \<Rightarrow> 's \<Rightarrow> bool \<times> 's) \<Rightarrow> 's round list \<Rightarrow> bool" where
  "rounds_of allow rs \<longleftrightarrow> (\<forall>r \<in> set rs. \<exists>t1 cs t2 ds w. r = round_with allow t1 cs t2 ds w \<and>
     countable_calls cs \<and> countable_calls ds)"

fun l_rounds :: "schedule \<Rightarrow> bool" where
  "l_rounds (OnBucket rs) \<longleftrightarrow> rounds_of tb_AllowN rs"
| "l_rounds (OnSliding rs) \<longleftrightarrow> rounds_of sw_AllowN rs"
| "l_rounds (OnFixed rs) \<longleftrightarrow> rounds_of fw_AllowN rs"
| "l_rounds (OnMulti rss) \<longleftrightarrow> list_all l_rounds rss"

lemma rounds_of_Nil: "rounds_of allow []"
  by (simp add: rounds_of_def)

lemma rounds_of_Cons:
  "countable_calls cs \<Longrightarrow> countable_calls ds \<Longrightarrow> rounds_of allow rs \<Longrightarrow>
    rounds_of allow (round_with allow t1 cs t2 ds w # rs)"
  by (simp add: rounds_of_def) blast

lemma tb_never:
  assumes "tb_good b" "countable_n n" "\<not> n \<le> capacity b" "rounds_of tb_AllowN rs"
  shows "fst (tb_WaitN n rs b) \<noteq> Returned None"
  unfolding tb_WaitN_def
  by (rule tb.wait_never_returns [OF assms(1-3)])
    (use assms(4) in \<open>auto simp: rounds_of_def round_with_def intro!: tb.polite_requests\<close>)

lemma sw_never:
  assumes "sw_good s" "countable_n n" "\<not> n \<le> sw_limit s" "rounds_of sw_AllowN rs"
  shows "fst (sw_WaitN n rs s) \<noteq> Returned None"
  unfolding sw_WaitN_def
  by (rule sw.wait_never_returns [OF assms(1-3)])
    (use assms(4) in \<open>auto simp: rounds_of_def round_with_def intro!: sw.polite_requests\<close>)

lemma fw_never:
  assumes "fw_good f" "countable_n n" "\<not> n \<le> fw_limit f" "rounds_of fw_AllowN rs"
  shows "fst (fw_WaitN n rs f) \<noteq> Returned None"
  unfolding fw_WaitN_def
  by (rule fw.wait_never_returns [OF assms(1-3)])
    (use assms(4) in \<open>auto simp: rounds_of_def round_with_def intro!: fw.polite_requests\<close>)

text \<open>The answer of the \<open>j\<close>-th of several limiters.\<close>

definition asked :: "clock \<Rightarrow> int \<Rightarrow> limiter list \<Rightarrow> nat \<Rightarrow> bool \<times> limiter" where
  "asked clk n ls j = l_AllowN (\<lambda>p. clk (j # p)) n (ls ! j)"

section \<open>Properties\<close>

text \<open>
  C30: A composed limiter grants a request exactly when every part does, asked in order; the
  parts up to the first that denies have been charged, the others are untouched.  So a denied
  request still uses up the limiters before the one that denied it.
\<close>
theorem multi_limiter_charges_up_to_the_denial:
  "l_AllowN clk n (Multi ls) =
     (\<forall>j < length ls. fst (asked clk n ls j),
      Multi (map (\<lambda>j. if \<forall>k < j. fst (asked clk n ls k) then snd (asked clk n ls j) else ls ! j) [0..<length ls]))"
proof -
  have parts: "ml_AllowN clk i n ms =
      (\<forall>j < length ms. fst (l_AllowN (\<lambda>p. clk ((i + j) # p)) n (ms ! j)),
       map (\<lambda>j. if \<forall>k < j. fst (l_AllowN (\<lambda>p. clk ((i + k) # p)) n (ms ! k))
         then snd (l_AllowN (\<lambda>p. clk ((i + j) # p)) n (ms ! j)) else ms ! j) [0..<length ms])" for i ms
  proof (induction ms arbitrary: i)
    case (Cons l ms)
    obtain ok l' where l: "l_AllowN (\<lambda>p. clk (i # p)) n l = (ok, l')" by (cases "l_AllowN (\<lambda>p. clk (i # p)) n l")
    have upt: "[0..<length (l # ms)] = 0 # map Suc [0..<length ms]"
      by (simp add: map_Suc_upt upt_conv_Cons del: upt_Suc)
    show ?case
      unfolding upt using Cons.IH [of "Suc i"]
      by (simp add: l All_less_Suc2 map_nth cong: if_cong map_cong)
  qed simp
  show ?thesis unfolding l_AllowN.simps parts [of 0 ls] asked_def by (simp only: Let_def prod.case add_0)
qed

text \<open>
  C31: Waiting for more than a limit never succeeds.  However long the wait, and whatever
  requests for at least nothing (and fewer than \<open>2 ^ 62\<close>) others make in between, \<open>WaitN\<close> for
  more than the smallest limit in the limiter, of whatever kind and however composed, does
  not return success.  (A request for less than nothing would raise the tokens of a bucket
  above its capacity: lemma \<open>negative_request_mints_tokens\<close>.)
\<close>
theorem wait_beyond_the_limit_never_succeeds:
  assumes "l_good l" "countable_n n" "\<not> l_admits n l" "l_rounds rs"
  shows "fst (l_WaitN rs n l) \<noteq> Returned None"
proof -
  have "countable_n n \<Longrightarrow> l_good l \<Longrightarrow> \<not> l_admits n l \<Longrightarrow> l_rounds rs \<Longrightarrow>
      fst (l_WaitN rs n l) \<noteq> Returned None"
    "countable_n n \<Longrightarrow> list_all l_good ls \<Longrightarrow> \<not> list_all (l_admits n) ls \<Longrightarrow> list_all l_rounds rss \<Longrightarrow>
      fst (ml_WaitN rss n ls) \<noteq> Returned None" for l rs ls rss n
    by (induction rs n l and rss n ls rule: l_WaitN_ml_WaitN.induct)
      (auto simp: split_beta Let_def tb_never sw_never fw_never split: outcome.splits option.splits,
        metis prod.collapse)
  with assms show ?thesis by simp
qed

definition sample_limiter :: limiter where
  "sample_limiter = NewMultiLimiter [Bucket (NewTokenBucket 0 10 1),
     NewMultiLimiter [Fixed (NewFixedWindowLimiter 0 2 second), Sliding (NewSlidingWindowLimiter 5 second)]]"

theorem wait_beyond_the_limit_never_succeeds_witness:
  "fst (l_WaitN (OnMulti [OnBucket [], OnMulti [OnFixed [round_with fw_AllowN 1 [(2, 1)] 3 [] Fired], OnSliding []]]) 3
     sample_limiter) \<noteq> Returned None"
  by (rule wait_beyond_the_limit_never_succeeds)
    (auto simp: sample_limiter_def NewMultiLimiter_def NewTokenBucket_def NewFixedWindowLimiter_def
      NewSlidingWindowLimiter_def tb_good_def fw_good_def sw_good_def in_i64_def countable_n_def
      countable_calls_def intro!: rounds_of_Cons rounds_of_Nil)

text \<open>A request denied by the second limiter has used up the first.\<close>

theorem multi_limiter_charges_up_to_the_denial_witness:
  "l_AllowN (\<lambda>_. 0) 3 (NewMultiLimiter [Bucket (NewTokenBucket 0 3 1), Fixed (NewFixedWindowLimiter 0 2 second)]) =
     (False, Multi [Bucket ((NewTokenBucket 0 3 1)\<lparr>tokens := 0\<rparr>), Fixed (NewFixedWindowLimiter 0 2 second)])"
proof -
  have "whole_seconds 0 = 0" by (subst whole_seconds_exact) simp_all
  then have "l_AllowN clk 3 (Bucket (NewTokenBucket 0 3 1)) = (True, Bucket ((NewTokenBucket 0 3 1)\<lparr>tokens := 0\<rparr>))"
    "l_AllowN clk 3 (Fixed (NewFixedWindowLimiter 0 2 second)) = (False, Fixed (NewFixedWindowLimiter 0 2 second))"
    if "clk [] = 0" for clk
    using that by (simp_all add: tb_AllowN_def refill_def NewTokenBucket_def fw_AllowN_def
        NewFixedWindowLimiter_def time_sub_def i64_def)
  then show ?thesis
    unfolding NewMultiLimiter_def multi_limiter_charges_up_to_the_denial
    by (simp add: asked_def numeral_2_eq_2 All_less_Suc)
qed

end
