(* ===== verification/Concurrency.thy ===== *)
theory Concurrency
  imports Errors
begin

text \<open>
  Package \<open>pkg/limits\<close>, the concurrency limiter.  \<open>TryAcquire\<close>, \<open>Release\<close> and the
  getters run under the lock; the waiting path of \<open>Acquire\<close>, which starts a goroutine that
  waits on the condition variable without holding its lock, is a step relation over the
  mutex and the program counters.
\<close>

section \<open>The atomic methods\<close>

record concurrency =
  limit :: int
  current :: int

definition NewConcurrencyLimiter :: "int \<Rightarrow> concurrency" where
  "NewConcurrencyLimiter lim = \<lparr>limit = lim, current = 0\<rparr>"

definition TryAcquire :: "concurrency \<Rightarrow> bool \<times> concurrency" where
  "TryAcquire cl = (if current cl < limit cl then (True, cl\<lparr>current := i64 (current cl + 1)\<rparr>) else (False, cl))"

text \<open>\<open>Release\<close>; the second component says whether a waiter is signalled.\<close>

definition Release :: "concurrency \<Rightarrow> concurrency \<times> bool" where
  "Release cl = (if current cl > 0 then (cl\<lparr>current := i64 (current cl - 1)\<rparr>, True) else (cl, False))"

definition GetCurrent :: "concurrency \<Rightarrow> int" where
  "GetCurrent cl = current cl"

definition GetLimit :: "concurrency \<Rightarrow> int" where
  "GetLimit cl = limit cl"

section \<open>Acquire\<close>

text \<open>
  Program counters of the call: about to lock, at the loop test, past the \<open>go\<close> statement
  with the lock still held, in the \<open>select\<close>, locking again after either case, about to run
  the deferred unlock, returned.
\<close>

datatype acquirer =
    A_start | A_check | A_spawned | A_select | A_relock | A_ctx go_error
  | A_unlock "go_error option" | A_done "go_error option"

text \<open>
  Program counters of a waiting goroutine: before \<open>cond.Wait\<close> unlocks the mutex, parked,
  signalled and about to lock, and past \<open>close(done)\<close> (it never unlocks).
\<close>

datatype waiter = W_start | W_parked | W_woken | W_closed

record machine =
  cl :: concurrency
  locked :: bool
  acq :: acquirer
  waiters :: "waiter list"
  fatal :: bool

text \<open>Unlocking an unlocked mutex is fatal to the whole program.\<close>

definition unlock :: "machine \<Rightarrow> machine" where
  "unlock m = (if locked m then m\<lparr>locked := False\<rparr> else m\<lparr>fatal := True\<rparr>)"

fun signal :: "waiter list \<Rightarrow> waiter list" where
  "signal [] = []"
| "signal (W_parked # ws) = W_woken # ws"
| "signal (w # ws) = w # signal ws"

definition wait_cancelled :: "go_error \<Rightarrow> go_error" where
  "wait_cancelled err = NewWithCause TimeoutError ''concurrency limit wait cancelled'' (Some err)"

text \<open>
  One call of \<open>Acquire\<close> with the goroutines it starts, among others that call the atomic
  methods.  A getter and an attempt that fails change nothing, so they have no rule; \<open>rel\<close>
  says whether others may call \<open>Release\<close>.  A second \<open>Acquire\<close> at the same time is not modelled.
\<close>

inductive acq_step :: "bool \<Rightarrow> machine \<Rightarrow> machine \<Rightarrow> bool" for rel where
  lock: "\<lbrakk>\<not> fatal m; acq m = A_start; \<not> locked m\<rbrakk> \<Longrightarrow> acq_step rel m (m\<lparr>locked := True, acq := A_check\<rparr>)"
| check_free: "\<lbrakk>\<not> fatal m; acq m = A_check; current (cl m) < limit (cl m)\<rbrakk> \<Longrightarrow>
    acq_step rel m (m\<lparr>cl := (cl m)\<lparr>current := i64 (current (cl m) + 1)\<rparr>, acq := A_unlock None\<rparr>)"
| check_full: "\<lbrakk>\<not> fatal m; acq m = A_check; current (cl m) \<ge> limit (cl m)\<rbrakk> \<Longrightarrow>
    acq_step rel m (m\<lparr>waiters := waiters m @ [W_start], acq := A_spawned\<rparr>)"
| let_go: "\<lbrakk>\<not> fatal m; acq m = A_spawned\<rbrakk> \<Longrightarrow> acq_step rel m ((unlock m)\<lparr>acq := A_select\<rparr>)"
| notified: "\<lbrakk>\<not> fatal m; acq m = A_select; waiters m \<noteq> []; last (waiters m) = W_closed\<rbrakk> \<Longrightarrow>
    acq_step rel m (m\<lparr>acq := A_relock\<rparr>)"
| relock: "\<lbrakk>\<not> fatal m; acq m = A_relock; \<not> locked m\<rbrakk> \<Longrightarrow> acq_step rel m (m\<lparr>locked := True, acq := A_check\<rparr>)"
| ctx_done: "\<lbrakk>\<not> fatal m; acq m = A_select\<rbrakk> \<Longrightarrow> acq_step rel m (m\<lparr>acq := A_ctx err\<rparr>)"
| ctx_lock: "\<lbrakk>\<not> fatal m; acq m = A_ctx err; \<not> locked m\<rbrakk> \<Longrightarrow>
    acq_step rel m (m\<lparr>locked := True, acq := A_unlock (Some (wait_cancelled err))\<rparr>)"
| return: "\<lbrakk>\<not> fatal m; acq m = A_unlock r\<rbrakk> \<Longrightarrow> acq_step rel m ((unlock m)\<lparr>acq := A_done r\<rparr>)"
| wait: "\<lbrakk>\<not> fatal m; i < length (waiters m); waiters m ! i = W_start\<rbrakk> \<Longrightarrow>
    acq_step rel m ((unlock m)\<lparr>waiters := (waiters m)[i := W_parked]\<rparr>)"
| wake: "\<lbrakk>\<not> fatal m; i < length (waiters m); waiters m ! i = W_woken; \<not> locked m\<rbrakk> \<Longrightarrow>
    acq_step rel m (m\<lparr>locked := True, waiters := (waiters m)[i := W_closed]\<rparr>)"
| try_acquire: "\<lbrakk>\<not> fatal m; \<not> locked m; TryAcquire (cl m) = (True, c)\<rbrakk> \<Longrightarrow> acq_step rel m (m\<lparr>cl := c\<rparr>)"
| release: "\<lbrakk>\<not> fatal m; rel; \<not> locked m; Release (cl m) = (c, sig)\<rbrakk> \<Longrightarrow>
    acq_step rel m (m\<lparr>cl := c, waiters := (if sig then signal (waiters m) else waiters m)\<rparr>)"

inductive_cases acq_stepE: "acq_step rel m m'"

definition start :: "concurrency \<Rightarrow> machine" where
  "start c = \<lparr>cl = c, locked = False, acq = A_start, waiters = [], fatal = False\<rparr>"

text \<open>Every run reaches a state with the property and no run gets stuck before.\<close>

inductive inevitable :: "('a \<Rightarrow> 'a \<Rightarrow> bool) \<Rightarrow> ('a \<Rightarrow> bool) \<Rightarrow> 'a \<Rightarrow> bool" for R P where
  now: "P x \<Longrightarrow> inevitable R P x"
| later: "\<lbrakk>\<exists>y. R x y; \<And>y. R x y \<Longrightarrow> inevitable R P y\<rbrakk> \<Longrightarrow> inevitable R P x"

section \<open>Properties\<close>

text \<open>
  A use of the limiter: attempts to acquire and releases by numbered holders, where a holder
  releases only what it got.
\<close>

datatype use_event = Try nat | Rel nat

fun use_step :: "use_event \<Rightarrow> nat list \<times> concurrency \<Rightarrow> nat list \<times> concurrency" where
  "use_step (Try i) (holders, c) = (case TryAcquire c of (ok, c) \<Rightarrow> (if ok then i # holders else holders, c))"
| "use_step (Rel i) (holders, c) = (if i \<in> set holders then (remove1 i holders, fst (Release c)) else (holders, c))"

text \<open>
  C28: When only holders release, the counter is the number of holders and never exceeds the
  limit, and an attempt fails only when the limit is reached.
\<close>
theorem holders_within_limit:
  assumes "0 \<le> lim" "in_i64 lim"
  shows "case fold use_step es ([], NewConcurrencyLimiter lim) of (holders, c) \<Rightarrow>
     GetCurrent c = int (length holders) \<and> int (length holders) \<le> lim \<and>
     (fst (TryAcquire c) \<longleftrightarrow> int (length holders) < lim)"
proof -
  have "case fold use_step es (h, c) of (holders, c') \<Rightarrow>
      limit c' = lim \<and> current c' = int (length holders) \<and> int (length holders) \<le> lim"
    if "limit c = lim" "current c = int (length h)" "int (length h) \<le> lim" for h c
    using that
  proof (induction es arbitrary: h c)
    case (Cons e es)
    obtain h' c' where step: "use_step e (h, c) = (h', c')" by (cases "use_step e (h, c)")
    have "limit c' = lim \<and> current c' = int (length h') \<and> int (length h') \<le> lim"
    proof (cases e)
      case (Try i)
      have "i64 (current c + 1) = current c + 1" if "current c < lim"
        using that Cons.prems assms(2) by (intro i64_id) (simp add: in_i64_def)
      with step Try Cons.prems show ?thesis by (auto simp: TryAcquire_def split: if_splits)
    next
      case (Rel i)
      have "i64 (current c - 1) = current c - 1" if "i \<in> set h"
        using Cons.prems assms(2) by (intro i64_id) (simp add: in_i64_def)
      with step Rel Cons.prems show ?thesis
        by (auto simp: Release_def length_remove1 of_nat_diff Suc_leI split: if_splits)
    qed
    with Cons.IH step show ?case by simp
  qed simp
  from this [of "NewConcurrencyLimiter lim" "[]"] assms(1) show ?thesis
    by (auto simp: NewConcurrencyLimiter_def GetCurrent_def TryAcquire_def split: prod.splits)
qed

theorem holders_within_limit_witness:
  "case fold use_step [Try 1, Try 2, Try 3, Rel 1, Try 4] ([], NewConcurrencyLimiter 2) of (holders, c) \<Rightarrow>
     GetCurrent c = int (length holders) \<and> int (length holders) \<le> 2 \<and>
     (fst (TryAcquire c) \<longleftrightarrow> int (length holders) < 2)"
  by (rule holders_within_limit) (simp_all add: in_i64_def)

text \<open>
  C29: while nobody releases and no second \<open>Acquire\<close> runs, \<open>Acquire\<close> on a full limiter kills
  the program.  The goroutine it starts calls \<open>cond.Wait\<close>, which unlocks the mutex that
  \<open>Acquire\<close> unlocks as well: every run ends in the fatal error of unlocking an unlocked mutex,
  whatever the scheduler does, whether or not the context is cancelled, and whatever others
  do with the other methods.
\<close>
theorem acquire_on_full_limiter_is_fatal:
  assumes "current c \<ge> limit c"
  shows "inevitable (acq_step False) fatal (start c)"
proof -
  let ?m = "\<lambda>l a ws. \<lparr>cl = c, locked = l, acq = a, waiters = ws, fatal = False\<rparr>"
  let ?I = "inevitable (acq_step False) fatal"
  have full: "TryAcquire c \<noteq> (True, c')" for c' using assms by (simp add: TryAcquire_def)
  have now: "?I \<lparr>cl = k, locked = l, acq = a, waiters = ws, fatal = True\<rparr>" for k l a ws
    by (rule inevitable.now) simp
  have w: "\<exists>m'. acq_step False (?m l a [W_start]) m'" for l a
    by (rule exI, rule acq_step.wait [of _ 0]) simp_all
  have returned: "?I (?m False (A_done r) [W_start])" for r
    by (rule inevitable.later [where R = "acq_step False", OF w]) (auto elim!: acq_stepE simp: full unlock_def intro!: now)
  have unlock_parked: "?I (?m False (A_unlock r) [W_parked])" for r
    by (rule inevitable.later, rule exI, rule acq_step.return)
      (auto elim!: acq_stepE simp: full unlock_def less_Suc_eq intro!: now)
  have unlock: "?I (?m True (A_unlock r) [W_start])" for r
    by (rule inevitable.later [where R = "acq_step False", OF w]) (auto elim!: acq_stepE simp: full unlock_def intro!: returned unlock_parked)
  have ctx: "?I (?m False (A_ctx err) [W_start])" for err
    by (rule inevitable.later [where R = "acq_step False", OF w]) (auto elim!: acq_stepE simp: full unlock_def intro!: now unlock)
  have select: "?I (?m False A_select [W_start])"
    by (rule inevitable.later [where R = "acq_step False", OF w]) (auto elim!: acq_stepE simp: full unlock_def intro!: now ctx)
  have spawned_parked: "?I (?m False A_spawned [W_parked])"
    by (rule inevitable.later, rule exI, rule acq_step.let_go)
      (auto elim!: acq_stepE simp: full unlock_def less_Suc_eq intro!: now)
  have spawned: "?I (?m True A_spawned [W_start])"
    by (rule inevitable.later [where R = "acq_step False", OF w]) (auto elim!: acq_stepE simp: full unlock_def intro!: select spawned_parked)
  have check: "?I (?m True A_check [])"
    by (rule inevitable.later, rule exI, rule acq_step.check_full)
      (use assms in \<open>auto elim!: acq_stepE simp: full intro!: spawned\<close>)
  show ?thesis
    unfolding start_def
    by (rule inevitable.later, rule exI, rule acq_step.lock) (auto elim!: acq_stepE simp: full intro!: check)
qed

theorem acquire_on_full_limiter_is_fatal_witness:
  "inevitable (acq_step False) fatal (start \<lparr>limit = 1, current = 1\<rparr>)"
  by (rule acquire_on_full_limiter_is_fatal) simp

text \<open>
  With a release between the two unlocks the call can succeed, and then it returns with the
  mutex released: the fault is a race, not a certainty, on a busy limiter.
\<close>

lemma acquire_can_succeed_with_release:
  "(acq_step True)\<^sup>*\<^sup>* (start \<lparr>limit = 1, current = 1\<rparr>)
     \<lparr>cl = \<lparr>limit = 1, current = 1\<rparr>, locked = False, acq = A_done None, waiters = [W_closed], fatal = False\<rparr>"
proof -
  let ?m = "\<lambda>k l a ws. \<lparr>cl = \<lparr>limit = 1, current = k\<rparr>, locked = l, acq = a, waiters = ws, fatal = False\<rparr>"
  have "acq_step True (start \<lparr>limit = 1, current = 1\<rparr>) (?m 1 True A_check [])"
    using acq_step.lock [of "?m 1 False A_start []"] by (simp add: start_def)
  moreover have "acq_step True (?m 1 True A_check []) (?m 1 True A_spawned [W_start])"
    using acq_step.check_full [of "?m 1 True A_check []"] by simp
  moreover have "acq_step True (?m 1 True A_spawned [W_start]) (?m 1 False A_spawned [W_parked])"
    using acq_step.wait [of "?m 1 True A_spawned [W_start]" 0] by (simp add: unlock_def)
  moreover have "acq_step True (?m 1 False A_spawned [W_parked]) (?m 0 False A_spawned [W_woken])"
    using acq_step.release [of "?m 1 False A_spawned [W_parked]"] by (simp add: Release_def)
  moreover have "acq_step True (?m 0 False A_spawned [W_woken]) (?m 0 True A_spawned [W_closed])"
    using acq_step.wake [of "?m 0 False A_spawned [W_woken]" 0] by simp
  moreover have "acq_step True (?m 0 True A_spawned [W_closed]) (?m 0 False A_select [W_closed])"
    using acq_step.let_go [of "?m 0 True A_spawned [W_closed]"] by (simp add: unlock_def)
  moreover have "acq_step True (?m 0 False A_select [W_closed]) (?m 0 False A_relock [W_closed])"
    using acq_step.notified [of "?m 0 False A_select [W_closed]"] by simp
  moreover have "acq_step True (?m 0 False A_relock [W_closed]) (?m 0 True A_check [W_closed])"
    using acq_step.relock [of "?m 0 False A_relock [W_closed]"] by simp
  moreover have "acq_step True (?m 0 True A_check [W_closed]) (?m 1 True (A_unlock None) [W_closed])"
    using acq_step.check_free [of "?m 0 True A_check [W_closed]"] by (simp add: i64_def)
  moreover have "acq_step True (?m 1 True (A_unlock None) [W_closed]) (?m 1 False (A_done None) [W_closed])"
    using acq_step.return [of "?m 1 True (A_unlock None) [W_closed]"] by (simp add: unlock_def)
  ultimately show ?thesis by (meson rtranclp.rtrancl_refl converse_rtranclp_into_rtranclp)
qed

end
