(* ===== verification/Circuit.thy ===== *)
theory Circuit
  imports Errors
begin

text \<open>
  Package \<open>pkg/timeout\<close>, the circuit breaker.  A call is two critical sections around the
  function it protects: \<open>allowRequest\<close> before and \<open>recordResult\<close> after; calls of several
  goroutines interleave between them, so a use of the breaker is a sequence of the two.
\<close>

text \<open>The type of states is \<open>int\<close>; \<open>OtherState\<close> are its values without a name.\<close>

datatype circuit_state = Closed | Open | HalfOpen | OtherState int

fun state_String :: "circuit_state \<Rightarrow> string" where
  "state_String Closed = ''Closed''"
| "state_String Open = ''Open''"
| "state_String HalfOpen = ''HalfOpen''"
| "state_String (OtherState n) = ''Unknown''"

record circuit =
  maxFailures :: int
  resetTimeout :: duration
  failures :: int
  lastFailTime :: time
  state :: circuit_state

definition NewCircuitBreaker :: "int \<Rightarrow> duration \<Rightarrow> circuit" where
  "NewCircuitBreaker mx tmo = \<lparr>maxFailures = mx, resetTimeout = tmo, failures = 0, lastFailTime = 0, state = Closed\<rparr>"

definition allowRequest :: "time \<Rightarrow> circuit \<Rightarrow> bool \<times> circuit" where
  "allowRequest now c =
     (case state c of
        Closed \<Rightarrow> (True, c)
      | Open \<Rightarrow> if time_sub now (lastFailTime c) > resetTimeout c then (True, c\<lparr>state := HalfOpen\<rparr>) else (False, c)
      | HalfOpen \<Rightarrow> (True, c)
      | OtherState n \<Rightarrow> (False, c))"

definition recordResult :: "time \<Rightarrow> bool \<Rightarrow> circuit \<Rightarrow> circuit" where
  "recordResult now success c =
     (if success then c\<lparr>failures := 0, state := Closed\<rparr>
      else let c = c\<lparr>failures := i64 (failures c + 1), lastFailTime := now\<rparr>
           in if failures c \<ge> maxFailures c then c\<lparr>state := Open\<rparr> else c)"

text \<open>A whole call with nothing in between; \<open>fn\<close> is the result of the protected function.\<close>

definition Call :: "time \<Rightarrow> time \<Rightarrow> go_error option \<Rightarrow> circuit \<Rightarrow> go_error option \<times> circuit" where
  "Call t1 t2 fn c =
     (let (ok, c) = allowRequest t1 c
      in if \<not> ok then (Some (New TimeoutError ''circuit breaker is open''), c)
         else (fn, recordResult t2 (fn = None) c))"

definition GetState :: "circuit \<Rightarrow> circuit_state" where
  "GetState c = state c"

definition GetFailures :: "circuit \<Rightarrow> int" where
  "GetFailures c = failures c"

definition circuit_Reset :: "circuit \<Rightarrow> circuit" where
  "circuit_Reset c = c\<lparr>failures := 0, state := Closed, lastFailTime := 0\<rparr>"

section \<open>Sequences of steps\<close>

datatype circuit_event = Ask time | Record time bool | ResetIt

fun circuit_step :: "circuit_event \<Rightarrow> circuit \<Rightarrow> circuit" where
  "circuit_step (Ask t) c = snd (allowRequest t c)"
| "circuit_step (Record t ok) c = recordResult t ok c"
| "circuit_step ResetIt c = circuit_Reset c"

definition circuit_run :: "circuit_event list \<Rightarrow> circuit \<Rightarrow> circuit" where
  "circuit_run es c = fold circuit_step es c"

text \<open>The contract: the number of failures since the last success or reset.\<close>

fun streak_step :: "circuit_event \<Rightarrow> nat \<Rightarrow> nat" where
  "streak_step (Record t False) n = Suc n"
| "streak_step (Record t True) n = 0"
| "streak_step ResetIt n = 0"
| "streak_step (Ask t) n = n"

definition streak :: "circuit_event list \<Rightarrow> nat" where
  "streak es = fold streak_step es 0"

definition tracks :: "int \<Rightarrow> nat \<Rightarrow> circuit \<Rightarrow> bool" where
  "tracks mx n c \<longleftrightarrow> maxFailures c = mx \<and> failures c = int n \<and> (state c = Closed \<longleftrightarrow> int n < mx)"

lemma tracks_step:
  assumes "tracks mx n c" "1 \<le> mx" "int n < 2 ^ 63 - 1"
  shows "tracks mx (streak_step e n) (circuit_step e c)"
proof (cases e)
  case (Ask t)
  with assms show ?thesis by (cases "state c") (auto simp: tracks_def allowRequest_def)
next
  case (Record t ok)
  have "i64 (int n + 1) = int n + 1" using assms(3) by (intro i64_id) (simp add: in_i64_def)
  with Record assms(1,2) show ?thesis
    by (cases ok) (auto simp: tracks_def recordResult_def Let_def)
next
  case ResetIt
  with assms show ?thesis by (simp add: tracks_def circuit_Reset_def)
qed

lemma streak_step_le: "streak_step e n \<le> Suc n"
  by (cases "(e, n)" rule: streak_step.cases) auto

lemma tracks_run:
  assumes "tracks mx n c" "1 \<le> mx" "int (n + length es) < 2 ^ 63"
  shows "tracks mx (fold streak_step es n) (circuit_run es c)"
  using assms
proof (induction es arbitrary: n c)
  case (Cons e es)
  have "tracks mx (streak_step e n) (circuit_step e c)"
    by (rule tracks_step [OF Cons.prems(1,2)]) (use Cons.prems(3) in simp)
  moreover have "int (streak_step e n + length es) < 2 ^ 63"
    using Cons.prems(3) streak_step_le [of e n] by simp
  ultimately show ?case using Cons.IH Cons.prems(2) by (simp add: circuit_run_def)
qed (simp add: circuit_run_def)

section \<open>Properties\<close>

text \<open>
  C32: Whatever the interleaving of calls, the breaker counts the failures since the last
  success or reset, and it is closed exactly while they are fewer than the maximum.
\<close>
theorem breaker_counts_failures:
  assumes "1 \<le> mx" "int (length es) < 2 ^ 63"
  shows "GetFailures (circuit_run es (NewCircuitBreaker mx tmo)) = int (streak es) \<and>
     (GetState (circuit_run es (NewCircuitBreaker mx tmo)) = Closed \<longleftrightarrow> int (streak es) < mx)"
  using tracks_run [of mx 0 "NewCircuitBreaker mx tmo" es] assms
  by (simp add: tracks_def NewCircuitBreaker_def GetFailures_def GetState_def streak_def)

theorem breaker_counts_failures_witness:
  "GetState (circuit_run [Ask 0, Ask 1, Record 2 False, Record 3 False, Ask 9] (NewCircuitBreaker 2 5)) = HalfOpen \<and>
   int (streak [Ask 0, Ask 1, Record 2 False, Record 3 False, Ask 9]) \<ge> 2"
proof -
  let ?es = "[Ask 0, Ask 1, Record 2 False, Record 3 False, Ask 9]"
  have "GetState (circuit_run ?es (NewCircuitBreaker 2 5)) = HalfOpen"
    by (simp add: circuit_run_def NewCircuitBreaker_def allowRequest_def recordResult_def GetState_def time_sub_def i64_def)
  with breaker_counts_failures [of 2 ?es 5] show ?thesis by simp
qed

text \<open>
  C33: An open breaker rejects.  Until the reset timeout has passed since its last failure, and
  as long as no call that was let through earlier reports success and nobody resets it, every
  call is rejected without running the function, whatever else happens.
\<close>
theorem open_breaker_rejects:
  assumes "state c = Open" "0 \<le> resetTimeout c" "in_i64 (resetTimeout c)"
    and "\<forall>e \<in> set es. case e of Ask t \<Rightarrow> t - lastFailTime c \<le> resetTimeout c
           | Record t ok \<Rightarrow> \<not> ok \<and> lastFailTime c \<le> t | ResetIt \<Rightarrow> False"
    and "t1 - lastFailTime c \<le> resetTimeout c"
  shows "fst (Call t1 t2 fn (circuit_run es c)) = Some (New TimeoutError ''circuit breaker is open'') \<and>
     snd (Call t1 t2 fn (circuit_run es c)) = circuit_run es c"
proof -
  have late: "\<not> resetTimeout c < time_sub t l" if "t - lastFailTime c \<le> resetTimeout c" "lastFailTime c \<le> l" for t l
    using that assms(2,3) by (auto simp: time_sub_def in_i64_def)
  have "state (circuit_run es d) = Open \<and> resetTimeout (circuit_run es d) = resetTimeout c \<and>
      lastFailTime c \<le> lastFailTime (circuit_run es d)"
    if "state d = Open" "resetTimeout d = resetTimeout c" "lastFailTime c \<le> lastFailTime d" for d
    using that assms(4)
  proof (induction es arbitrary: d)
    case (Cons e es)
    have "state (circuit_step e d) = Open \<and> resetTimeout (circuit_step e d) = resetTimeout c \<and>
        lastFailTime c \<le> lastFailTime (circuit_step e d)"
      using Cons.prems late by (cases e) (auto simp: allowRequest_def recordResult_def Let_def)
    with Cons.IH [of "circuit_step e d"] Cons.prems(4) show ?case by (simp add: circuit_run_def)
  qed (simp add: circuit_run_def)
  from this [of c] assms(1) late [OF assms(5)] show ?thesis
    by (simp add: Call_def allowRequest_def)
qed

theorem open_breaker_rejects_witness:
  "fst (Call 8 9 None (circuit_run [Ask 4, Record 5 False] (circuit_run [Record 3 False] (NewCircuitBreaker 1 5)))) =
     Some (New TimeoutError ''circuit breaker is open'')"
  by (rule conjunct1, rule open_breaker_rejects)
    (simp_all add: circuit_run_def NewCircuitBreaker_def recordResult_def i64_def in_i64_def)

text \<open>
  A success of a call let through before the breaker opened closes it again at once, inside
  the reset timeout.
\<close>

lemma late_success_closes_the_breaker:
  "state (circuit_run [Ask 0, Ask 1, Record 2 False, Record 3 True] (NewCircuitBreaker 1 1000)) = Closed \<and>
   state (circuit_run [Ask 0, Ask 1, Record 2 False] (NewCircuitBreaker 1 1000)) = Open"
  by (simp add: circuit_run_def NewCircuitBreaker_def recordResult_def allowRequest_def i64_def)

end
