(* ===== verification/Retry.thy ===== *)
theory Retry
  imports Errors GoFloat
begin

text \<open>
  Package \<open>pkg/timeout\<close>, calls with a time limit and calls with retries.  What the called
  function returns and when a context ends are arguments: \<open>fn k\<close> is the result of the \<open>k\<close>-th
  attempt.
\<close>

section \<open>A call with a time limit\<close>

text \<open>The case the \<open>select\<close> takes: the function's result arrived, or the context ended.\<close>

datatype select_case = FnDone "go_error option" | CtxEnded go_error

fun WithTimeout :: "select_case \<Rightarrow> go_error option" where
  "WithTimeout (FnDone err) = err"
| "WithTimeout (CtxEnded e) =
     (if e = DeadlineExceeded then Some (New TimeoutError ''operation timed out'')
      else Some (NewWithCause InternalError ''context cancelled'' (Some e)))"

fun WithDeadline :: "select_case \<Rightarrow> go_error option" where
  "WithDeadline (FnDone err) = err"
| "WithDeadline (CtxEnded e) =
     (if e = DeadlineExceeded then Some (New TimeoutError ''deadline exceeded'')
      else Some (NewWithCause InternalError ''context cancelled'' (Some e)))"

section \<open>Retries\<close>

record retry_config =
  MaxAttempts :: int
  InitialDelay :: duration
  MaxDelay :: duration
  Multiplier :: rat

definition DefaultRetryConfig :: retry_config where
  "DefaultRetryConfig = \<lparr>MaxAttempts = 3, InitialDelay = 100 * millisecond, MaxDelay = 5 * second, Multiplier = 2\<rparr>"

text \<open>
  The environment: whether the context ends during the wait before an attempt, or is found
  ended after it, and what the conversion of a float out of the range of \<open>int64\<close> gives,
  which the language leaves open.
\<close>

record retry_env =
  during_wait :: "int \<Rightarrow> go_error option"
  after_attempt :: "int \<Rightarrow> go_error option"
  out_of_range :: "rat \<Rightarrow> int"

definition to_int64 :: "(rat \<Rightarrow> int) \<Rightarrow> rat \<Rightarrow> int" where
  "to_int64 oor x = (if in_i64 (trunc x) then trunc x else oor x)"

definition next_delay :: "retry_env \<Rightarrow> retry_config \<Rightarrow> duration \<Rightarrow> duration" where
  "next_delay env config delay =
     (let delay = to_int64 (out_of_range env) (fl (fl (of_int delay) * Multiplier config))
      in if delay > MaxDelay config then MaxDelay config else delay)"

definition retry_cancelled :: "go_error \<Rightarrow> go_error" where
  "retry_cancelled e = NewWithCause TimeoutError ''retry cancelled'' (Some e)"

text \<open>
  The loop; besides the result it gives the attempts made and the delays waited.
\<close>

function retry_loop :: "retry_env \<Rightarrow> retry_config \<Rightarrow> (int \<Rightarrow> go_error option) \<Rightarrow> int \<Rightarrow> duration \<Rightarrow>
    go_error option \<Rightarrow> go_error option \<times> int list \<times> duration list" where
  "retry_loop env config fn attempt delay lastErr =
     (if attempt > MaxAttempts config then (lastErr, [], [])
      else let waited = (if attempt > 1 then [delay] else []) in
        case (if attempt > 1 then during_wait env attempt else None) of
          Some e \<Rightarrow> (Some (retry_cancelled e), [], waited)
        | None \<Rightarrow>
            (let delay = (if attempt > 1 then next_delay env config delay else delay)
             in case fn attempt of
                  None \<Rightarrow> (None, [attempt], waited)
                | Some err \<Rightarrow>
                    (case after_attempt env attempt of
                       Some e \<Rightarrow> (Some (retry_cancelled e), [attempt], waited)
                     | None \<Rightarrow>
                         (let (r, as, ds) = retry_loop env config fn (attempt + 1) delay (Some err)
                          in (r, attempt # as, waited @ ds)))))"
  by pat_completeness auto
termination
  by (relation "measure (\<lambda>(env, config, fn, attempt, delay, lastErr). nat (MaxAttempts config + 1 - attempt))") auto

declare retry_loop.simps [simp del]

definition WithRetry :: "retry_env \<Rightarrow> retry_config option \<Rightarrow> (int \<Rightarrow> go_error option) \<Rightarrow>
    go_error option \<times> int list \<times> duration list" where
  "WithRetry env config fn =
     (let config = (case config of None \<Rightarrow> DefaultRetryConfig | Some c \<Rightarrow> c)
      in retry_loop env config fn 1 (InitialDelay config) None)"


section \<open>The delays\<close>

text \<open>The \<open>i\<close>-th wait of exponential back-off: the first is not capped.\<close>

definition backoff :: "retry_config \<Rightarrow> nat \<Rightarrow> duration" where
  "backoff config i = (if i = 0 then InitialDelay config else min (MaxDelay config) (InitialDelay config * 2 ^ i))"

definition doubling :: "retry_config \<Rightarrow> bool" where
  "doubling config \<longleftrightarrow> Multiplier config = 2 \<and> 0 \<le> InitialDelay config \<and> InitialDelay config < 2 ^ 52 \<and>
     0 \<le> MaxDelay config \<and> MaxDelay config < 2 ^ 52"

definition undisturbed :: "retry_env \<Rightarrow> bool" where
  "undisturbed env \<longleftrightarrow> during_wait env = (\<lambda>_. None) \<and> after_attempt env = (\<lambda>_. None)"

lemma next_delay_doubles:
  assumes "Multiplier config = 2" "0 \<le> d" "d < 2 ^ 52"
  shows "next_delay env config d = min (MaxDelay config) (2 * d)"
proof -
  have "fl (of_int d) = of_int d" using assms by (intro fl_int) simp_all
  moreover have "(of_int d :: rat) * 2 = of_int (2 * d)" by simp
  moreover have "fl (of_int (2 * d)) = of_int (2 * d)" using assms by (intro fl_int) simp_all
  ultimately have "fl (fl (of_int d) * Multiplier config) = of_int (2 * d)" using assms(1) by metis
  moreover have "trunc (of_int (2 * d)) = 2 * d" using assms(2) by (simp add: trunc_def del: of_int_mult)
  moreover have "in_i64 (2 * d)" using assms(2,3) by (simp add: in_i64_def)
  ultimately show ?thesis by (simp add: next_delay_def to_int64_def Let_def)
qed

lemma backoff_next:
  assumes "doubling config"
  shows "next_delay env config (backoff config i) = backoff config (Suc i)"
proof -
  have d: "0 \<le> InitialDelay config" "0 \<le> MaxDelay config" "MaxDelay config < 2 ^ 52" "InitialDelay config < 2 ^ 52"
    "Multiplier config = 2" using assms by (simp_all add: doubling_def)
  have "0 \<le> backoff config i \<and> backoff config i < 2 ^ 52"
    using d(1-4) zero_le_mult_iff [of "InitialDelay config" "2 ^ i"] by (auto simp: backoff_def)
  then have "next_delay env config (backoff config i) = min (MaxDelay config) (2 * backoff config i)"
    by (intro next_delay_doubles d(5)) simp_all
  also have "\<dots> = backoff config (Suc i)"
    using d(2) by (auto simp: backoff_def min_def)
  finally show ?thesis .
qed

lemma retry_loop_spec:
  assumes "undisturbed env" "doubling config" "2 \<le> a" "a \<le> MaxAttempts config + 1" "fn (a - 1) \<noteq> None"
  shows "retry_loop env config fn a (backoff config (nat (a - 2))) (fn (a - 1)) =
     (case find (\<lambda>k. fn k = None) [a..MaxAttempts config] of
        Some k \<Rightarrow> (None, [a..k], map (backoff config) [nat (a - 2)..<nat (k - 1)])
      | None \<Rightarrow> (fn (MaxAttempts config), [a..MaxAttempts config],
                 map (backoff config) [nat (a - 2)..<nat (MaxAttempts config - 1)]))"
  using assms(3-5)
proof (induction "nat (MaxAttempts config + 1 - a)" arbitrary: a)
  case 0
  then have "a = MaxAttempts config + 1" by simp
  then show ?case by (subst retry_loop.simps) simp
next
  case (Suc m)
  let ?M = "MaxAttempts config"
  have a: "2 \<le> a" "a \<le> ?M" using Suc.hyps(2) Suc.prems by simp_all
  have first: "[nat (a - 2)..<nat (k - 1)] = nat (a - 2) # [nat (a - 1)..<nat (k - 1)]" if "a \<le> k" for k
  proof -
    have "nat (a - 1) = Suc (nat (a - 2))" "nat (a - 2) < nat (k - 1)" using a that by linarith+
    then show ?thesis by (simp add: upt_conv_Cons)
  qed
  show ?case
  proof (cases "fn a")
    case None
    with a first [of a] assms(1) show ?thesis
      by (simp add: retry_loop.simps [of env config fn a] undisturbed_def upto_rec1 [of a ?M])
  next
    case (Some err)
    have delay: "next_delay env config (backoff config (nat (a - 2))) = backoff config (nat (a + 1 - 2))"
    proof -
      have "nat (a + 1 - 2) = Suc (nat (a - 2))" using a by linarith
      then show ?thesis by (simp add: backoff_next [OF assms(2)])
    qed
    have step: "retry_loop env config fn a (backoff config (nat (a - 2))) (fn (a - 1)) =
       (let (r, as, ds) = retry_loop env config fn (a + 1) (backoff config (nat (a + 1 - 2))) (fn (a + 1 - 1))
        in (r, a # as, backoff config (nat (a - 2)) # ds))"
      using a Some assms(1) by (simp add: retry_loop.simps [of env config fn a] undisturbed_def Let_def delay split_beta)
    have le: "a + 1 \<le> k" if "find (\<lambda>k. fn k = None) [a + 1..?M] = Some k" for k
      using that by (auto simp: find_Some_iff)
    show ?thesis
      unfolding step using Suc.hyps(1) [of "a + 1"] Suc.hyps(2) Suc.prems a Some le first
      by (auto simp: upto_rec1 [of a] split: option.splits)
  qed
qed


section \<open>Properties\<close>

text \<open>
  C34: Retries.  While the context lives, \<open>WithRetry\<close> makes attempts until the first success or
  the maximum and returns that success or the last error; the waits between them are the
  initial delay, then doubled each time up to the maximum delay.
\<close>
theorem retry_makes_attempts_until_success:
  assumes "undisturbed env" "doubling config" "1 \<le> MaxAttempts config"
  shows "WithRetry env (Some config) fn =
     (case find (\<lambda>k. fn k = None) [1..MaxAttempts config] of
        Some k \<Rightarrow> (None, [1..k], map (backoff config) [0..<nat (k - 1)])
      | None \<Rightarrow> (fn (MaxAttempts config), [1..MaxAttempts config],
                 map (backoff config) [0..<nat (MaxAttempts config - 1)]))"
proof (cases "fn 1")
  case None
  with assms(1,3) show ?thesis
    by (simp add: WithRetry_def retry_loop.simps [of env config fn 1] undisturbed_def upto_rec1)
next
  case (Some err)
  have step: "WithRetry env (Some config) fn =
     (let (r, as, ds) = retry_loop env config fn 2 (backoff config (nat (2 - 2))) (fn (2 - 1)) in (r, 1 # as, ds))"
    using assms(1,3) Some
    by (simp add: WithRetry_def retry_loop.simps [of env config fn 1] undisturbed_def backoff_def)
  have le: "2 \<le> k" if "find (\<lambda>k. fn k = None) [2..MaxAttempts config] = Some k" for k
    using that by (auto simp: find_Some_iff)
  show ?thesis
    unfolding step using retry_loop_spec [OF assms(1,2), of 2 fn] assms(3) Some le
    by (auto simp: upto_rec1 [of 1] split: option.splits)
qed

theorem retry_makes_attempts_until_success_witness:
  "WithRetry \<lparr>during_wait = \<lambda>_. None, after_attempt = \<lambda>_. None, out_of_range = \<lambda>_. 0\<rparr>
     (Some \<lparr>MaxAttempts = 5, InitialDelay = 3 * second, MaxDelay = 5 * second, Multiplier = 2\<rparr>)
     (\<lambda>k. if k < 4 then Some Canceled else None) =
   (None, [1, 2, 3, 4], [3 * second, 5 * second, 5 * second])"
  by (subst retry_makes_attempts_until_success)
    (simp_all add: undisturbed_def doubling_def upto_rec1 backoff_def upt_rec)

text \<open>A maximum below one makes no attempt and reports success.\<close>

lemma no_attempts_is_success:
  "MaxAttempts config < 1 \<Longrightarrow> WithRetry env (Some config) fn = (None, [], [])"
  by (simp add: WithRetry_def retry_loop.simps)

end
