(* ===== verification/Timers.thy ===== *)
theory Timers
  imports Errors
begin

text \<open>
  Package \<open>pkg/timeout\<close>, timers and groups of timers.  A timer of the runtime is a number:
  it is armed until it fires or is stopped.  When it fires, a goroutine starts, which first
  takes the lock of its \<open>Timer\<close>; between the two, methods of other goroutines may run.
\<close>

section \<open>Timer\<close>

text \<open>
  \<open>handle\<close> is the field \<open>timer\<close>; \<open>armed\<close> and \<open>firing\<close> are the runtime timers that are
  pending and those whose goroutine has not yet taken the lock; \<open>calls\<close> lists the calls of
  the callback by runtime timer; \<open>started\<close> counts the runtime timers created.
\<close>

record timer =
  span :: duration
  callback :: bool
  handle :: "nat option"
  active :: bool
  armed :: "nat list"
  firing :: "nat list"
  calls :: "nat list"
  started :: nat

definition NewTimer :: "duration \<Rightarrow> bool \<Rightarrow> timer" where
  "NewTimer d cb = \<lparr>span = d, callback = cb, handle = None, active = False, armed = [], firing = [], calls = [], started = 0\<rparr>"

definition timer_Start :: "timer \<Rightarrow> timer" where
  "timer_Start t =
     (if active t then t
      else t\<lparr>handle := Some (started t), armed := started t # armed t, started := Suc (started t), active := True\<rparr>)"

definition timer_Stop :: "timer \<Rightarrow> bool \<times> timer" where
  "timer_Stop t =
     (case handle t of
        None \<Rightarrow> (False, t)
      | Some i \<Rightarrow>
          if \<not> active t then (False, t)
          else (i \<in> set (armed t), t\<lparr>armed := removeAll i (armed t), active := False\<rparr>))"

definition timer_Reset :: "duration \<Rightarrow> timer \<Rightarrow> timer" where
  "timer_Reset d t =
     (let t = t\<lparr>span := d\<rparr>
      in case handle t of
           Some i \<Rightarrow> if active t then t\<lparr>armed := List.insert i (armed t)\<rparr> else t
         | None \<Rightarrow> t)"

definition IsActive :: "timer \<Rightarrow> bool" where
  "IsActive t = active t"

text \<open>A runtime timer fires; later its goroutine clears \<open>active\<close> and runs the callback.\<close>

definition fire :: "nat \<Rightarrow> timer \<Rightarrow> timer" where
  "fire i t = (if i \<in> set (armed t) then t\<lparr>armed := removeAll i (armed t), firing := i # firing t\<rparr> else t)"

definition run_callback :: "nat \<Rightarrow> timer \<Rightarrow> timer" where
  "run_callback i t =
     (if i \<in> set (firing t)
      then t\<lparr>firing := remove1 i (firing t), active := False,
             calls := (if callback t then i # calls t else calls t)\<rparr>
      else t)"

section \<open>Groups\<close>

type_synonym timeout_group = "(string, timer) gomap"

definition NewTimeoutGroup :: timeout_group where
  "NewTimeoutGroup = []"

text \<open>
  A replaced or removed timer is stopped and then unreachable; \<open>dropped\<close> collects such timers,
  whose goroutines may still be running.
\<close>

definition AddTimer :: "string \<Rightarrow> duration \<Rightarrow> bool \<Rightarrow> timeout_group \<Rightarrow> timeout_group \<times> timer list" where
  "AddTimer name d cb tg =
     (let dropped = (case map_of tg name of Some existing \<Rightarrow> [snd (timer_Stop existing)] | None \<Rightarrow> [])
      in (mput name (timer_Start (NewTimer d cb)) tg, dropped))"

definition RemoveTimer :: "string \<Rightarrow> timeout_group \<Rightarrow> bool \<times> timeout_group \<times> timer list" where
  "RemoveTimer name tg =
     (case map_of tg name of
        Some t \<Rightarrow> (let (stopped, t) = timer_Stop t in (stopped, mdel name tg, [t]))
      | None \<Rightarrow> (False, tg, []))"

definition ResetTimer :: "string \<Rightarrow> duration \<Rightarrow> timeout_group \<Rightarrow> bool \<times> timeout_group" where
  "ResetTimer name d tg =
     (case map_of tg name of
        None \<Rightarrow> (False, tg)
      | Some t \<Rightarrow> (True, mput name (timer_Reset d t) tg))"

definition StopAll :: "timeout_group \<Rightarrow> timeout_group \<times> timer list" where
  "StopAll tg = ([], map (\<lambda>(name, t). snd (timer_Stop t)) tg)"

definition Count :: "timeout_group \<Rightarrow> nat" where
  "Count tg = length tg"

section \<open>Uses of a timer\<close>

datatype timer_event = EStart | EStop | EReset duration | EFire nat | ECallback nat

text \<open>Besides the timer, the number of stops that reported success.\<close>

fun timer_step :: "timer_event \<Rightarrow> nat \<times> timer \<Rightarrow> nat \<times> timer" where
  "timer_step EStart (n, t) = (n, timer_Start t)"
| "timer_step EStop (n, t) = (case timer_Stop t of (ok, t) \<Rightarrow> (if ok then Suc n else n, t))"
| "timer_step (EReset d) (n, t) = (n, timer_Reset d t)"
| "timer_step (EFire i) (n, t) = (n, fire i t)"
| "timer_step (ECallback i) (n, t) = (n, run_callback i t)"

definition timer_run :: "timer_event list \<Rightarrow> timer \<Rightarrow> nat \<times> timer" where
  "timer_run es t = fold timer_step es (0, t)"

text \<open>Uses in which a goroutine takes the lock as soon as its timer fires.\<close>

datatype prompt_event = PStart | PStop | PReset duration | PExpire nat

fun prompt :: "prompt_event \<Rightarrow> timer_event list" where
  "prompt PStart = [EStart]"
| "prompt PStop = [EStop]"
| "prompt (PReset d) = [EReset d]"
| "prompt (PExpire i) = [EFire i, ECallback i]"

definition settled :: "nat \<Rightarrow> timer \<Rightarrow> bool" where
  "settled n t \<longleftrightarrow> callback t \<and> firing t = [] \<and>
     (if active t then \<exists>i. handle t = Some i \<and> armed t = [i] \<and> i < started t \<and> i \<notin> set (calls t) else armed t = []) \<and>
     (\<forall>i \<in> set (calls t). i < started t) \<and> distinct (calls t) \<and>
     started t = length (calls t) + n + (if active t then 1 else 0)"

lemma settled_prompt:
  assumes "settled n t" "fold timer_step (prompt e) (n, t) = (n', t')"
  shows "settled n' t'"
proof (cases e)
  case PStart
  with assms show ?thesis by (fastforce simp: timer_Start_def settled_def split: if_splits)
next
  case PStop
  with assms show ?thesis by (auto simp: timer_Stop_def settled_def split: option.splits if_splits)
next
  case (PReset d)
  with assms show ?thesis by (auto simp: timer_Reset_def settled_def Let_def split: option.splits if_splits)
next
  case (PExpire i)
  with assms show ?thesis by (auto simp: fire_def run_callback_def settled_def split: if_splits)
qed

lemma settled_run:
  assumes "settled n t" "fold timer_step (concat (map prompt es)) (n, t) = (n', t')"
  shows "settled n' t'"
  using assms
proof (induction es arbitrary: n t)
  case (Cons e es)
  obtain n1 t1 where step: "fold timer_step (prompt e) (n, t) = (n1, t1)" by (cases "fold timer_step (prompt e) (n, t)")
  from Cons.IH [OF settled_prompt [OF Cons.prems(1) step]] Cons.prems(2) step show ?case by simp
qed simp

text \<open>
  In any schedule a runtime timer is pending, firing, called back or stopped.  Only a \<open>Reset\<close>
  between a firing and its goroutine arms one a second time; \<open>rearms\<close> counts these.
\<close>

fun rearms :: "timer_event list \<Rightarrow> nat \<times> timer \<Rightarrow> nat" where
  "rearms [] s = 0"
| "rearms (e # es) (n, t) =
     (case e of EReset d \<Rightarrow> (case handle t of Some i \<Rightarrow> if active t \<and> i \<notin> set (armed t) then 1 else 0 | None \<Rightarrow> 0)
      | _ \<Rightarrow> 0) + rearms es (timer_step e (n, t))"

definition accounted :: "nat \<Rightarrow> nat \<Rightarrow> timer \<Rightarrow> bool" where
  "accounted m n t \<longleftrightarrow> callback t \<and> distinct (armed t) \<and> (\<forall>i \<in> set (armed t). i < started t) \<and>
     (\<forall>i. handle t = Some i \<longrightarrow> i < started t) \<and>
     started t + m = length (armed t) + length (firing t) + length (calls t) + n"

lemma length_removeAll_distinct:
  "distinct xs \<Longrightarrow> i \<in> set xs \<Longrightarrow> Suc (length (removeAll i xs)) = length xs"
  using length_remove1 [of i xs] distinct_remove1_removeAll [of xs i] length_pos_if_in_set [of i xs] by simp

lemma accounted_step:
  assumes "accounted m n t" "timer_step e (n, t) = (n', t')"
  shows "accounted (m + rearms [e] (n, t)) n' t'"
proof (cases e)
  case EStart
  with assms show ?thesis by (fastforce simp: accounted_def timer_Start_def)
next
  case EStop
  show ?thesis
  proof (cases "handle t")
    case None
    with EStop assms show ?thesis by (simp add: timer_Stop_def)
  next
    case (Some i)
    show ?thesis
    proof (cases "active t \<and> i \<in> set (armed t)")
      case True
      with EStop Some assms length_removeAll_distinct [of "armed t" i] show ?thesis
        by (auto simp: accounted_def timer_Stop_def distinct_removeAll)
    next
      case False
      then have "i \<notin> set (armed t) \<or> \<not> active t" by blast
      with EStop Some assms show ?thesis
        by (auto simp: accounted_def timer_Stop_def split: if_splits)
    qed
  qed
next
  case (EReset d)
  with assms show ?thesis
    by (auto simp: accounted_def timer_Reset_def Let_def split: option.splits if_splits)
next
  case (EFire i)
  show ?thesis
  proof (cases "i \<in> set (armed t)")
    case True
    with EFire assms length_removeAll_distinct [of "armed t" i] show ?thesis
      by (auto simp: accounted_def fire_def distinct_removeAll)
  qed (use EFire assms in \<open>simp add: fire_def\<close>)
next
  case (ECallback i)
  show ?thesis
  proof (cases "i \<in> set (firing t)")
    case True
    with ECallback assms length_pos_if_in_set [of i "firing t"] show ?thesis
      by (auto simp: accounted_def run_callback_def length_remove1)
  qed (use ECallback assms in \<open>simp add: run_callback_def\<close>)
qed

lemma rearms_Cons: "rearms (e # es) s = rearms [e] s + rearms es (timer_step e s)"
  by (cases s) simp

lemma accounted_run:
  assumes "accounted m n t" "fold timer_step es (n, t) = (n', t')"
  shows "accounted (m + rearms es (n, t)) n' t'"
  using assms
proof (induction es arbitrary: m n t)
  case (Cons e es)
  obtain n1 t1 where step: "timer_step e (n, t) = (n1, t1)" by (cases "timer_step e (n, t)")
  have "accounted (m + rearms [e] (n, t) + rearms es (n1, t1)) n' t'"
    using Cons.IH [OF accounted_step [OF Cons.prems(1) step]] Cons.prems(2) step by simp
  then show ?case unfolding rearms_Cons [of e es] step by (simp add: add.assoc)
qed simp

section \<open>Properties\<close>

text \<open>
  C35: No start is lost.  In any schedule the runtime timers that \<open>Start\<close> has created, and
  those that \<open>Reset\<close> has armed again after they fired, are pending, firing, called back or
  stopped by a \<open>Stop\<close> that reported success.  Where moreover the goroutine of a firing timer
  takes the lock before any other method, each effective \<open>Start\<close> leads to exactly one of: a
  call of the callback, a successful \<open>Stop\<close>, or the timer still being active; and no timer
  is called back twice.
\<close>
theorem each_start_fires_or_is_stopped:
  "(let (stops, t) = timer_run es (NewTimer d True)
    in started t + rearms es (0, NewTimer d True) = length (armed t) + length (firing t) + length (calls t) + stops) \<and>
   (let (stops, t) = timer_run (concat (map prompt ps)) (NewTimer d True)
    in started t = length (calls t) + stops + (if IsActive t then 1 else 0) \<and> distinct (calls t))"
proof
  obtain n t where run: "timer_run es (NewTimer d True) = (n, t)" by (cases "timer_run es (NewTimer d True)")
  have "accounted 0 0 (NewTimer d True)" by (simp add: accounted_def NewTimer_def)
  from accounted_run [OF this run [unfolded timer_run_def]]
  show "let (stops, t) = timer_run es (NewTimer d True)
    in started t + rearms es (0, NewTimer d True) = length (armed t) + length (firing t) + length (calls t) + stops"
    by (simp add: run accounted_def)
next
  obtain n t where run: "timer_run (concat (map prompt ps)) (NewTimer d True) = (n, t)"
    by (cases "timer_run (concat (map prompt ps)) (NewTimer d True)")
  have "settled 0 (NewTimer d True)" by (simp add: settled_def NewTimer_def)
  from settled_run [OF this run [unfolded timer_run_def]]
  show "let (stops, t) = timer_run (concat (map prompt ps)) (NewTimer d True)
    in started t = length (calls t) + stops + (if IsActive t then 1 else 0) \<and> distinct (calls t)"
    by (simp add: run settled_def IsActive_def)
qed

text \<open>
  A goroutine that comes late clears the flag of a timer started in between: \<open>Stop\<close>
  then reports that there is nothing to stop, and the callback runs after it.
\<close>

lemma late_goroutine_defeats_stop:
  "let (stops, t) = timer_run [EStart, EFire 0, EStop, EStart, ECallback 0] (NewTimer d True); (stopped, t) = timer_Stop t
     in \<not> stopped \<and> calls (snd (timer_run [EFire 1, ECallback 1] t)) = [1, 0]"
  by (simp add: timer_run_def NewTimer_def timer_Start_def timer_Stop_def fire_def run_callback_def)

end
