(* ===== verification/HttpHeaders.thy ===== *)
theory HttpHeaders
  imports Errors
begin

text \<open>
  Package \<open>pkg/http\<close>, request and response headers: the header map of \<open>net/http\<close> with its
  canonical names, the methods on both headers and their text.
\<close>

section \<open>The header map of net/http\<close>

text \<open>The characters of a token, in which alone names are made canonical.\<close>

definition is_lower :: "char \<Rightarrow> bool" where
  "is_lower c \<longleftrightarrow> 97 \<le> (of_char c :: nat) \<and> (of_char c :: nat) \<le> 122"

definition is_upper :: "char \<Rightarrow> bool" where
  "is_upper c \<longleftrightarrow> 65 \<le> (of_char c :: nat) \<and> (of_char c :: nat) \<le> 90"

definition token_char :: "char \<Rightarrow> bool" where
  "token_char c \<longleftrightarrow> is_lower c \<or> is_upper c \<or> is_digit c \<or> c \<in> set ''!#$%&*+-.^_`|~'' \<or> c = CHR 0x27"

fun canon :: "bool \<Rightarrow> string \<Rightarrow> string" where
  "canon upper [] = []"
| "canon upper (c # cs) =
     (if upper then to_upper_char c else to_lower_char c) # canon (c = CHR ''-'') cs"

definition CanonicalHeaderKey :: "string \<Rightarrow> string" where
  "CanonicalHeaderKey s = (if list_all token_char s then canon True s else s)"

type_synonym header = "(string, string list) gomap"

definition h_values :: "string \<Rightarrow> header \<Rightarrow> string list" where
  "h_values key h = (case map_of h key of Some vs \<Rightarrow> vs | None \<Rightarrow> [])"

definition h_Add :: "string \<Rightarrow> string \<Rightarrow> header \<Rightarrow> header" where
  "h_Add name value h = (let key = CanonicalHeaderKey name in mput key (h_values key h @ [value]) h)"

definition h_Set :: "string \<Rightarrow> string \<Rightarrow> header \<Rightarrow> header" where
  "h_Set name value h = mput (CanonicalHeaderKey name) [value] h"

definition h_Get :: "string \<Rightarrow> header \<Rightarrow> string" where
  "h_Get name h = (case h_values (CanonicalHeaderKey name) h of [] \<Rightarrow> [] | v # vs \<Rightarrow> v)"

definition h_Del :: "string \<Rightarrow> header \<Rightarrow> header" where
  "h_Del name h = mdel (CanonicalHeaderKey name) h"

definition crlf :: string where
  "crlf = [CHR 0x0D, CHR 0x0A]"

text \<open>The header lines, in the order of the sorted names.\<close>

definition header_lines :: "header \<Rightarrow> string" where
  "header_lines h =
     concat (map (\<lambda>k. concat (map (\<lambda>v. k @ '': '' @ v @ crlf) (h_values k h))) (sort (mkeys h)))"

section \<open>Requests\<close>

record request_header =
  rq_Method :: string
  rq_URI :: string
  rq_Version :: string
  rq_Headers :: header

definition BuildRequest :: "string \<Rightarrow> string \<Rightarrow> string option \<Rightarrow> go_error + request_header" where
  "BuildRequest method uri version =
     (if method = [] then Inl (New InvalidHTTPHeader ''method cannot be empty'')
      else if uri = [] then Inl (New InvalidHTTPHeader ''URI cannot be empty'')
      else let ver = (case version of Some v \<Rightarrow> v | None \<Rightarrow> ''HTTP/1.1'')
           in Inr \<lparr>rq_Method = method, rq_URI = uri, rq_Version = ver, rq_Headers = []\<rparr>)"

definition empty_name :: go_error where
  "empty_name = New InvalidHTTPHeader ''header name cannot be empty''"

definition rq_InsertHeader :: "string \<Rightarrow> string \<Rightarrow> request_header \<Rightarrow> go_error option \<times> request_header" where
  "rq_InsertHeader name value r =
     (if name = [] then (Some empty_name, r) else (None, r\<lparr>rq_Headers := h_Add name value (rq_Headers r)\<rparr>))"

definition rq_SetHeader :: "string \<Rightarrow> string \<Rightarrow> request_header \<Rightarrow> go_error option \<times> request_header" where
  "rq_SetHeader name value r =
     (if name = [] then (Some empty_name, r) else (None, r\<lparr>rq_Headers := h_Set name value (rq_Headers r)\<rparr>))"

definition rq_GetHeader :: "string \<Rightarrow> request_header \<Rightarrow> string" where
  "rq_GetHeader name r = h_Get name (rq_Headers r)"

definition rq_RemoveHeader :: "string \<Rightarrow> request_header \<Rightarrow> request_header" where
  "rq_RemoveHeader name r = r\<lparr>rq_Headers := h_Del name (rq_Headers r)\<rparr>"

definition rq_String :: "request_header \<Rightarrow> string" where
  "rq_String r = rq_Method r @ '' '' @ rq_URI r @ '' '' @ rq_Version r @ crlf @ header_lines (rq_Headers r) @ crlf"

section \<open>Responses\<close>

text \<open>The header map of a response may be nil.\<close>

record response_header =
  rs_Version :: string
  rs_StatusCode :: int
  rs_Status :: string
  rs_Headers :: "header option"

definition made :: "header option \<Rightarrow> header" where
  "made h = (case h of Some h \<Rightarrow> h | None \<Rightarrow> [])"

definition rs_InsertHeader :: "string \<Rightarrow> string \<Rightarrow> response_header \<Rightarrow> go_error option \<times> response_header" where
  "rs_InsertHeader name value r =
     (if name = [] then (Some empty_name, r)
      else (None, r\<lparr>rs_Headers := Some (h_Add name value (made (rs_Headers r)))\<rparr>))"

definition rs_SetHeader :: "string \<Rightarrow> string \<Rightarrow> response_header \<Rightarrow> go_error option \<times> response_header" where
  "rs_SetHeader name value r =
     (if name = [] then (Some empty_name, r)
      else (None, r\<lparr>rs_Headers := Some (h_Set name value (made (rs_Headers r)))\<rparr>))"

definition rs_GetHeader :: "string \<Rightarrow> response_header \<Rightarrow> string" where
  "rs_GetHeader name r = (case rs_Headers r of None \<Rightarrow> [] | Some h \<Rightarrow> h_Get name h)"

definition rs_String :: "response_header \<Rightarrow> string" where
  "rs_String r = rs_Version r @ '' '' @ itoa (rs_StatusCode r) @ '' '' @ rs_Status r @ crlf @
     (case rs_Headers r of None \<Rightarrow> [] | Some h \<Rightarrow> header_lines h) @ crlf"

section \<open>Names are compared without case\<close>

lemma lower_code:
  "(of_char (to_lower_char c) :: nat) = (if is_upper c then of_char c + 32 else of_char c)"
proof (cases "is_upper c")
  case True
  then have "(of_char c :: nat) + 32 < 256" by (simp add: is_upper_def)
  with True show ?thesis by (simp add: to_lower_char_def is_upper_def of_char_of)
qed (auto simp: to_lower_char_def is_upper_def)

lemma upper_of_lower: "to_upper_char (to_lower_char c) = to_upper_char c"
proof (cases "is_upper c")
  case True
  then have "(of_char c :: nat) + 32 < 256" by (simp add: is_upper_def)
  with True show ?thesis by (auto simp: to_upper_char_def to_lower_char_def is_upper_def of_char_of)
qed (auto simp: to_lower_char_def is_upper_def)

lemma lower_of_upper: "to_lower_char (to_upper_char c) = to_lower_char c"
proof (cases "is_lower c")
  case True
  then have "(of_char c :: nat) - 32 < 256" by (auto simp: is_lower_def)
  with True show ?thesis by (auto simp: to_upper_char_def to_lower_char_def is_lower_def of_char_of)
qed (auto simp: to_upper_char_def is_lower_def)

lemma to_lower_idem: "to_lower_char (to_lower_char c) = to_lower_char c"
  by (metis lower_of_upper upper_of_lower)

lemma lower_not_upper: "\<not> is_upper c \<Longrightarrow> to_lower_char c = c"
  by (auto simp: to_lower_char_def is_upper_def)

lemma lower_is_lower: "is_upper c \<Longrightarrow> is_lower (to_lower_char c)"
  by (simp add: is_lower_def lower_code) (simp add: is_upper_def)

lemma lower_dash: "to_lower_char c = CHR ''-'' \<longleftrightarrow> c = CHR ''-''"
proof (cases "is_upper c")
  case True
  from lower_is_lower [OF this] True show ?thesis by (auto simp: is_lower_def is_upper_def)
qed (simp add: lower_not_upper)

lemma token_lower: "token_char (to_lower_char c) = token_char c"
  using lower_is_lower [of c] lower_not_upper [of c] by (cases "is_upper c") (auto simp: token_char_def)

lemma canon_lower: "canon u (map to_lower_char s) = canon u s"
  by (induction s arbitrary: u) (auto simp: upper_of_lower to_lower_idem lower_dash)

lemma lower_canon: "map to_lower_char (canon u s) = map to_lower_char s"
  by (induction s arbitrary: u) (auto simp: lower_of_upper to_lower_idem)

text \<open>Two names denote the same header.\<close>

definition same_name :: "string \<Rightarrow> string \<Rightarrow> bool" where
  "same_name n n' \<longleftrightarrow> n = n' \<or> (list_all token_char n \<and> map to_lower_char n = map to_lower_char n')"

lemma token_same:
  assumes "map to_lower_char n = map to_lower_char n'"
  shows "list_all token_char n = list_all token_char n'"
proof -
  have "list_all token_char m = list_all token_char (map to_lower_char m)" for m
    by (induction m) (auto simp: token_lower)
  with assms show ?thesis by metis
qed

lemma canonical_iff: "CanonicalHeaderKey n = CanonicalHeaderKey n' \<longleftrightarrow> same_name n n'"
proof -
  have token: "list_all token_char (CanonicalHeaderKey m) = list_all token_char m" for m
    using token_same [OF lower_canon [of True m]] by (simp add: CanonicalHeaderKey_def)
  show ?thesis
  proof
    assume eq: "CanonicalHeaderKey n = CanonicalHeaderKey n'"
    then have t: "list_all token_char n = list_all token_char n'" using token by metis
    show "same_name n n'"
    proof (cases "list_all token_char n")
      case True
      with eq t have "canon True n = canon True n'" by (simp add: CanonicalHeaderKey_def)
      then have "map to_lower_char n = map to_lower_char n'" by (metis lower_canon)
      with True show ?thesis by (simp add: same_name_def)
    next
      case False
      with eq t show ?thesis by (simp add: CanonicalHeaderKey_def same_name_def)
    qed
  next
    assume "same_name n n'"
    then show "CanonicalHeaderKey n = CanonicalHeaderKey n'"
      using token_same [of n n'] canon_lower [of True n] canon_lower [of True n']
      by (auto simp: same_name_def CanonicalHeaderKey_def)
  qed
qed

section \<open>Properties\<close>

text \<open>
  C36: The headers of a request are a map from names without regard to case.  After adding,
  setting or removing a header, a lookup under any name that is the same up to the case of
  its letters sees the change, and a lookup under any other name what it saw before; adding
  to a header that has values leaves the first of them in place.
\<close>
theorem request_headers_ignore_case:
  assumes "name \<noteq> []"
  shows "rq_GetHeader name' (snd (rq_SetHeader name v r)) = (if same_name name name' then v else rq_GetHeader name' r)
     \<and> rq_GetHeader name' (snd (rq_InsertHeader name v r)) =
         (if same_name name name' \<and> h_values (CanonicalHeaderKey name) (rq_Headers r) = [] then v else rq_GetHeader name' r)
     \<and> rq_GetHeader name' (rq_RemoveHeader name r) = (if same_name name name' then [] else rq_GetHeader name' r)"
proof -
  have canon: "CanonicalHeaderKey name' = CanonicalHeaderKey name \<longleftrightarrow> same_name name name'"
    using canonical_iff [of name name'] by auto
  have "h_Get name' (h_Set name v h) = (if same_name name name' then v else h_Get name' h)" for h
    using canon by (simp add: h_Get_def h_Set_def h_values_def mput_lookup)
  moreover have "h_Get name' (h_Add name v h) =
      (if same_name name name' \<and> h_values (CanonicalHeaderKey name) h = [] then v else h_Get name' h)" for h
    using canon by (auto simp: h_Get_def h_Add_def h_values_def mput_lookup Let_def split: list.splits option.splits)
  moreover have "h_Get name' (h_Del name h) = (if same_name name name' then [] else h_Get name' h)" for h
    using canon by (simp add: h_Get_def h_Del_def h_values_def mdel_lookup)
  ultimately show ?thesis
    using assms by (simp add: rq_GetHeader_def rq_SetHeader_def rq_InsertHeader_def rq_RemoveHeader_def)
qed

theorem request_headers_ignore_case_witness:
  "same_name ''content-type'' ''Content-TYPE'' \<and>
   rq_GetHeader ''Content-TYPE'' (snd (rq_SetHeader ''content-type'' ''a''
     \<lparr>rq_Method = ''GET'', rq_URI = ''/'', rq_Version = ''HTTP/1.1'', rq_Headers = []\<rparr>)) = ''a''"
proof -
  have "same_name ''content-type'' ''Content-TYPE''"
    by (simp add: same_name_def token_char_def is_lower_def to_lower_char_def char_of_def bit_Suc_0_iff)
  then show ?thesis using request_headers_ignore_case [of "''content-type''"] by simp
qed


text \<open>A value that holds a line break is written out as it is, and reads as a header of its own.\<close>

lemma value_injects_header:
  "header_lines (h_Set ''A'' (''1'' @ crlf @ ''B: 2'') []) = header_lines (h_Set ''B'' ''2'' (h_Set ''A'' ''1'' []))"
proof -
  have "CanonicalHeaderKey ''A'' = ''A''" "CanonicalHeaderKey ''B'' = ''B''"
    by (simp_all add: CanonicalHeaderKey_def token_char_def is_upper_def to_upper_char_def)
  then show ?thesis
    by (simp add: h_Set_def header_lines_def mkeys_def mput_def h_values_def crlf_def less_eq_char_def)
qed

end
