(* ===== verification/HttpParse.thy ===== *)
theory HttpParse
  imports HttpHeaders GoFloat
begin

text \<open>
  Package \<open>pkg/http\<close>, parsing: HTTP versions and the Cache-Control header.  Trimming and lower
  case are those of the library on ASCII text; what they do to text with other characters is
  an argument.
\<close>

section \<open>HTTP versions\<close>

record http_version =
  Major :: int
  Minor :: int

definition HTTP10 :: http_version where "HTTP10 = \<lparr>Major = 1, Minor = 0\<rparr>"
definition HTTP11 :: http_version where "HTTP11 = \<lparr>Major = 1, Minor = 1\<rparr>"
definition HTTP2 :: http_version where "HTTP2 = \<lparr>Major = 2, Minor = 0\<rparr>"

definition version_String :: "http_version \<Rightarrow> string" where
  "version_String v = ''HTTP/'' @ itoa (Major v) @ ''.'' @ itoa (Minor v)"

definition ParseHTTPVersion :: "string \<Rightarrow> go_error + http_version" where
  "ParseHTTPVersion version =
     (if \<not> has_prefix version ''HTTP/'' then Inl (New InvalidHTTPHeader ''invalid HTTP version format'')
      else let parts = split_on (CHR ''.'') (trim_prefix version ''HTTP/'')
           in if length parts \<noteq> 2 then Inl (New InvalidHTTPHeader ''invalid HTTP version format'')
              else case atoi (parts ! 0) of
                     Inl e \<Rightarrow> Inl (NewWithCause InvalidHTTPHeader ''invalid major version'' (Some (NumError e (parts ! 0))))
                   | Inr major \<Rightarrow>
                       (case atoi (parts ! 1) of
                          Inl e \<Rightarrow> Inl (NewWithCause InvalidHTTPHeader ''invalid minor version'' (Some (NumError e (parts ! 1))))
                        | Inr minor \<Rightarrow> Inr \<lparr>Major = major, Minor = minor\<rparr>))"

section \<open>Cache-Control\<close>

record text_lib =
  trim_other :: "string \<Rightarrow> string"
  lower_other :: "string \<Rightarrow> string"

definition ascii :: "string \<Rightarrow> bool" where
  "ascii s \<longleftrightarrow> list_all (\<lambda>c. (of_char c :: nat) < 128) s"

definition ascii_space :: "char \<Rightarrow> bool" where
  "ascii_space c \<longleftrightarrow> c = CHR '' '' \<or> (9 \<le> (of_char c :: nat) \<and> (of_char c :: nat) \<le> 13)"

definition TrimSpace :: "text_lib \<Rightarrow> string \<Rightarrow> string" where
  "TrimSpace lib s =
     (if ascii s then rev (dropWhile ascii_space (rev (dropWhile ascii_space s))) else trim_other lib s)"

definition ToLower :: "text_lib \<Rightarrow> string \<Rightarrow> string" where
  "ToLower lib s = (if ascii s then map to_lower_char s else lower_other lib s)"

record cache_control =
  MaxAge :: "duration option"
  NoCache :: bool
  NoStore :: bool
  Public :: bool
  Private :: bool
  MustRevalidate :: bool

definition no_directives :: cache_control where
  "no_directives = \<lparr>MaxAge = None, NoCache = False, NoStore = False, Public = False, Private = False, MustRevalidate = False\<rparr>"

text \<open>The body of the loop over the directives.\<close>

definition directive_step :: "text_lib \<Rightarrow> string \<Rightarrow> cache_control \<Rightarrow> cache_control" where
  "directive_step lib directive cc =
     (let parts = split_on2 (CHR ''='') (TrimSpace lib directive); name = ToLower lib (parts ! 0)
      in if name = ''no-cache'' then cc\<lparr>NoCache := True\<rparr>
         else if name = ''no-store'' then cc\<lparr>NoStore := True\<rparr>
         else if name = ''public'' then cc\<lparr>Public := True\<rparr>
         else if name = ''private'' then cc\<lparr>Private := True\<rparr>
         else if name = ''must-revalidate'' then cc\<lparr>MustRevalidate := True\<rparr>
         else if name = ''max-age'' then
           (if length parts = 2 then
              (case atoi (parts ! 1) of
                 Inr seconds \<Rightarrow> cc\<lparr>MaxAge := Some (i64 (seconds * second))\<rparr>
               | Inl e \<Rightarrow> cc)
            else cc)
         else cc)"

definition ParseCacheControl :: "text_lib \<Rightarrow> string \<Rightarrow> cache_control" where
  "ParseCacheControl lib value = fold (directive_step lib) (split_on (CHR '','') value) no_directives"

definition cc_parts :: "cache_control \<Rightarrow> string list" where
  "cc_parts cc =
     (if NoCache cc then [''no-cache''] else []) @ (if NoStore cc then [''no-store''] else []) @
     (if Public cc then [''public''] else []) @ (if Private cc then [''private''] else []) @
     (if MustRevalidate cc then [''must-revalidate''] else []) @
     (case MaxAge cc of Some d \<Rightarrow> [''max-age='' @ itoa (whole_seconds d)] | None \<Rightarrow> [])"

definition cc_String :: "cache_control \<Rightarrow> string" where
  "cc_String cc = join '', '' (cc_parts cc)"

section \<open>Reading back what was written\<close>

lemma split_join:
  assumes "\<forall>p \<in> set (p # ps). CHR '','' \<notin> set p"
  shows "split_on (CHR '','') (join '', '' (p # ps)) = p # map (\<lambda>p. CHR '' '' # p) ps"
  using assms
proof (induction ps arbitrary: p)
  case Nil
  then show ?case by (simp add: split_on_no_sep)
next
  case (Cons q qs)
  from Cons.IH [of q] Cons.prems have "split_on (CHR '','') (join '', '' (q # qs)) = q # map (\<lambda>p. CHR '' '' # p) qs" by simp
  with Cons.prems show ?case by (simp add: split_on_append)
qed

text \<open>A directive as \<open>String\<close> writes it: nothing to trim, no comma.\<close>

definition clean :: "string \<Rightarrow> bool" where
  "clean p \<longleftrightarrow> ascii p \<and> p \<noteq> [] \<and> \<not> ascii_space (hd p) \<and> \<not> ascii_space (last p) \<and> CHR '','' \<notin> set p"

lemma trim_clean: "clean p \<Longrightarrow> TrimSpace lib p = p" "clean p \<Longrightarrow> TrimSpace lib (CHR '' '' # p) = p"
proof -
  assume p: "clean p"
  then have "dropWhile ascii_space p = p" "dropWhile ascii_space (rev p) = rev p"
    by (simp_all add: clean_def dropWhile_eq_self_iff hd_rev)
  with p show "TrimSpace lib p = p" "TrimSpace lib (CHR '' '' # p) = p"
    by (simp_all add: TrimSpace_def clean_def ascii_def ascii_space_def)
qed

lemma directive_clean: "clean p \<Longrightarrow> directive_step lib (CHR '' '' # p) = directive_step lib p"
  by (simp add: directive_step_def trim_clean fun_eq_iff)

lemma parse_parts:
  assumes "\<forall>p \<in> set ps. clean p"
  shows "ParseCacheControl lib (join '', '' ps) = fold (directive_step lib) ps no_directives"
proof (cases ps)
  case Nil
  have "directive_step lib [] no_directives = no_directives"
    by (simp add: directive_step_def TrimSpace_def ToLower_def ascii_def)
  with Nil show ?thesis by (simp add: ParseCacheControl_def)
next
  case (Cons p qs)
  have "fold (directive_step lib) (map (\<lambda>p. CHR '' '' # p) qs) cc = fold (directive_step lib) qs cc" for cc
    using assms unfolding Cons by (induction qs arbitrary: cc) (auto simp: directive_clean)
  with assms show ?thesis
    unfolding ParseCacheControl_def Cons by (subst split_join) (auto simp: clean_def)
qed

lemma clean_names: "\<forall>p \<in> {''no-cache'', ''no-store'', ''public'', ''private'', ''must-revalidate''}. clean p"
  by (simp add: clean_def ascii_def ascii_space_def)

lemma directive_names:
  "directive_step lib ''no-cache'' cc = cc\<lparr>NoCache := True\<rparr>" "directive_step lib ''no-store'' cc = cc\<lparr>NoStore := True\<rparr>"
  "directive_step lib ''public'' cc = cc\<lparr>Public := True\<rparr>" "directive_step lib ''private'' cc = cc\<lparr>Private := True\<rparr>"
  "directive_step lib ''must-revalidate'' cc = cc\<lparr>MustRevalidate := True\<rparr>"
  using clean_names by (simp_all add: directive_step_def trim_clean ToLower_def ascii_def to_lower_char_def)

lemma digits_plain: "0 \<le> n \<Longrightarrow> c \<in> set (itoa n) \<Longrightarrow> is_digit c"
  using itoa_chars by blast

lemma clean_max_age: "0 \<le> n \<Longrightarrow> clean (''max-age='' @ itoa n)"
proof -
  assume n: "0 \<le> n"
  have plain: "(of_char c :: nat) < 128 \<and> \<not> ascii_space c \<and> c \<noteq> CHR '',''" if "is_digit c" for c
    using that by (auto simp: is_digit_def ascii_space_def)
  have "itoa n \<noteq> []" by (simp add: itoa_def)
  with plain digits_plain [OF n] show ?thesis
    by (auto simp: clean_def ascii_def list_all_iff ascii_space_def)
qed

lemma directive_max_age:
  assumes "0 \<le> n" "in_i64 n"
  shows "directive_step lib (''max-age='' @ itoa n) cc = cc\<lparr>MaxAge := Some (i64 (n * second))\<rparr>"
  using assms clean_max_age [OF assms(1)] atoi_itoa [OF assms(2)]
  by (simp add: directive_step_def trim_clean ToLower_def ascii_def to_lower_char_def)

lemma prefix_split: "has_prefix s p \<Longrightarrow> s = p @ trim_prefix s p"
  unfolding trim_prefix_def has_prefix_def by (metis append_take_drop_id)

section \<open>Properties\<close>

text \<open>
  C37: Every version reads back from its text, and a text that is read has the shape of a
  version: the prefix, and two numbers around the only dot.
\<close>
theorem version_round_trip:
  assumes "in_i64 (Major v)" "in_i64 (Minor v)"
  shows "ParseHTTPVersion (version_String v) = Inr v \<and>
     (\<forall>s w. ParseHTTPVersion s = Inr w \<longrightarrow>
        (\<exists>a b. s = ''HTTP/'' @ a @ ''.'' @ b \<and> atoi a = Inr (Major w) \<and> atoi b = Inr (Minor w)))"
proof (intro conjI allI impI)
  have "CHR ''.'' \<notin> set (itoa i)" for i
  proof -
    have "\<not> is_digit (CHR ''.'')" by (simp add: is_digit_def)
    then show ?thesis using dec_digits by (auto simp: itoa_def)
  qed
  then have "split_on (CHR ''.'') (itoa (Major v) @ CHR ''.'' # itoa (Minor v)) = [itoa (Major v), itoa (Minor v)]"
    by (simp add: split_on_append split_on_no_sep)
  with assms show "ParseHTTPVersion (version_String v) = Inr v"
    by (simp add: ParseHTTPVersion_def version_String_def has_prefix_def trim_prefix_def atoi_itoa)
next
  fix s w assume parsed: "ParseHTTPVersion s = Inr w"
  let ?t = "trim_prefix s ''HTTP/''"
  have prefix: "has_prefix s ''HTTP/''" using parsed by (auto simp: ParseHTTPVersion_def split: if_splits)
  then have s: "s = ''HTTP/'' @ ?t" by (rule prefix_split)
  have "length (split_on (CHR ''.'') ?t) = 2"
    using parsed prefix by (auto simp: ParseHTTPVersion_def Let_def split: if_splits)
  then obtain a b where ab: "split_on (CHR ''.'') ?t = [a, b]"
    by (cases "split_on (CHR ''.'') ?t"; cases "tl (split_on (CHR ''.'') ?t)") auto
  from join_split [of "CHR ''.''" ?t] have "?t = a @ ''.'' @ b" by (simp add: ab)
  moreover have "atoi a = Inr (Major w) \<and> atoi b = Inr (Minor w)"
    using parsed prefix by (auto simp: ParseHTTPVersion_def ab Let_def split: sum.splits)
  ultimately show "\<exists>a b. s = ''HTTP/'' @ a @ ''.'' @ b \<and> atoi a = Inr (Major w) \<and> atoi b = Inr (Minor w)"
    using s by metis
qed

theorem version_round_trip_witness:
  "ParseHTTPVersion (version_String HTTP11) = Inr HTTP11"
  by (rule conjunct1, rule version_round_trip) (simp_all add: HTTP11_def in_i64_def)

text \<open>
  C38: Cache-Control reads back from its text: every combination of directives, with any
  maximum age of whole seconds up to 97 days.
\<close>
theorem cache_control_round_trip:
  assumes "MaxAge cc = None \<or> (\<exists>n. 0 \<le> n \<and> n < 2 ^ 23 \<and> MaxAge cc = Some (n * second))"
  shows "ParseCacheControl lib (cc_String cc) = cc"
proof -
  have clean: "\<forall>p \<in> set (cc_parts cc). clean p"
    using assms clean_names by (auto simp: cc_parts_def whole_seconds_exact clean_max_age [simplified] split: option.splits)
  have step: "fold (directive_step lib) (cc_parts cc) no_directives = cc"
  proof (cases "MaxAge cc")
    case None
    then show ?thesis
      by (cases cc) (simp add: cc_parts_def no_directives_def directive_names)
  next
    case (Some d)
    with assms obtain n where n: "0 \<le> n" "n < 2 ^ 23" "d = n * second" by auto
    then have "whole_seconds d = n" by (simp add: whole_seconds_exact)
    moreover have "in_i64 n" "in_i64 (n * second)" using n by (simp_all add: in_i64_def)
    ultimately show ?thesis using Some n
      by (cases cc) (simp add: cc_parts_def no_directives_def directive_names directive_max_age [simplified] i64_id)
  qed
  with parse_parts [OF clean] show ?thesis by (simp add: cc_String_def)
qed

theorem cache_control_round_trip_witness:
  "ParseCacheControl \<lparr>trim_other = \<lambda>s. s, lower_other = \<lambda>s. s\<rparr> (cc_String
      \<lparr>MaxAge = Some (60 * second), NoCache = False, NoStore = True, Public = False, Private = True, MustRevalidate = False\<rparr>) =
    \<lparr>MaxAge = Some (60 * second), NoCache = False, NoStore = True, Public = False, Private = True, MustRevalidate = False\<rparr>"
  by (rule cache_control_round_trip) (auto intro!: exI [of _ 60])

end
