(* ===== verification/Server.thy ===== *)
theory Server
  imports Errors
begin

text \<open>
  Package \<open>pkg/core\<close>: the server and its run, as a step relation over the goroutines it
  starts, for services of any kind; peers, builders and options.  The interface \<open>Service\<close> is
  the locale \<open>stoppable_service\<close>: what a service must do for a graceful end of a run.
\<close>

section \<open>The server\<close>

record server_config =
  GracefulShutdownTimeout :: duration
  PidFile :: string
  Daemon :: bool
  UpgradeSocket :: string
  Workers :: int

text \<open>
  A value of the interface \<open>Service\<close> is a pointer; the services they point to are in the
  store of a run, so a service that is added twice is one service.  \<open>shut\<close> says that the
  shutdown channel is closed.
\<close>

type_synonym ref = nat

record server =
  services :: "ref list"
  shut :: bool

definition NewServer :: "server_config option \<Rightarrow> server" where
  "NewServer cfg = \<lparr>services = [], shut = False\<rparr>"

definition AddService :: "ref \<Rightarrow> server \<Rightarrow> server" where
  "AddService service s = s\<lparr>services := services s @ [service]\<rparr>"

definition AddServices :: "ref list \<Rightarrow> server \<Rightarrow> server" where
  "AddServices svs s = s\<lparr>services := services s @ svs\<rparr>"

definition Bootstrap :: "server \<Rightarrow> go_error option" where
  "Bootstrap s = None"

text \<open>Closing a closed channel panics: \<open>None\<close>.\<close>

definition Shutdown :: "server \<Rightarrow> server option" where
  "Shutdown s = (if shut s then None else Some (s\<lparr>shut := True\<rparr>))"

section \<open>A run\<close>

text \<open>
  For each service of the snapshot: whether its goroutine of \<open>RunForever\<close> has called
  \<open>Start\<close>, and how far its goroutine of \<open>gracefulShutdown\<close> is.  A \<open>Stop\<close> has two steps, for
  the services here release their lock or touch shared state twice.  \<open>logged\<close> are the errors
  of \<open>Start\<close> and \<open>Stop\<close>, which the server only logs.
\<close>

datatype stop_pc = NotStopped | HalfStopped | Stopped "go_error option"

datatype phase = Serving | Stopping time | Returned "go_error option"

record proc =
  svc :: ref
  started :: bool
  stopping :: stop_pc

record 's run =
  store :: "ref \<Rightarrow> 's"
  procs :: "proc list"
  phase :: phase
  requested :: bool
  clock :: time
  logged :: "go_error list"

definition graceful_timeout :: go_error where
  "graceful_timeout = New TimeoutError ''graceful shutdown timeout''"

definition RunForever :: "(ref \<Rightarrow> 's) \<Rightarrow> time \<Rightarrow> server \<Rightarrow> 's run" where
  "RunForever st now s = \<lparr>store = st,
     procs = map (\<lambda>sv. \<lparr>svc = sv, started = False, stopping = NotStopped\<rparr>) (services s),
     phase = Serving, requested = shut s, clock = now, logged = []\<rparr>"

definition service_of :: "'s run \<Rightarrow> nat \<Rightarrow> 's" where
  "service_of r i = store r (svc (procs r ! i))"

text \<open>A step of a goroutine of the \<open>i\<close>-th service: what becomes of the service and of the goroutines.\<close>

definition update :: "nat \<Rightarrow> 's \<Rightarrow> bool \<Rightarrow> stop_pc \<Rightarrow> 's run \<Rightarrow> 's run" where
  "update i s' b pc r = r\<lparr>store := (store r)(svc (procs r ! i) := s'),
     procs := (procs r)[i := (procs r ! i)\<lparr>started := b, stopping := pc\<rparr>]\<rparr>"

definition log_error :: "go_error option \<Rightarrow> go_error list \<Rightarrow> go_error list" where
  "log_error e l = (case e of Some e \<Rightarrow> l @ [e] | None \<Rightarrow> l)"

text \<open>
  The steps: a service is started, runs on by itself, a shutdown is requested by a signal or
  on the channel, the run turns to stopping, a \<open>Stop\<close> begins and ends, and \<open>gracefulShutdown\<close>
  returns when all are done or the thirty seconds have passed.
\<close>

inductive run_step :: "('s \<Rightarrow> go_error option \<times> 's) \<Rightarrow> ('s \<Rightarrow> 's \<Rightarrow> bool) \<Rightarrow> ('s \<Rightarrow> go_error option \<times> 's \<Rightarrow> bool) \<Rightarrow>
    ('s \<Rightarrow> go_error option \<times> 's \<Rightarrow> bool) \<Rightarrow> 's run \<Rightarrow> 's run \<Rightarrow> bool"
  for start work stop_begin stop_end
where
  run_start: "\<lbrakk>i < length (procs r); \<not> started (procs r ! i); start (service_of r i) = (e, s')\<rbrakk> \<Longrightarrow>
     run_step start work stop_begin stop_end r
       ((update i s' True (stopping (procs r ! i)) r)\<lparr>logged := log_error e (logged r)\<rparr>)"
| run_work: "\<lbrakk>i < length (procs r); work (service_of r i) s'\<rbrakk> \<Longrightarrow>
     run_step start work stop_begin stop_end r
       ((update i s' (started (procs r ! i)) (stopping (procs r ! i)) r)\<lparr>logged := logged r\<rparr>)"
| run_request: "run_step start work stop_begin stop_end r (r\<lparr>requested := True\<rparr>)"
| run_tick: "0 \<le> d \<Longrightarrow> run_step start work stop_begin stop_end r (r\<lparr>clock := clock r + d\<rparr>)"
| run_shutdown: "\<lbrakk>phase r = Serving; requested r\<rbrakk> \<Longrightarrow>
     run_step start work stop_begin stop_end r (r\<lparr>phase := Stopping (clock r + 30 * second)\<rparr>)"
| run_stop: "\<lbrakk>phase r \<noteq> Serving; i < length (procs r); stopping (procs r ! i) = NotStopped;
      stop_begin (service_of r i) (e, s')\<rbrakk> \<Longrightarrow>
     run_step start work stop_begin stop_end r
       ((update i s' (started (procs r ! i)) (if e = None then HalfStopped else Stopped e) r)
          \<lparr>logged := log_error e (logged r)\<rparr>)"
| run_stopped: "\<lbrakk>i < length (procs r); stopping (procs r ! i) = HalfStopped; stop_end (service_of r i) (e, s')\<rbrakk> \<Longrightarrow>
     run_step start work stop_begin stop_end r
       ((update i s' (started (procs r ! i)) (Stopped e) r)\<lparr>logged := log_error e (logged r)\<rparr>)"
| run_done: "\<lbrakk>phase r = Stopping t; \<forall>p \<in> set (procs r). \<exists>e. stopping p = Stopped e\<rbrakk> \<Longrightarrow>
     run_step start work stop_begin stop_end r (r\<lparr>phase := Returned None\<rparr>)"
| run_timeout: "\<lbrakk>phase r = Stopping t; t \<le> clock r\<rbrakk> \<Longrightarrow>
     run_step start work stop_begin stop_end r (r\<lparr>phase := Returned (Some graceful_timeout)\<rparr>)"

section \<open>What a service promises\<close>

text \<open>
  \<open>quiet\<close>: the service holds no open listener.  A successful end of \<open>Stop\<close> makes it quiet,
  and nothing the server does to it afterwards, not even a late \<open>Start\<close>, ends that.
\<close>

locale stoppable_service =
  fixes start :: "'s \<Rightarrow> go_error option \<times> 's"
    and work :: "'s \<Rightarrow> 's \<Rightarrow> bool"
    and stop_begin :: "'s \<Rightarrow> go_error option \<times> 's \<Rightarrow> bool"
    and stop_end :: "'s \<Rightarrow> go_error option \<times> 's \<Rightarrow> bool"
    and quiet :: "'s \<Rightarrow> bool"
  assumes start_quiet: "quiet s \<Longrightarrow> quiet (snd (start s))"
    and work_quiet: "quiet s \<Longrightarrow> work s s' \<Longrightarrow> quiet s'"
    and stop_begin_quiet: "quiet s \<Longrightarrow> stop_begin s r \<Longrightarrow> quiet (snd r)"
    and stop_end_quiet: "quiet s \<Longrightarrow> stop_end s r \<Longrightarrow> quiet (snd r)"
    and stopped_quiet: "stop_end s (None, s') \<Longrightarrow> quiet s'"
begin

definition run_inv :: "'s run \<Rightarrow> bool" where
  "run_inv r \<longleftrightarrow>
     (\<forall>p \<in> set (procs r). stopping p = Stopped None \<longrightarrow> quiet (store r (svc p))) \<and>
     (\<forall>p \<in> set (procs r). \<forall>e. stopping p = Stopped (Some e) \<longrightarrow> e \<in> set (logged r)) \<and>
     (phase r = Returned None \<longrightarrow> (\<forall>p \<in> set (procs r). \<exists>e. stopping p = Stopped e)) \<and>
     (phase r = Serving \<longrightarrow> (\<forall>p \<in> set (procs r). stopping p = NotStopped))"

lemma in_update:
  assumes "\<forall>p \<in> set ps. P p" "P q"
  shows "\<forall>p \<in> set (ps[i := q]). P p"
  using assms set_update_subset_insert [of ps i q] by auto

lemma run_inv_start: "run_inv (RunForever st now s)"
  by (auto simp: run_inv_def RunForever_def)

lemma log_keeps: "e \<in> set l \<Longrightarrow> e \<in> set (log_error e' l)"
  by (cases e') (auto simp: log_error_def)

lemma run_inv_proc:
  assumes "run_inv r" "i < length (procs r)"
  shows "stopping (procs r ! i) = Stopped None \<Longrightarrow> quiet (service_of r i)"
    "stopping (procs r ! i) = Stopped (Some e) \<Longrightarrow> e \<in> set (logged r)"
    "phase r = Returned None \<Longrightarrow> \<exists>e. stopping (procs r ! i) = Stopped e"
    "phase r = Serving \<Longrightarrow> stopping (procs r ! i) = NotStopped"
  using assms by (auto simp: run_inv_def service_of_def)

text \<open>A step that keeps a quiet service quiet keeps the invariant of every goroutine on it.\<close>

lemma run_inv_update:
  assumes inv: "run_inv r" and i: "i < length (procs r)" and log: "set (logged r) \<subseteq> set l"
    and keeps: "quiet (service_of r i) \<Longrightarrow> quiet s'"
    and q: "pc = Stopped None \<Longrightarrow> quiet s'" "\<And>e. pc = Stopped (Some e) \<Longrightarrow> e \<in> set l"
      "phase r = Returned None \<Longrightarrow> \<exists>e. pc = Stopped e" "phase r = Serving \<Longrightarrow> pc = NotStopped"
  shows "run_inv ((update i s' b pc r)\<lparr>logged := l\<rparr>)"
proof -
  let ?st = "(store r)(svc (procs r ! i) := s')" and ?q = "(procs r ! i)\<lparr>started := b, stopping := pc\<rparr>"
  have "\<forall>p \<in> set (procs r). stopping p = Stopped None \<longrightarrow> quiet (?st (svc p))"
    using inv keeps by (auto simp: run_inv_def service_of_def)
  then have "\<forall>p \<in> set ((procs r)[i := ?q]). stopping p = Stopped None \<longrightarrow> quiet (?st (svc p))"
    using q(1) by (intro in_update) auto
  moreover have "\<forall>p \<in> set ((procs r)[i := ?q]). \<forall>e. stopping p = Stopped (Some e) \<longrightarrow> e \<in> set l"
    using inv log q(2) by (intro in_update) (auto simp: run_inv_def)
  moreover have "\<forall>p \<in> set ((procs r)[i := ?q]). \<exists>e. stopping p = Stopped e" if "phase r = Returned None"
    using inv q(3) that by (intro in_update) (auto simp: run_inv_def)
  moreover have "\<forall>p \<in> set ((procs r)[i := ?q]). stopping p = NotStopped" if "phase r = Serving"
    using inv q(4) that by (intro in_update) (auto simp: run_inv_def)
  ultimately show ?thesis by (simp add: run_inv_def update_def)
qed

lemma run_inv_step:
  assumes "run_step start work stop_begin stop_end r r'" "run_inv r"
  shows "run_inv r'"
  using assms
proof cases
  case (run_start i e s')
  note old = run_inv_proc [OF assms(2) run_start(2)]
  have "quiet (service_of r i) \<Longrightarrow> quiet s'" using start_quiet run_start(4) by (metis snd_conv)
  then show ?thesis unfolding run_start(1)
    by (intro run_inv_update [OF assms(2) run_start(2)]) (use old log_keeps in auto)
next
  case (run_work i s')
  note old = run_inv_proc [OF assms(2) run_work(2)]
  show ?thesis unfolding run_work(1)
    by (rule run_inv_update [OF assms(2) run_work(2)]) (use old work_quiet run_work(3) in auto)
next
  case (run_stop i e s')
  note old = run_inv_proc [OF assms(2) run_stop(3)]
  have "quiet (service_of r i) \<Longrightarrow> quiet s'" using stop_begin_quiet run_stop(5) by (metis snd_conv)
  then show ?thesis unfolding run_stop(1)
    by (intro run_inv_update [OF assms(2) run_stop(3)])
      (use old run_stop(2,4) log_keeps in \<open>auto simp: log_error_def split: if_splits\<close>)
next
  case (run_stopped i e s')
  note old = run_inv_proc [OF assms(2) run_stopped(2)]
  have "quiet (service_of r i) \<Longrightarrow> quiet s'" using stop_end_quiet run_stopped(4) by (metis snd_conv)
  moreover have "e = None \<Longrightarrow> quiet s'" using stopped_quiet run_stopped(4) by blast
  ultimately show ?thesis unfolding run_stopped(1)
    by (intro run_inv_update [OF assms(2) run_stopped(2)])
      (use old run_stopped(3) log_keeps in \<open>auto simp: log_error_def\<close>)
qed (auto simp: run_inv_def)

lemma run_inv_reach:
  assumes "(run_step start work stop_begin stop_end)\<^sup>*\<^sup>* (RunForever st now s) r"
  shows "run_inv r"
  using assms by (induction rule: rtranclp_induct) (auto intro: run_inv_start run_inv_step)

text \<open>
  A run that returns no error has stopped every service: with success, and then it is quiet,
  or with an error, and then that was logged.
\<close>

lemma stopped_or_logged:
  assumes "(run_step start work stop_begin stop_end)\<^sup>*\<^sup>* (RunForever st now s) r" "phase r = Returned None" "p \<in> set (procs r)"
  shows "(stopping p = Stopped None \<and> quiet (store r (svc p))) \<or> (\<exists>e \<in> set (logged r). stopping p = Stopped (Some e))"
proof -
  have inv: "run_inv r" using assms(1) by (rule run_inv_reach)
  with assms(2,3) obtain e where "stopping p = Stopped e" by (auto simp: run_inv_def)
  with inv assms(3) show ?thesis by (cases e) (auto simp: run_inv_def)
qed

text \<open>The goroutines are those of the services of the server.\<close>

lemma procs_of_services:
  assumes "(run_step start work stop_begin stop_end)\<^sup>*\<^sup>* (RunForever st now s) r"
  shows "map svc (procs r) = services s"
  using assms
proof (induction rule: rtranclp_induct)
  case (step r r')
  have same: "map svc (procs (update i x b pc r)) = map svc (procs r)" for i x b pc
    by (simp add: update_def map_update) (metis list_update_id map_update)
  from step.hyps(2) step.IH same show ?case by cases auto
qed (simp add: RunForever_def comp_def)

text \<open>The run gives up on the services thirty seconds after it began to stop them, not before.\<close>

lemma gives_up_late:
  assumes "(run_step start work stop_begin stop_end)\<^sup>*\<^sup>* r1 r" "phase r1 = Serving" "phase r = Returned (Some e)"
  shows "e = graceful_timeout \<and> clock r1 + 30 * second \<le> clock r"
proof -
  have "clock r1 \<le> clock r \<and> (\<forall>t. phase r = Stopping t \<longrightarrow> clock r1 + 30 * second \<le> t) \<and>
      (\<forall>e. phase r = Returned (Some e) \<longrightarrow> e = graceful_timeout \<and> clock r1 + 30 * second \<le> clock r)"
    using assms(1)
  proof (induction rule: rtranclp_induct)
    case base
    show ?case using assms(2) by simp
  next
    case (step r r')
    from step.hyps(2) step.IH show ?case by cases (auto simp: update_def)
  qed
  with assms(3) show ?thesis by simp
qed

end

end
