(* ===== verification/Pool.thy ===== *)
theory Pool
  imports Errors
begin

text \<open>
  Package \<open>pkg/pool\<close>: the pool of TCP connections and the thin pool over the HTTP client.
  Connections are numbers.  What dialling and closing give is an argument of the methods;
  each method runs as one step (the dial happens under the lock of its host pool).  \<open>Close\<close> of
  the HTTP pool changes no state of the package and is left out.
\<close>

type_synonym conn = nat

section \<open>Configuration\<close>

record pool_config =
  MaxIdleConns :: int
  MaxConnsPerHost :: int
  KeepAlive :: duration
  ConnectTimeout :: duration
  IdleTimeout :: duration

definition DefaultPoolConfig :: pool_config where
  "DefaultPoolConfig = \<lparr>MaxIdleConns = 100, MaxConnsPerHost = 10, KeepAlive = 30 * second,
     ConnectTimeout = 10 * second, IdleTimeout = 90 * second\<rparr>"

definition or_default :: "pool_config option \<Rightarrow> pool_config" where
  "or_default config = (case config of None \<Rightarrow> DefaultPoolConfig | Some c \<Rightarrow> c)"

record pool_stats =
  st_MaxIdleConns :: int
  st_MaxConnsPerHost :: int
  CurrentIdleConns :: int
  ActiveConns :: int
  TotalConns :: int

section \<open>The HTTP pool\<close>

text \<open>The settings of the transport and the client that the pool hands to \<open>net/http\<close>.\<close>

record http_client =
  DialTimeout :: duration
  DialKeepAlive :: duration
  tr_MaxIdleConns :: int
  tr_MaxIdleConnsPerHost :: int
  tr_IdleConnTimeout :: duration
  tr_TLSHandshakeTimeout :: duration
  tr_DisableCompression :: bool
  cl_Timeout :: duration

record http_pool =
  hp_config :: pool_config
  hp_client :: http_client

definition NewHTTPConnectionPool :: "pool_config option \<Rightarrow> http_pool" where
  "NewHTTPConnectionPool config =
     (let config = or_default config
      in \<lparr>hp_config = config,
          hp_client = \<lparr>DialTimeout = ConnectTimeout config, DialKeepAlive = KeepAlive config,
            tr_MaxIdleConns = MaxIdleConns config, tr_MaxIdleConnsPerHost = MaxConnsPerHost config,
            tr_IdleConnTimeout = IdleTimeout config, tr_TLSHandshakeTimeout = 10 * second,
            tr_DisableCompression = False, cl_Timeout = 30 * second\<rparr>\<rparr>)"

definition hp_GetClient :: "http_pool \<Rightarrow> http_client" where
  "hp_GetClient p = hp_client p"

text \<open>\<open>dial\<close> gets the time limit, the keep-alive and the address.\<close>

type_synonym dialer = "duration \<Rightarrow> duration \<Rightarrow> string \<Rightarrow> go_error + conn"

definition dial_failed :: "go_error \<Rightarrow> go_error" where
  "dial_failed e = NewWithCause ConnectionError ''failed to dial'' (Some e)"

definition hp_GetConnection :: "dialer \<Rightarrow> string \<Rightarrow> http_pool \<Rightarrow> go_error + conn" where
  "hp_GetConnection dial address p =
     (case dial (ConnectTimeout (hp_config p)) (KeepAlive (hp_config p)) address of
        Inl e \<Rightarrow> Inl (dial_failed e)
      | Inr c \<Rightarrow> Inr c)"

definition hp_ReleaseConnection :: "(conn \<Rightarrow> go_error option) \<Rightarrow> conn option \<Rightarrow> string \<Rightarrow> go_error option" where
  "hp_ReleaseConnection close c address =
     (case c of
        None \<Rightarrow> None
      | Some c \<Rightarrow> (case close c of
           Some e \<Rightarrow> Some (NewWithCause ConnectionError ''failed to close connection'' (Some e))
         | None \<Rightarrow> None))"

definition hp_GetStats :: "http_pool \<Rightarrow> pool_stats" where
  "hp_GetStats p = \<lparr>st_MaxIdleConns = MaxIdleConns (hp_config p), st_MaxConnsPerHost = MaxConnsPerHost (hp_config p),
     CurrentIdleConns = 0, ActiveConns = 0, TotalConns = 0\<rparr>"

section \<open>The TCP pool\<close>

text \<open>\<open>slots\<close> is the capacity of the slice of idle connections, which never changes.\<close>

record host_pool =
  address :: string
  connections :: "conn list"
  slots :: int
  maxConns :: int
  activeConns :: int

record tcp_pool =
  config :: pool_config
  pools :: "(string, host_pool) gomap"

definition NewTCPConnectionPool :: "pool_config option \<Rightarrow> tcp_pool" where
  "NewTCPConnectionPool cfg = \<lparr>config = or_default cfg, pools = []\<rparr>"

definition new_host :: "string \<Rightarrow> pool_config \<Rightarrow> host_pool" where
  "new_host addr cfg = \<lparr>address = addr, connections = [], slots = MaxConnsPerHost cfg,
     maxConns = MaxConnsPerHost cfg, activeConns = 0\<rparr>"

text \<open>The part of \<open>GetConnection\<close> under the lock of the host pool.\<close>

definition host_get :: "dialer \<Rightarrow> pool_config \<Rightarrow> string \<Rightarrow> host_pool \<Rightarrow> (go_error + conn) \<times> host_pool" where
  "host_get dial cfg addr h =
     (if length (connections h) > 0
      then (Inr (last (connections h)),
            h\<lparr>connections := butlast (connections h), activeConns := i64 (activeConns h + 1)\<rparr>)
      else if activeConns h \<ge> maxConns h then (Inl (New PoolError ''connection pool exhausted''), h)
      else case dial (ConnectTimeout cfg) (KeepAlive cfg) addr of
             Inl e \<Rightarrow> (Inl (dial_failed e), h)
           | Inr c \<Rightarrow> (Inr c, h\<lparr>activeConns := i64 (activeConns h + 1)\<rparr>))"

text \<open>\<open>None\<close> is the panic of \<open>make\<close> on a negative capacity; memory is unbounded.\<close>

definition tcp_GetConnection :: "dialer \<Rightarrow> string \<Rightarrow> tcp_pool \<Rightarrow> ((go_error + conn) \<times> tcp_pool) option" where
  "tcp_GetConnection dial addr p =
     (case (case map_of (pools p) addr of
              Some h \<Rightarrow> Some h
            | None \<Rightarrow> if MaxConnsPerHost (config p) < 0 then None else Some (new_host addr (config p))) of
        None \<Rightarrow> None
      | Some h \<Rightarrow> (let (r, h) = host_get dial (config p) addr h in Some (r, p\<lparr>pools := mput addr h (pools p)\<rparr>)))"

definition tcp_ReleaseConnection :: "(conn \<Rightarrow> go_error option) \<Rightarrow> conn option \<Rightarrow> string \<Rightarrow> tcp_pool \<Rightarrow> go_error option \<times> tcp_pool" where
  "tcp_ReleaseConnection close c addr p =
     (case c of
        None \<Rightarrow> (None, p)
      | Some c \<Rightarrow>
          (case map_of (pools p) addr of
             None \<Rightarrow> (OrErr (close c) ConnectionError ''failed to close connection'', p)
           | Some h \<Rightarrow>
               (let h = h\<lparr>activeConns := i64 (activeConns h - 1)\<rparr>
                in if int (length (connections h)) < slots h
                   then (None, p\<lparr>pools := mput addr (h\<lparr>connections := connections h @ [c]\<rparr>) (pools p)\<rparr>)
                   else (OrErr (close c) ConnectionError ''failed to close excess connection'',
                         p\<lparr>pools := mput addr h (pools p)\<rparr>))))"

text \<open>
  \<open>GetClient\<close>: a client of \<open>net/http\<close> whose transport has its zero settings and dials through
  \<open>GetConnection\<close>.  The transport closes its connections itself, it never gives one back.
\<close>

definition tcp_GetClient :: http_client where
  "tcp_GetClient = \<lparr>DialTimeout = 0, DialKeepAlive = 0, tr_MaxIdleConns = 0, tr_MaxIdleConnsPerHost = 0,
     tr_IdleConnTimeout = 0, tr_TLSHandshakeTimeout = 0, tr_DisableCompression = False, cl_Timeout = 30 * second\<rparr>"

definition client_dial :: "dialer \<Rightarrow> string \<Rightarrow> tcp_pool \<Rightarrow> ((go_error + conn) \<times> tcp_pool) option" where
  "client_dial dial addr p =
     (case tcp_GetConnection dial addr p of
        None \<Rightarrow> None
      | Some (Inl err, p) \<Rightarrow> Some (Inl err, p)
      | Some (Inr c, p) \<Rightarrow> Some (Inr c, p))"

text \<open>\<open>Close\<close>, with the connections it closes in the order of the loop over the map.\<close>

definition tcp_Close :: "((string \<times> host_pool) list \<Rightarrow> (string \<times> host_pool) list) \<Rightarrow> tcp_pool \<Rightarrow> conn list \<times> tcp_pool" where
  "tcp_Close sh p = (concat (map (\<lambda>(a, h). connections h) (sh (pools p))), p\<lparr>pools := []\<rparr>)"

fun add_stats :: "(string \<times> host_pool) list \<Rightarrow> pool_stats \<Rightarrow> pool_stats" where
  "add_stats [] st = st"
| "add_stats ((a, h) # hs) st =
     add_stats hs (st\<lparr>CurrentIdleConns := i64 (CurrentIdleConns st + int (length (connections h))),
                      ActiveConns := i64 (ActiveConns st + activeConns h)\<rparr>)"

definition tcp_GetStats :: "((string \<times> host_pool) list \<Rightarrow> (string \<times> host_pool) list) \<Rightarrow> tcp_pool \<Rightarrow> pool_stats" where
  "tcp_GetStats sh p =
     (let st = add_stats (sh (pools p)) \<lparr>st_MaxIdleConns = MaxIdleConns (config p),
            st_MaxConnsPerHost = MaxConnsPerHost (config p), CurrentIdleConns = 0, ActiveConns = 0, TotalConns = 0\<rparr>
      in st\<lparr>TotalConns := i64 (CurrentIdleConns st + ActiveConns st)\<rparr>)"

section \<open>Uses of the pool\<close>

text \<open>
  A caller asks for a connection to an address, or gives back one it holds for it.  \<open>held\<close> is
  the list of connections in use, with their addresses.
\<close>

datatype pool_event = Get string "go_error + conn" | Release conn string

type_synonym pool_use = "(conn \<times> string) list \<times> tcp_pool"

fun pool_step :: "(conn \<Rightarrow> go_error option) \<Rightarrow> pool_event \<Rightarrow> pool_use \<Rightarrow> pool_use option" where
  "pool_step close (Get addr d) (held, p) =
     (case tcp_GetConnection (\<lambda>_ _ _. d) addr p of
        None \<Rightarrow> None
      | Some (Inr c, p) \<Rightarrow> Some ((c, addr) # held, p)
      | Some (Inl e, p) \<Rightarrow> Some (held, p))"
| "pool_step close (Release c addr) (held, p) =
     Some (remove1 (c, addr) held, snd (tcp_ReleaseConnection close (Some c) addr p))"

fun pool_run :: "(conn \<Rightarrow> go_error option) \<Rightarrow> pool_event list \<Rightarrow> pool_use \<Rightarrow> pool_use option" where
  "pool_run close [] u = Some u"
| "pool_run close (e # es) u = Option.bind (pool_step close e u) (pool_run close es)"

definition idle :: "tcp_pool \<Rightarrow> string \<Rightarrow> conn list" where
  "idle p addr = (case map_of (pools p) addr of Some h \<Rightarrow> connections h | None \<Rightarrow> [])"

definition in_use :: "(conn \<times> string) list \<Rightarrow> string \<Rightarrow> conn list" where
  "in_use held addr = map fst (filter (\<lambda>(c, a). a = addr) held)"

text \<open>Dialling gives a connection not in use or idle, and only a held connection is given back.\<close>

definition known :: "pool_use \<Rightarrow> conn list" where
  "known u = map fst (fst u) @ concat (map (\<lambda>(a, h). connections h) (pools (snd u)))"

fun proper :: "pool_event \<Rightarrow> pool_use \<Rightarrow> bool" where
  "proper (Get addr (Inr c)) u \<longleftrightarrow> c \<notin> set (known u)"
| "proper (Get addr (Inl e)) u \<longleftrightarrow> True"
| "proper (Release c addr) u \<longleftrightarrow> (c, addr) \<in> set (fst u)"

fun proper_run :: "(conn \<Rightarrow> go_error option) \<Rightarrow> pool_event list \<Rightarrow> pool_use \<Rightarrow> bool" where
  "proper_run close [] u \<longleftrightarrow> True"
| "proper_run close (e # es) u \<longleftrightarrow> proper e u \<and>
     (case pool_step close e u of None \<Rightarrow> True | Some u \<Rightarrow> proper_run close es u)"

section \<open>The invariant\<close>

text \<open>No connection is in two places.\<close>

definition apart :: "(conn \<times> string) list \<Rightarrow> (string \<Rightarrow> conn list) \<Rightarrow> bool" where
  "apart held I \<longleftrightarrow> distinct (map fst held) \<and> (\<forall>a. distinct (I a)) \<and>
     (\<forall>a. set (I a) \<inter> fst ` set held = {}) \<and> (\<forall>a b. a \<noteq> b \<longrightarrow> set (I a) \<inter> set (I b) = {})"

lemma apart_take:
  assumes "apart held I" "I a \<noteq> []"
  shows "apart ((last (I a), a) # held) (I(a := butlast (I a)))"
proof -
  have I: "I a = butlast (I a) @ [last (I a)]" using assms(2) by simp
  have "distinct (I a)" using assms(1) by (simp add: apart_def)
  then have "last (I a) \<notin> set (butlast (I a))" "distinct (butlast (I a))"
    using I by (metis distinct_append distinct_butlast not_distinct_conv_prefix, metis distinct_butlast)
  moreover have "set (butlast (I a)) \<subseteq> set (I a)" "last (I a) \<in> set (I a)"
    using assms(2) by (auto dest: in_set_butlastD)
  ultimately show ?thesis
    using assms(1) unfolding apart_def by (simp add: image_iff) blast
qed

lemma apart_dial:
  assumes "apart held I" "c \<notin> fst ` set held" "\<forall>a. c \<notin> set (I a)"
  shows "apart ((c, a) # held) I"
  using assms by (auto simp: apart_def)

lemma distinct_remove1_fst:
  "distinct (map fst held) \<Longrightarrow> (c, a) \<in> set held \<Longrightarrow>
    distinct (map fst (remove1 (c, a) held)) \<and> c \<notin> fst ` set (remove1 (c, a) held)"
proof (induction held)
  case (Cons x held)
  show ?case
  proof (cases "x = (c, a)")
    case False
    with Cons.prems have "(c, a) \<in> set held" "fst x \<noteq> c" by (auto simp: image_iff)
    moreover have "fst x \<notin> fst ` set (remove1 (c, a) held)"
      using Cons.prems(1) set_remove1_subset [of "(c, a)" held] by auto
    ultimately show ?thesis using Cons False by auto
  qed (use Cons.prems in simp)
qed simp

lemma apart_give:
  assumes "apart held I" "(c, a) \<in> set held"
  shows "apart (remove1 (c, a) held) (I(a := I a @ [c]))"
proof -
  have sub: "set (remove1 (c, a) held) \<subseteq> set held" by (rule set_remove1_subset)
  have "c \<in> fst ` set held" using assms(2) by (rule image_eqI [rotated]) simp
  moreover have "set (I b) \<inter> fst ` set held = {}" for b using assms(1) by (simp add: apart_def)
  ultimately have c: "\<forall>b. c \<notin> set (I b)" by blast
  have d: "distinct (map fst (remove1 (c, a) held))" "c \<notin> fst ` set (remove1 (c, a) held)"
    using distinct_remove1_fst [of held c a] assms by (simp_all add: apart_def)
  show ?thesis
    unfolding apart_def
  proof (intro conjI allI impI)
    fix b b'
    show "distinct ((I(a := I a @ [c])) b)" using assms(1) c by (simp add: apart_def)
    have "set (I b) \<inter> fst ` set (remove1 (c, a) held) = {}" using assms(1) sub unfolding apart_def by blast
    then show "set ((I(a := I a @ [c])) b) \<inter> fst ` set (remove1 (c, a) held) = {}" using d(2) by auto
    assume "b \<noteq> b'"
    moreover have "set (I b) \<inter> set (I b') = {}" using assms(1) \<open>b \<noteq> b'\<close> by (simp add: apart_def)
    ultimately show "set ((I(a := I a @ [c])) b) \<inter> set ((I(a := I a @ [c])) b') = {}" using c by auto
  qed (rule d(1))
qed

definition host_ok :: "int \<Rightarrow> (conn \<times> string) list \<Rightarrow> tcp_pool \<Rightarrow> string \<Rightarrow> bool" where
  "host_ok mx held p a \<longleftrightarrow>
     (case map_of (pools p) a of
        None \<Rightarrow> in_use held a = []
      | Some h \<Rightarrow> slots h = mx \<and> maxConns h = mx \<and> activeConns h = int (length (in_use held a)) \<and>
          int (length (connections h)) + int (length (in_use held a)) \<le> mx)"

definition pool_inv :: "int \<Rightarrow> pool_use \<Rightarrow> bool" where
  "pool_inv mx u \<longleftrightarrow> MaxConnsPerHost (config (snd u)) = mx \<and> mwf (pools (snd u)) \<and>
     (\<forall>a. host_ok mx (fst u) (snd u) a) \<and> apart (fst u) (idle (snd u))"

lemma known_idle:
  assumes "c \<notin> set (known (held, p))"
  shows "c \<notin> fst ` set held" "c \<notin> set (idle p a)"
proof -
  show "c \<notin> fst ` set held" using assms by (simp add: known_def)
  show "c \<notin> set (idle p a)"
  proof (cases "map_of (pools p) a")
    case (Some h)
    then have "(a, h) \<in> set (pools p)" by (rule map_of_SomeD)
    with assms have "c \<notin> set (connections h)" by (auto simp: known_def)
    with Some show ?thesis by (simp add: idle_def)
  qed (simp add: idle_def)
qed

lemma in_use_Cons: "in_use ((c, a) # held) b = (if a = b then c # in_use held b else in_use held b)"
  by (simp add: in_use_def)

lemma in_use_remove1:
  "(c, a) \<in> set held \<Longrightarrow> length (in_use (remove1 (c, a) held) b) =
     (if a = b then length (in_use held b) - 1 else length (in_use held b)) \<and> (a = b \<longrightarrow> in_use held b \<noteq> [])"
  by (auto simp: in_use_def filter_remove1 length_remove1 filter_empty_conv)

lemma inv_get:
  assumes inv: "pool_inv mx (held, p)" and mx: "0 \<le> mx" "mx < 2 ^ 63" and ok: "proper (Get addr d) (held, p)"
  shows "\<exists>u. pool_step close (Get addr d) (held, p) = Some u \<and> pool_inv mx u"
proof -
  have p: "MaxConnsPerHost (config p) = mx" "mwf (pools p)" "\<And>a. host_ok mx held p a" "apart held (idle p)"
    using inv by (simp_all add: pool_inv_def)
  define h where "h = (case map_of (pools p) addr of Some h \<Rightarrow> h | None \<Rightarrow> new_host addr (config p))"
  have h: "slots h = mx" "maxConns h = mx" "activeConns h = int (length (in_use held addr))"
    "int (length (connections h)) + int (length (in_use held addr)) \<le> mx" "connections h = idle p addr"
    using p(3) [of addr] p(1) mx(1) by (auto simp: host_ok_def h_def new_host_def idle_def split: option.splits)
  have get: "tcp_GetConnection (\<lambda>_ _ _. d) addr p =
      (let (r, h) = host_get (\<lambda>_ _ _. d) (config p) addr h in Some (r, p\<lparr>pools := mput addr h (pools p)\<rparr>))"
    using p(1) mx(1) by (auto simp: tcp_GetConnection_def h_def split: option.splits)
  have put: "pool_inv mx (held', p\<lparr>pools := mput addr h' (pools p)\<rparr>)"
    if "slots h' = mx" "maxConns h' = mx" "activeConns h' = int (length (in_use held' addr))"
      "int (length (connections h')) + int (length (in_use held' addr)) \<le> mx"
      "\<And>b. b \<noteq> addr \<Longrightarrow> length (in_use held' b) = length (in_use held b)"
      "apart held' ((idle p)(addr := connections h'))" for held' h'
  proof -
    have "idle (p\<lparr>pools := mput addr h' (pools p)\<rparr>) = (idle p)(addr := connections h')"
      by (auto simp: idle_def mput_lookup)
    moreover have "host_ok mx held' (p\<lparr>pools := mput addr h' (pools p)\<rparr>) b" for b
      using p(3) [of b] that(1-4) that(5) [of b] by (cases "b = addr") (auto simp: host_ok_def mput_lookup split: option.splits)
    ultimately show ?thesis using p(1,2) that(6) by (simp add: pool_inv_def mwf_mput)
  qed
  have succ: "i64 (activeConns h + 1) = activeConns h + 1" if "int (length (in_use held addr)) + 1 \<le> mx"
    using that mx h(3) by (intro i64_id) (simp add: in_i64_def)
  show ?thesis
  proof (cases "length (connections h) > 0")
    case True
    let ?h = "h\<lparr>connections := butlast (connections h), activeConns := activeConns h + 1\<rparr>"
    have room: "int (length (in_use held addr)) + 1 \<le> mx" using True h(4) by linarith
    have "host_get (\<lambda>_ _ _. d) (config p) addr h = (Inr (last (connections h)), ?h)"
      using True succ [OF room] by (simp add: host_get_def)
    moreover have "pool_inv mx ((last (connections h), addr) # held, p\<lparr>pools := mput addr ?h (pools p)\<rparr>)"
    proof (rule put)
      obtain m where "length (connections h) = Suc m" using True by (cases "length (connections h)") auto
      then show "int (length (connections ?h)) + int (length (in_use ((last (connections h), addr) # held) addr)) \<le> mx"
        using h(4) by (simp add: in_use_Cons)
    qed (use True h(1-3,5) apart_take [OF p(4), of addr] in \<open>simp_all add: in_use_Cons\<close>)
    ultimately show ?thesis by (simp add: get)
  next
    case empty: False
    show ?thesis
    proof (cases "activeConns h \<ge> maxConns h")
      case True
      with empty have "host_get (\<lambda>_ _ _. d) (config p) addr h = (Inl (New PoolError ''connection pool exhausted''), h)"
        by (simp add: host_get_def)
      moreover have "pool_inv mx (held, p\<lparr>pools := mput addr h (pools p)\<rparr>)"
        using h p(4) by (intro put) (simp_all add: fun_upd_idem)
      ultimately show ?thesis by (simp add: get)
    next
      case False
      then have room: "int (length (in_use held addr)) + 1 \<le> mx" using h by simp
      show ?thesis
      proof (cases d)
        case (Inl e)
        with empty False have "host_get (\<lambda>_ _ _. d) (config p) addr h = (Inl (dial_failed e), h)"
          by (simp add: host_get_def)
        moreover have "pool_inv mx (held, p\<lparr>pools := mput addr h (pools p)\<rparr>)"
          using h p(4) by (intro put) (simp_all add: fun_upd_idem)
        ultimately show ?thesis by (simp add: get)
      next
        case (Inr c)
        let ?h = "h\<lparr>activeConns := activeConns h + 1\<rparr>"
        have "host_get (\<lambda>_ _ _. d) (config p) addr h = (Inr c, ?h)"
          using empty False Inr succ [OF room] by (simp add: host_get_def)
        moreover have "apart ((c, addr) # held) (idle p)"
          using ok Inr by (intro apart_dial p(4) allI known_idle) simp_all
        then have "pool_inv mx ((c, addr) # held, p\<lparr>pools := mput addr ?h (pools p)\<rparr>)"
          using h empty room by (intro put) (auto simp: in_use_Cons fun_upd_idem)
        ultimately show ?thesis by (simp add: get)
      qed
    qed
  qed
qed

lemma inv_release:
  assumes inv: "pool_inv mx (held, p)" and mx: "0 \<le> mx" "mx < 2 ^ 63" and ok: "(c, addr) \<in> set held"
  shows "pool_inv mx (remove1 (c, addr) held, snd (tcp_ReleaseConnection close (Some c) addr p))"
proof -
  have p: "MaxConnsPerHost (config p) = mx" "mwf (pools p)" "\<And>a. host_ok mx held p a" "apart held (idle p)"
    using inv by (simp_all add: pool_inv_def)
  note rem = in_use_remove1 [OF ok]
  obtain h where h: "map_of (pools p) addr = Some h"
    using p(3) [of addr] rem [of addr] by (auto simp: host_ok_def split: option.splits)
  with p(3) [of addr] have hp: "slots h = mx" "maxConns h = mx" "activeConns h = int (length (in_use held addr))"
    "int (length (connections h)) + int (length (in_use held addr)) \<le> mx" "idle p addr = connections h"
    by (simp_all add: host_ok_def idle_def)
  have pos: "0 < length (in_use held addr)" using rem [of addr] by simp
  let ?h = "h\<lparr>activeConns := activeConns h - 1, connections := connections h @ [c]\<rparr>"
  have "i64 (activeConns h - 1) = activeConns h - 1" using hp mx pos by (intro i64_id) (simp add: in_i64_def)
  moreover have "int (length (connections h)) < slots h" using hp(1,4) pos by linarith
  ultimately have rel: "snd (tcp_ReleaseConnection close (Some c) addr p) = p\<lparr>pools := mput addr ?h (pools p)\<rparr>"
    by (simp add: tcp_ReleaseConnection_def Let_def h)
  have "idle (p\<lparr>pools := mput addr ?h (pools p)\<rparr>) = (idle p)(addr := idle p addr @ [c])"
    using hp(5) by (auto simp: idle_def mput_lookup)
  moreover have "host_ok mx (remove1 (c, addr) held) (p\<lparr>pools := mput addr ?h (pools p)\<rparr>) b" for b
  proof (cases "b = addr")
    case True
    obtain n where "length (in_use held addr) = Suc n" using pos by (cases "length (in_use held addr)") auto
    with True rem [of addr] hp show ?thesis by (simp add: host_ok_def mput_lookup)
  next
    case False
    with p(3) [of b] rem [of b] show ?thesis by (auto simp: host_ok_def mput_lookup split: option.splits)
  qed
  ultimately show ?thesis
    unfolding rel using p apart_give [OF p(4) ok] by (simp add: pool_inv_def mwf_mput)
qed


lemma inv_run:
  assumes "pool_inv mx u" "0 \<le> mx" "mx < 2 ^ 63" "proper_run close es u"
  shows "\<exists>u'. pool_run close es u = Some u' \<and> pool_inv mx u'"
  using assms(1,4)
proof (induction es arbitrary: u)
  case (Cons e es)
  obtain held p where u: "u = (held, p)" by (cases u)
  have "\<exists>u'. pool_step close e u = Some u' \<and> pool_inv mx u'"
  proof (cases e)
    case (Get addr d)
    with inv_get [OF Cons.prems(1) [unfolded u] assms(2,3), of addr d close] Cons.prems(2) show ?thesis by (simp add: u)
  next
    case (Release c addr)
    with inv_release [OF Cons.prems(1) [unfolded u] assms(2,3), of c addr close] Cons.prems(2) show ?thesis by (simp add: u)
  qed
  then obtain u' where "pool_step close e u = Some u'" "pool_inv mx u'" by blast
  with Cons.IH [of u'] Cons.prems(2) show ?case by simp
qed simp

section \<open>The client of the TCP pool\<close>

text \<open>A client that dials an address again and again; dialling gives it the connections \<open>cs\<close>.\<close>

fun client_dials :: "string \<Rightarrow> conn list \<Rightarrow> tcp_pool \<Rightarrow> (go_error + conn) list option" where
  "client_dials addr [] p = Some []"
| "client_dials addr (c # cs) p =
     (case client_dial (\<lambda>_ _ _. Inr c) addr p of
        None \<Rightarrow> None
      | Some (r, p) \<Rightarrow> map_option ((#) r) (client_dials addr cs p))"

definition exhausted :: go_error where
  "exhausted = New PoolError ''connection pool exhausted''"

lemma client_dials_host:
  assumes "map_of (pools p) addr = Some h" "connections h = []" "maxConns h = int m" "m < 2 ^ 63"
    and "activeConns h = int k" "k \<le> m"
  shows "client_dials addr cs p = Some (map Inr (take (m - k) cs) @ replicate (length cs - (m - k)) (Inl exhausted))"
  using assms
proof (induction cs arbitrary: p h k)
  case (Cons c cs)
  show ?case
  proof (cases "k = m")
    case True
    then have "client_dial (\<lambda>_ _ _. Inr c) addr p = Some (Inl exhausted, p\<lparr>pools := mput addr h (pools p)\<rparr>)"
      using Cons.prems by (simp add: client_dial_def tcp_GetConnection_def host_get_def exhausted_def)
    moreover have "client_dials addr cs (p\<lparr>pools := mput addr h (pools p)\<rparr>) =
        Some (map Inr (take (m - k) cs) @ replicate (length cs - (m - k)) (Inl exhausted))"
      using Cons.prems by (intro Cons.IH) (simp_all add: mput_lookup)
    ultimately show ?thesis using True by simp
  next
    case False
    let ?h = "h\<lparr>activeConns := int (Suc k)\<rparr>"
    have "i64 (int k + 1) = int (Suc k)" using False Cons.prems by (simp add: i64_id in_i64_def)
    then have "client_dial (\<lambda>_ _ _. Inr c) addr p = Some (Inr c, p\<lparr>pools := mput addr ?h (pools p)\<rparr>)"
      using Cons.prems False by (simp add: client_dial_def tcp_GetConnection_def host_get_def)
    moreover have "client_dials addr cs (p\<lparr>pools := mput addr ?h (pools p)\<rparr>) =
        Some (map Inr (take (m - Suc k) cs) @ replicate (length cs - (m - Suc k)) (Inl exhausted))"
      using Cons.prems False by (intro Cons.IH [where h = ?h]) (simp_all add: mput_lookup)
    moreover have "m - k = Suc (m - Suc k)" using False Cons.prems(6) by simp
    ultimately show ?thesis by simp
  qed
qed simp

section \<open>Properties\<close>

text \<open>
  C39: Proper use of the pool.  As long as callers give back only what they hold and nobody
  closes the pool, for each address the connections in use and the idle ones together stay
  within the limit, the pool's count is the number in use, and no connection is ever in two
  hands or both idle and in use.
\<close>
theorem pool_respects_its_limit:
  assumes "0 \<le> MaxConnsPerHost cfg" "MaxConnsPerHost cfg < 2 ^ 63"
    and "proper_run close es ([], NewTCPConnectionPool (Some cfg))"
  shows "\<exists>held p. pool_run close es ([], NewTCPConnectionPool (Some cfg)) = Some (held, p) \<and>
     (\<forall>a. int (length (idle p a)) + int (length (in_use held a)) \<le> MaxConnsPerHost cfg) \<and>
     (\<forall>a h. map_of (pools p) a = Some h \<longrightarrow> activeConns h = int (length (in_use held a))) \<and>
     distinct (map fst held) \<and> (\<forall>a. set (idle p a) \<inter> fst ` set held = {})"
proof -
  have "pool_inv (MaxConnsPerHost cfg) ([], NewTCPConnectionPool (Some cfg))"
    by (simp add: pool_inv_def NewTCPConnectionPool_def or_default_def mwf_empty host_ok_def in_use_def apart_def idle_def)
  from inv_run [OF this assms] obtain held p where
    run: "pool_run close es ([], NewTCPConnectionPool (Some cfg)) = Some (held, p)"
    and inv: "pool_inv (MaxConnsPerHost cfg) (held, p)" by auto
  have ok: "host_ok (MaxConnsPerHost cfg) held p a" for a using inv by (simp add: pool_inv_def)
  have "int (length (idle p a)) + int (length (in_use held a)) \<le> MaxConnsPerHost cfg" for a
    using ok [of a] assms(1) by (auto simp: host_ok_def idle_def split: option.splits)
  moreover have "map_of (pools p) a = Some h \<Longrightarrow> activeConns h = int (length (in_use held a))" for a h
    using ok [of a] by (simp add: host_ok_def)
  moreover have "apart held (idle p)" using inv by (simp add: pool_inv_def)
  ultimately show ?thesis using run by (auto simp: apart_def)
qed

definition small_pool :: pool_config where
  "small_pool = DefaultPoolConfig\<lparr>MaxConnsPerHost := 2\<rparr>"

theorem pool_respects_its_limit_witness:
  "\<exists>held p. pool_run (\<lambda>_. None) [Get ''a'' (Inr 1), Get ''a'' (Inr 2), Get ''a'' (Inr 3), Release 1 ''a'', Get ''a'' (Inr 4)]
       ([], NewTCPConnectionPool (Some small_pool)) = Some (held, p) \<and> distinct (map fst held) \<and>
     (\<forall>a. int (length (idle p a)) + int (length (in_use held a)) \<le> 2)"
proof -
  let ?es = "[Get ''a'' (Inr 1), Get ''a'' (Inr 2), Get ''a'' (Inr 3), Release 1 ''a'', Get ''a'' (Inr 4)]"
  have "proper_run (\<lambda>_. None) ?es ([], NewTCPConnectionPool (Some small_pool))"
    by (simp add: known_def NewTCPConnectionPool_def or_default_def small_pool_def DefaultPoolConfig_def
        tcp_GetConnection_def new_host_def host_get_def mput_def tcp_ReleaseConnection_def i64_def)
  from pool_respects_its_limit [OF _ _ this] show ?thesis
    by (auto simp: small_pool_def DefaultPoolConfig_def)
qed

text \<open>
  C40: The client of the TCP pool wears it out.  Its first \<open>MaxConnsPerHost\<close> dials to an
  address get a connection; every later one fails, whatever became of the connections.
\<close>
theorem client_exhausts_its_pool:
  assumes "MaxConnsPerHost cfg = int m" "m < 2 ^ 63"
  shows "client_dials addr cs (NewTCPConnectionPool (Some cfg)) =
     Some (map Inr (take m cs) @ replicate (length cs - m) (Inl (New PoolError ''connection pool exhausted'')))"
proof -
  let ?p = "NewTCPConnectionPool (Some cfg)"
  let ?p' = "?p\<lparr>pools := mput addr (new_host addr cfg) []\<rparr>"
  have "client_dials addr cs ?p = client_dials addr cs ?p'"
    by (cases cs) (use assms in \<open>simp_all add: client_dial_def tcp_GetConnection_def NewTCPConnectionPool_def
      or_default_def mput_def\<close>)
  also have "\<dots> = Some (map Inr (take (m - 0) cs) @ replicate (length cs - (m - 0)) (Inl exhausted))"
    using assms by (intro client_dials_host [where h = "new_host addr cfg"]) (simp_all add: mput_lookup new_host_def)
  finally show ?thesis by (simp add: exhausted_def)
qed

theorem client_exhausts_its_pool_witness:
  "client_dials ''a'' [1, 2, 3] (NewTCPConnectionPool (Some (DefaultPoolConfig\<lparr>MaxConnsPerHost := 2\<rparr>))) =
     Some [Inr 1, Inr 2, Inl (New PoolError ''connection pool exhausted'')]"
  using client_exhausts_its_pool [of "DefaultPoolConfig\<lparr>MaxConnsPerHost := 2\<rparr>" 2 "''a''" "[1, 2, 3]"]
  by (simp add: DefaultPoolConfig_def)

text \<open>
  Otherwise not.  A connection given back twice is handed out twice; one given back after the
  pool was closed and opened again for its address makes the count negative.
\<close>

definition after_two_releases :: "tcp_pool option" where
  "after_two_releases = map_option snd (pool_run (\<lambda>_. None)
     [Get ''a'' (Inr 1), Release 1 ''a'', Release 1 ''a''] ([], NewTCPConnectionPool (Some small_pool)))"

lemma double_release_shares_a_connection:
  "\<exists>p. after_two_releases = Some p \<and> idle p ''a'' = [1, 1]"
  by (simp add: after_two_releases_def known_def NewTCPConnectionPool_def or_default_def small_pool_def
      DefaultPoolConfig_def tcp_GetConnection_def new_host_def host_get_def mput_def tcp_ReleaseConnection_def
      i64_def idle_def)

lemma release_after_close_miscounts:
  assumes "pool_run (\<lambda>_. None) [Get ''a'' (Inr 1)] ([], NewTCPConnectionPool (Some small_pool)) = Some (held, p)"
    and "pool_run (\<lambda>_. None) [Get ''a'' (Inl Canceled), Release 1 ''a''] (held, snd (tcp_Close (\<lambda>xs. xs) p)) = Some (held', p')"
  shows "\<exists>h. map_of (pools p') ''a'' = Some h \<and> activeConns h = - 1"
  using assms
  by (auto simp: NewTCPConnectionPool_def or_default_def small_pool_def DefaultPoolConfig_def tcp_GetConnection_def
      new_host_def host_get_def mput_def tcp_ReleaseConnection_def tcp_Close_def i64_def)

end
