(* ===== verification/Listeners.thy ===== *)
theory Listeners
  imports Errors
begin

text \<open>
  The listeners of a service and the \<open>http.Server\<close> on them: what \<open>ProxyService\<close> (package
  \<open>pkg/proxy\<close>) and \<open>EchoService\<close> (package \<open>internal/examples\<close>) have in common.  Of \<open>net\<close> and
  \<open>net/http\<close> it models that a closed listener stays closed, that \<open>Serve\<close> on a server that is
  shut down closes its listener, and that \<open>Shutdown\<close> closes the listeners served by it.
\<close>

section \<open>Listeners and servers of the library\<close>

record listener =
  ln_network :: string
  ln_address :: string
  ln_open :: bool

record http_server =
  ReadTimeout :: duration
  WriteTimeout :: duration
  hs_IdleTimeout :: duration
  in_shutdown :: bool
  tracked :: "nat list"

definition close_listener :: "listener \<Rightarrow> listener" where
  "close_listener l = l\<lparr>ln_open := False\<rparr>"

text \<open>\<open>unserved\<close> are the goroutines of \<open>Start\<close> that have yet to call \<open>Serve\<close>, by their listener.\<close>

record listening =
  listeners :: "listener list"
  hserver :: "http_server option"
  unserved :: "nat list"

definition not_listening :: listening where
  "not_listening = \<lparr>listeners = [], hserver = None, unserved = []\<rparr>"

definition close_at :: "nat \<Rightarrow> listening \<Rightarrow> listening" where
  "close_at i L = L\<lparr>listeners := (listeners L)[i := close_listener (listeners L ! i)]\<rparr>"

section \<open>The operations of the services\<close>

text \<open>\<open>listen\<close> is what \<open>net.Listen\<close> gives for a network and an address.\<close>

type_synonym listen = "string \<Rightarrow> string \<Rightarrow> go_error option"

definition addListener :: "listen \<Rightarrow> string \<Rightarrow> string \<Rightarrow> listening \<Rightarrow> go_error option \<times> listening" where
  "addListener listen network addr L =
     (case listen network addr of
        Some err \<Rightarrow> (Some (NewWithCause ConnectionError (''failed to listen on '' @ addr) (Some err)), L)
      | None \<Rightarrow> (None, L\<lparr>listeners := listeners L @ [\<lparr>ln_network = network, ln_address = addr, ln_open = True\<rparr>]\<rparr>))"

definition new_http_server :: http_server where
  "new_http_server = \<lparr>ReadTimeout = 30 * second, WriteTimeout = 30 * second, hs_IdleTimeout = 60 * second,
     in_shutdown = False, tracked = []\<rparr>"

definition start_listening :: "go_error \<Rightarrow> listening \<Rightarrow> go_error option \<times> listening" where
  "start_listening none L =
     (if length (listeners L) = 0 then (Some none, L)
      else (None, L\<lparr>hserver := Some new_http_server, unserved := unserved L @ [0..<length (listeners L)]\<rparr>))"

text \<open>One of these goroutines calls \<open>Serve\<close>; \<open>None\<close> is the panic of a call on a nil server.\<close>

definition serve :: "nat \<Rightarrow> listening \<Rightarrow> listening option" where
  "serve i L =
     (case hserver L of
        None \<Rightarrow> None
      | Some srv \<Rightarrow>
          let L = L\<lparr>unserved := remove1 i (unserved L)\<rparr>
          in Some (if in_shutdown srv then close_at i L
                   else if ln_open (listeners L ! i) then L\<lparr>hserver := Some (srv\<lparr>tracked := i # tracked srv\<rparr>)\<rparr>
                   else L))"

text \<open>
  \<open>Stop\<close>, up to the shutdown of the server and its error \<open>result\<close>, and from there on;
  errors of \<open>Close\<close> are only logged.
\<close>

definition stop_server :: "(go_error \<Rightarrow> go_error) \<Rightarrow> go_error option \<Rightarrow> listening \<Rightarrow> go_error option \<times> listening" where
  "stop_server wrap result L =
     (case hserver L of
        None \<Rightarrow> (None, L)
      | Some srv \<Rightarrow> (map_option wrap result,
          fold close_at (tracked srv) (L\<lparr>hserver := Some (srv\<lparr>in_shutdown := True, tracked := []\<rparr>)\<rparr>)))"

definition stop_listeners :: "listening \<Rightarrow> listening" where
  "stop_listeners L = L\<lparr>listeners := map close_listener (listeners L)\<rparr>"

section \<open>Closed listeners stay closed\<close>

definition all_closed :: "listening \<Rightarrow> bool" where
  "all_closed L \<longleftrightarrow> (\<forall>l \<in> set (listeners L). \<not> ln_open l)"

lemma closed_update [simp]: "all_closed (L\<lparr>hserver := s\<rparr>) = all_closed L" "all_closed (L\<lparr>unserved := u\<rparr>) = all_closed L"
  by (simp_all add: all_closed_def)

lemma closed_close_at: "all_closed L \<Longrightarrow> all_closed (close_at i L)"
  by (cases "i < length (listeners L)")
    (auto simp: all_closed_def close_at_def close_listener_def all_set_conv_all_nth nth_list_update)

lemma closed_fold: "all_closed L \<Longrightarrow> all_closed (fold close_at is L)"
  by (induction "is" arbitrary: L) (auto intro: closed_close_at)

lemma closed_start: "all_closed L \<Longrightarrow> all_closed (snd (start_listening e L))"
  by (simp add: start_listening_def)

lemma closed_serve: "all_closed L \<Longrightarrow> serve i L = Some L' \<Longrightarrow> all_closed L'"
  by (auto simp: serve_def Let_def intro: closed_close_at split: option.splits if_splits)

lemma closed_stop_server: "all_closed L \<Longrightarrow> all_closed (snd (stop_server wrap result L))"
  by (auto simp: stop_server_def intro: closed_fold split: option.splits)

lemma closed_stop_listeners: "all_closed (stop_listeners L)"
  by (simp add: all_closed_def stop_listeners_def close_listener_def)

text \<open>A goroutine that is about to serve finds a server: no call of \<open>Serve\<close> panics.\<close>

definition has_server :: "listening \<Rightarrow> bool" where
  "has_server L \<longleftrightarrow> (unserved L \<noteq> [] \<longrightarrow> hserver L \<noteq> None)"

lemma fold_close_at [simp]:
  "hserver (fold close_at is L) = hserver L" "unserved (fold close_at is L) = unserved L"
  by (induction "is" arbitrary: L) (simp_all add: close_at_def)

lemma has_server_steps:
  assumes "has_server L"
  shows "has_server (snd (addListener listen n a L))" "has_server (snd (start_listening e L))"
    "has_server (snd (stop_server wrap result L))" "has_server (stop_listeners L)"
    "serve i L = Some L' \<Longrightarrow> has_server L'"
  using assms
  by (auto simp: has_server_def addListener_def start_listening_def stop_server_def stop_listeners_def serve_def
      Let_def close_at_def split: option.splits if_splits)

lemma serve_no_panic: "has_server L \<Longrightarrow> i \<in> set (unserved L) \<Longrightarrow> serve i L \<noteq> None"
  by (auto simp: has_server_def serve_def Let_def)

end
