(* ===== verification/Proxy.thy ===== *)
theory Proxy
  imports LoadBalancing Pool HttpHeaders Listeners
begin

text \<open>
  Package \<open>pkg/proxy\<close>, the service: its configuration and construction, its listeners, the
  filters of \<open>ProxyHTTP\<close> and the simple proxy.  The requests it handles are in
  \<open>ProxyRequests\<close>.
\<close>

section \<open>Configuration and construction\<close>

record proxy_config =
  Upstreams :: "string list"
  LoadBalancingMethod :: string
  HealthCheckInterval :: duration
  px_ConnectTimeout :: duration
  ResponseTimeout :: duration
  px_MaxIdleConns :: int
  px_MaxConnsPerHost :: int
  px_KeepAlive :: duration

text \<open>The configuration that a nil pointer stands for, and the one with all fields zero.\<close>

definition default_config :: proxy_config where
  "default_config = \<lparr>Upstreams = [], LoadBalancingMethod = ''round_robin'', HealthCheckInterval = 30 * second,
     px_ConnectTimeout = 10 * second, ResponseTimeout = 30 * second, px_MaxIdleConns = 100,
     px_MaxConnsPerHost = 10, px_KeepAlive = 30 * second\<rparr>"

definition zero_config :: proxy_config where
  "zero_config = \<lparr>Upstreams = [], LoadBalancingMethod = [], HealthCheckInterval = 0,
     px_ConnectTimeout = 0, ResponseTimeout = 0, px_MaxIdleConns = 0, px_MaxConnsPerHost = 0, px_KeepAlive = 0\<rparr>"

record proxy_service =
  ps_name :: string
  upstreams :: "string list"
  loadBalancer :: balancer
  connPool :: http_pool
  ps_listening :: listening

definition choose_balancer :: "rand_source \<Rightarrow> proxy_config \<Rightarrow> go_error + balancer" where
  "choose_balancer source cfg =
     (if LoadBalancingMethod cfg = ''round_robin'' then Inr (LbRoundRobin (NewRoundRobin (Upstreams cfg)))
      else if LoadBalancingMethod cfg = ''random'' then Inr (LbRandom (NewRandom source (Upstreams cfg)))
      else if LoadBalancingMethod cfg = ''least_conn'' then Inr (LbLeastConn (NewLeastConnection (Upstreams cfg)))
      else Inl (New LoadBalancingError (''unknown load balancing method: '' @ LoadBalancingMethod cfg)))"

definition pool_config_of :: "proxy_config \<Rightarrow> pool_config" where
  "pool_config_of cfg = \<lparr>MaxIdleConns = px_MaxIdleConns cfg, MaxConnsPerHost = px_MaxConnsPerHost cfg,
     KeepAlive = px_KeepAlive cfg, ConnectTimeout = px_ConnectTimeout cfg, IdleTimeout = 0\<rparr>"

definition NewProxyService :: "rand_source \<Rightarrow> string \<Rightarrow> proxy_config option \<Rightarrow> go_error + proxy_service" where
  "NewProxyService source name cfg =
     (let cfg = (case cfg of None \<Rightarrow> default_config | Some c \<Rightarrow> c)
      in if length (Upstreams cfg) = 0 then Inl (New ProxyError ''at least one upstream is required'')
         else case choose_balancer source cfg of
                Inl err \<Rightarrow> Inl err
              | Inr lb \<Rightarrow> Inr \<lparr>ps_name = name, upstreams = Upstreams cfg, loadBalancer = lb,
                  connPool = NewHTTPConnectionPool (Some (pool_config_of cfg)), ps_listening = not_listening\<rparr>)"

section \<open>The life of the service\<close>

definition ps_Name :: "proxy_service \<Rightarrow> string" where
  "ps_Name p = ps_name p"

definition on_listening :: "(listening \<Rightarrow> go_error option \<times> listening) \<Rightarrow> proxy_service \<Rightarrow> go_error option \<times> proxy_service" where
  "on_listening f p = (let (e, L) = f (ps_listening p) in (e, p\<lparr>ps_listening := L\<rparr>))"

definition ps_AddTCP :: "listen \<Rightarrow> string \<Rightarrow> proxy_service \<Rightarrow> go_error option \<times> proxy_service" where
  "ps_AddTCP listen addr = on_listening (addListener listen ''tcp'' addr)"

definition ps_AddTLS :: "string \<Rightarrow> string \<Rightarrow> string \<Rightarrow> proxy_service \<Rightarrow> go_error option" where
  "ps_AddTLS addr certFile keyFile p = Some (New InternalError ''TLS not implemented yet'')"

text \<open>The file mode is not used.\<close>

definition ps_AddUDS :: "listen \<Rightarrow> string \<Rightarrow> proxy_service \<Rightarrow> go_error option \<times> proxy_service" where
  "ps_AddUDS listen path = on_listening (addListener listen ''unix'' path)"

definition ps_Start :: "proxy_service \<Rightarrow> go_error option \<times> proxy_service" where
  "ps_Start = on_listening (start_listening (New ProxyError ''no listeners configured''))"

definition ps_serve :: "nat \<Rightarrow> proxy_service \<Rightarrow> proxy_service option" where
  "ps_serve i p = map_option (\<lambda>L. p\<lparr>ps_listening := L\<rparr>) (serve i (ps_listening p))"

definition ps_stop_server :: "go_error option \<Rightarrow> proxy_service \<Rightarrow> go_error option \<times> proxy_service" where
  "ps_stop_server result =
     on_listening (stop_server (\<lambda>err. NewWithCause ProxyError ''failed to shutdown server'' (Some err)) result)"

definition ps_stop_listeners :: "proxy_service \<Rightarrow> go_error option \<times> proxy_service" where
  "ps_stop_listeners = on_listening (\<lambda>L. (None, stop_listeners L))"

section \<open>ProxyHTTP and the simple proxy\<close>

record proxy_http =
  upstreamAddr :: string
  px_client :: http_client

definition NewProxyHTTP :: "string \<Rightarrow> proxy_http" where
  "NewProxyHTTP addr = \<lparr>upstreamAddr = addr,
     px_client = \<lparr>DialTimeout = 10 * second, DialKeepAlive = 30 * second, tr_MaxIdleConns = 100,
       tr_MaxIdleConnsPerHost = 0, tr_IdleConnTimeout = 90 * second, tr_TLSHandshakeTimeout = 10 * second,
       tr_DisableCompression = False, cl_Timeout = 30 * second\<rparr>\<rparr>"

definition RequestFilter :: "request_header \<Rightarrow> proxy_http \<Rightarrow> go_error option" where
  "RequestFilter req p = None"

definition ResponseFilter :: "response_header \<Rightarrow> proxy_http \<Rightarrow> go_error option" where
  "ResponseFilter resp p = None"

definition UpstreamPeer :: "proxy_http \<Rightarrow> string" where
  "UpstreamPeer p = upstreamAddr p"

text \<open>\<open>Inl\<close> is the message with which \<open>log.Fatalf\<close> ends the process.\<close>

definition SimpleProxyService :: "rand_source \<Rightarrow> (go_error \<Rightarrow> string) \<Rightarrow> listen \<Rightarrow> string \<Rightarrow> string \<Rightarrow> string + proxy_service" where
  "SimpleProxyService source foreign listen listenAddr addr =
     (case NewProxyService source ''simple-proxy'' (Some (zero_config\<lparr>Upstreams := [addr]\<rparr>)) of
        Inl err \<Rightarrow> Inl (''Failed to create proxy service: '' @ error_text foreign err)
      | Inr p \<Rightarrow> (case ps_AddTCP listen listenAddr p of
           (Some err, p) \<Rightarrow> Inl (''Failed to add TCP listener: '' @ error_text foreign err)
         | (None, p) \<Rightarrow> Inr p))"

section \<open>Which configurations work\<close>

text \<open>A service is built exactly from some upstreams and a method by one of the three names.\<close>

lemma NewProxyService_ok:
  "(\<exists>p. NewProxyService source name (Some cfg) = Inr p) \<longleftrightarrow>
     Upstreams cfg \<noteq> [] \<and> LoadBalancingMethod cfg \<in> {''round_robin'', ''random'', ''least_conn''}"
  by (auto simp: NewProxyService_def choose_balancer_def)

lemma NewProxyService_fields:
  assumes "NewProxyService source name (Some cfg) = Inr p"
  shows "lb_members (loadBalancer p) = Upstreams cfg" "lb_GetHealthyBackends (loadBalancer p) = Upstreams cfg"
    "ps_listening p = not_listening"
  using assms
  by (auto simp: NewProxyService_def choose_balancer_def NewRoundRobin_def NewRandom_def NewLeastConnection_def
      rr_GetHealthyBackends_def rnd_GetHealthyBackends_def lc_GetHealthyBackends_def Let_def split: if_splits)

text \<open>The configuration for nil has no upstream, and the simple proxy no method: neither is ever built.\<close>

lemma nil_config_fails: "NewProxyService source name None = Inl (New ProxyError ''at least one upstream is required'')"
  by (simp add: NewProxyService_def default_config_def)

lemma simple_proxy_is_fatal:
  "SimpleProxyService source foreign listen listenAddr addr =
     Inl (''Failed to create proxy service: LoadBalancingError: unknown load balancing method: '')"
  by (simp add: SimpleProxyService_def NewProxyService_def choose_balancer_def zero_config_def New_def LoadBalancingError_def)

end
