(* ===== verification/ProxyRequests.thy ===== *)
theory ProxyRequests
  imports Proxy
begin

text \<open>
  Package \<open>pkg/proxy\<close>, the requests: what is sent upstream for a request and what the client
  gets.  Parsing and printing a URL, \<open>http.NewRequest\<close> and the exchange of \<open>Client.Do\<close> are
  arguments (record \<open>http_lib\<close>); headers, the response writer of an HTTP/1 server with its
  check of the declared length, \<open>io.Copy\<close>, \<open>http.Error\<close> and \<open>net.SplitHostPort\<close> are modelled.
  A client that goes away, which makes writes fail, is not.
\<close>

section \<open>Requests, responses and the writer of net/http\<close>

record url =
  Scheme :: string
  Host :: string
  Path :: string
  RawQuery :: string

text \<open>A request that comes in, and one that goes out.  \<open>r_TLS\<close> says that it came over TLS.\<close>

record request =
  r_Method :: string
  r_Path :: string
  r_RawQuery :: string
  r_Header :: header
  r_Host :: string
  r_RemoteAddr :: string
  r_TLS :: bool
  r_Body :: string

record outgoing =
  o_Method :: string
  o_URL :: url
  o_Header :: header
  o_Body :: string

text \<open>A response: its body as the pieces in which it is read, and the error, if any, that ends it.\<close>

record response =
  rp_StatusCode :: int
  rp_Header :: header
  rp_Body :: "string list"
  rp_CopyError :: "go_error option"

text \<open>\<open>lib_NewRequest\<close> takes a method and the text of a URL, and gives the URL of the request.\<close>

record http_lib =
  lib_Parse :: "string \<Rightarrow> go_error + url"
  lib_String :: "url \<Rightarrow> string"
  lib_NewRequest :: "string \<Rightarrow> string \<Rightarrow> go_error + url"
  lib_Do :: "http_client \<Rightarrow> outgoing \<Rightarrow> go_error + response"

text \<open>
  The writer: its header map, the status and header once they are sent, the length the sent
  header declares, the number of bytes the handler wrote, whether the request is a \<open>HEAD\<close>, and
  the body that goes out.
\<close>

record writer =
  w_header :: header
  sent :: "(int \<times> header) option"
  contentLength :: "int option"
  written :: int
  is_head :: bool
  w_body :: string

definition new_writer :: "request \<Rightarrow> writer" where
  "new_writer r = \<lparr>w_header = [], sent = None, contentLength = None, written = 0,
     is_head = (r_Method r = ''HEAD''), w_body = []\<rparr>"

definition declared :: "header \<Rightarrow> int option" where
  "declared h =
     (case h_values ''Content-Length'' h of
        [] \<Rightarrow> None
      | v # vs \<Rightarrow> (case atoi v of Inl e \<Rightarrow> None | Inr n \<Rightarrow> if 0 \<le> n then Some n else None))"

definition body_allowed :: "int \<Rightarrow> bool" where
  "body_allowed code \<longleftrightarrow> \<not> (100 \<le> code \<and> code \<le> 199) \<and> code \<noteq> 204 \<and> code \<noteq> 304"

definition send_header :: "int \<Rightarrow> writer \<Rightarrow> writer" where
  "send_header code w = w\<lparr>sent := Some (code, w_header w), contentLength := declared (w_header w)\<rparr>"

text \<open>
  \<open>WriteHeader\<close>: \<open>None\<close> is its panic on a code that has not three digits; a second call has no
  effect, and an informational code other than 101 does not count as the header.
\<close>

definition WriteHeader :: "int \<Rightarrow> writer \<Rightarrow> writer option" where
  "WriteHeader code w =
     (if sent w \<noteq> None then Some w
      else if code < 100 \<or> code > 999 then None
      else if code \<le> 199 \<and> code \<noteq> 101 then Some w
      else Some (send_header code w))"

text \<open>
  \<open>Write\<close> sends the header if that is still to do.  It refuses a body where the status has
  none, and whatever goes beyond the declared length; the answer to a \<open>HEAD\<close> drops it.
\<close>

definition ErrBodyNotAllowed :: go_error where
  "ErrBodyNotAllowed = External ''http: request method or response status code does not allow body''"

definition ErrContentLength :: go_error where
  "ErrContentLength = External ''http: wrote more than the declared Content-Length''"

definition Write :: "string \<Rightarrow> writer \<Rightarrow> go_error option \<times> writer" where
  "Write s w =
     (let w = (if sent w = None then send_header 200 w else w)
      in if s = [] then (None, w)
         else if \<not> body_allowed (fst (the (sent w))) then (Some ErrBodyNotAllowed, w)
         else let w = w\<lparr>written := written w + int (length s)\<rparr>
              in if (case contentLength w of None \<Rightarrow> False | Some n \<Rightarrow> n < written w) then (Some ErrContentLength, w)
                 else (None, if is_head w then w else w\<lparr>w_body := w_body w @ s\<rparr>))"

text \<open>The functions of \<open>fmt\<close> make one \<open>Write\<close>; nobody looks at its error.\<close>

definition Fprint :: "string \<Rightarrow> writer \<Rightarrow> writer" where
  "Fprint s w = snd (Write s w)"

definition http_Error :: "string \<Rightarrow> int \<Rightarrow> writer \<Rightarrow> writer option" where
  "http_Error msg code w =
     (let h = h_Set ''X-Content-Type-Options'' ''nosniff''
                (h_Set ''Content-Type'' ''text/plain; charset=utf-8'' (h_Del ''Content-Length'' (w_header w)))
      in map_option (Fprint (msg @ [CHR 0x0A])) (WriteHeader code (w\<lparr>w_header := h\<rparr>)))"

text \<open>\<open>io.Copy\<close> writes piece by piece and ends with the first error of a write, or that of the reading.\<close>

fun io_Copy :: "string list \<Rightarrow> go_error option \<Rightarrow> writer \<Rightarrow> go_error option \<times> writer" where
  "io_Copy [] err w = (err, w)"
| "io_Copy (c # cs) err w =
     (if c = [] then io_Copy cs err w
      else case Write c w of (Some e, w) \<Rightarrow> (Some e, w) | (None, w) \<Rightarrow> io_Copy cs err w)"

text \<open>The host of \<open>net.SplitHostPort\<close>, empty when it gives an error.\<close>

definition last_index :: "char \<Rightarrow> string \<Rightarrow> nat option" where
  "last_index c s = (if c \<in> set s then Some (length s - 1 - length (takeWhile (\<lambda>x. x \<noteq> c) (rev s))) else None)"

definition split_host :: "string \<Rightarrow> string" where
  "split_host hp =
     (case last_index (CHR '':'') hp of
        None \<Rightarrow> []
      | Some i \<Rightarrow>
          if hp ! 0 = CHR ''['' then
            (let end = length (takeWhile (\<lambda>x. x \<noteq> CHR '']'') hp)
             in if end = length hp \<or> end + 1 \<noteq> i then []
                else if CHR ''['' \<in> set (drop 1 hp) \<or> CHR '']'' \<in> set (drop (end + 1) hp) then []
                else take (end - 1) (drop 1 hp))
          else
            (let host = take i hp
             in if CHR '':'' \<in> set host \<or> CHR ''['' \<in> set hp \<or> CHR '']'' \<in> set hp then [] else host))"

section \<open>The handler\<close>

definition copyHeaders :: "((string \<times> string list) list \<Rightarrow> (string \<times> string list) list) \<Rightarrow> header \<Rightarrow> header \<Rightarrow> header" where
  "copyHeaders sh dst src = fold (\<lambda>(key, values). fold (h_Add key) values) (sh src) dst"

definition getClientIP :: "request \<Rightarrow> string" where
  "getClientIP r =
     (let xRealIP = h_Get ''X-Real-Ip'' (r_Header r); xForwardedFor = h_Get ''X-Forwarded-For'' (r_Header r)
      in if xRealIP \<noteq> [] then xRealIP
         else if xForwardedFor \<noteq> [] then hd (split_on (CHR '','') xForwardedFor)
         else split_host (r_RemoteAddr r))"

definition getScheme :: "request \<Rightarrow> string" where
  "getScheme r =
     (if r_TLS r then ''https''
      else let proto = h_Get ''X-Forwarded-Proto'' (r_Header r) in if proto \<noteq> [] then proto else ''http'')"

definition upstream_request :: "((string \<times> string list) list \<Rightarrow> (string \<times> string list) list) \<Rightarrow> request \<Rightarrow> url \<Rightarrow> outgoing" where
  "upstream_request sh r u =
     (let h = copyHeaders sh [] (r_Header r);
          h = h_Set ''X-Forwarded-For'' (getClientIP r) h;
          h = h_Set ''X-Forwarded-Proto'' (getScheme r) h;
          h = h_Set ''X-Forwarded-Host'' (r_Host r) h
      in \<lparr>o_Method = r_Method r, o_URL = u, o_Header = h, o_Body = r_Body r\<rparr>)"

text \<open>\<open>None\<close> is the panic of \<open>WriteHeader\<close>.\<close>

definition proxyRequest :: "http_lib \<Rightarrow> ((string \<times> string list) list \<Rightarrow> (string \<times> string list) list) \<Rightarrow> http_pool \<Rightarrow>
    request \<Rightarrow> string \<Rightarrow> writer \<Rightarrow> (go_error option \<times> writer) option" where
  "proxyRequest lib sh pool r upstream w =
     (case lib_Parse lib (''http://'' @ upstream) of
        Inl err \<Rightarrow> Some (Some (NewWithCause ProxyError ''invalid upstream URL'' (Some err)), w)
      | Inr upstreamURL \<Rightarrow>
          let proxyURL = \<lparr>Scheme = Scheme upstreamURL, Host = Host upstreamURL, Path = r_Path r, RawQuery = r_RawQuery r\<rparr>
          in case lib_NewRequest lib (r_Method r) (lib_String lib proxyURL) of
               Inl err \<Rightarrow> Some (Some (NewWithCause ProxyError ''failed to create proxy request'' (Some err)), w)
             | Inr u \<Rightarrow>
                 (case lib_Do lib (hp_GetClient pool) (upstream_request sh r u) of
                    Inl err \<Rightarrow> Some (Some (NewWithCause ProxyError ''failed to proxy request'' (Some err)), w)
                  | Inr resp \<Rightarrow>
                      (case WriteHeader (rp_StatusCode resp) (w\<lparr>w_header := copyHeaders sh (w_header w) (rp_Header resp)\<rparr>) of
                         None \<Rightarrow> None
                       | Some w \<Rightarrow>
                           (case io_Copy (rp_Body resp) (rp_CopyError resp) w of
                              (Some err, w) \<Rightarrow> Some (Some (NewWithCause ProxyError ''failed to copy response body'' (Some err)), w)
                            | (None, w) \<Rightarrow> Some (None, w)))))"

definition handleRequest :: "http_lib \<Rightarrow> ((string \<times> string list) list \<Rightarrow> (string \<times> string list) list) \<Rightarrow> request \<Rightarrow>
    writer \<Rightarrow> proxy_service \<Rightarrow> (writer \<times> proxy_service) option" where
  "handleRequest lib sh r w p =
     (let (selected, lb) = lb_SelectBackend (loadBalancer p); p = p\<lparr>loadBalancer := lb\<rparr>
      in case selected of
           Inl err \<Rightarrow> map_option (\<lambda>w. (w, p)) (http_Error ''No available upstream'' 502 w)
         | Inr upstream \<Rightarrow>
             (case proxyRequest lib sh (connPool p) r upstream w of
                None \<Rightarrow> None
              | Some (Some err, w) \<Rightarrow> map_option (\<lambda>w. (w, p)) (http_Error ''Proxy error'' (HTTPStatusCode err) w)
              | Some (None, w) \<Rightarrow> Some (w, p)))"

section \<open>Copied headers\<close>

text \<open>A header as \<open>net/http\<close> gives it: its names are canonical.\<close>

definition canonical :: "header \<Rightarrow> bool" where
  "canonical h \<longleftrightarrow> mwf h \<and> (\<forall>k \<in> set (mkeys h). CanonicalHeaderKey k = k)"

lemma add_values:
  assumes "CanonicalHeaderKey key = key"
  shows "h_values k (fold (h_Add key) vs h) = (if k = key then h_values key h @ vs else h_values k h)"
  using assms by (induction vs arbitrary: h) (simp_all add: h_Add_def h_values_def mput_lookup Let_def)

lemma copy_pairs:
  assumes "distinct (map fst ps)" "\<forall>p \<in> set ps. CanonicalHeaderKey (fst p) = fst p"
  shows "h_values k (fold (\<lambda>(key, values). fold (h_Add key) values) ps h) = h_values k h @ h_values k ps"
  using assms
proof (induction ps arbitrary: h)
  case (Cons p ps)
  obtain key vs where p: "p = (key, vs)" by (cases p)
  with Cons.prems have "map_of ps key = None" by (simp add: map_of_eq_None_iff)
  with Cons p show ?case by (simp add: add_values) (simp add: h_values_def)
qed (simp add: h_values_def)

lemma copyHeaders_values:
  assumes "is_shuffle sh" "canonical src"
  shows "h_values k (copyHeaders sh dst src) = h_values k dst @ h_values k src"
proof -
  have m: "mset (sh src) = mset src" using assms(1) by (simp add: is_shuffle_def)
  then have d: "distinct (map fst (sh src))"
    using assms(2) by (metis canonical_def mwf_def mset_map mset_eq_imp_distinct_iff)
  have s: "set (sh src) = set src" using m by (metis set_mset_mset)
  have "map_of (sh src) = map_of src"
    using d s assms(2) by (subst map_of_inject_set) (simp_all add: canonical_def mwf_def)
  moreover have "\<forall>p \<in> set (sh src). CanonicalHeaderKey (fst p) = fst p"
    using assms(2) s by (auto simp: canonical_def mkeys_def)
  ultimately show ?thesis using copy_pairs [OF d, of k dst] by (simp add: copyHeaders_def h_values_def)
qed

lemma set_values:
  "CanonicalHeaderKey name = name \<Longrightarrow> h_values k (h_Set name v h) = (if k = name then [v] else h_values k h)"
  by (simp add: h_Set_def h_values_def mput_lookup)

lemma del_values:
  "CanonicalHeaderKey name = name \<Longrightarrow> h_values k (h_Del name h) = (if k = name then [] else h_values k h)"
  by (simp add: h_Del_def h_values_def mdel_lookup)

lemma canonical_names [simp]:
  "CanonicalHeaderKey ''X-Forwarded-For'' = ''X-Forwarded-For''"
  "CanonicalHeaderKey ''X-Forwarded-Proto'' = ''X-Forwarded-Proto''"
  "CanonicalHeaderKey ''X-Forwarded-Host'' = ''X-Forwarded-Host''"
  "CanonicalHeaderKey ''Content-Type'' = ''Content-Type''"
  "CanonicalHeaderKey ''Content-Length'' = ''Content-Length''"
  "CanonicalHeaderKey ''X-Content-Type-Options'' = ''X-Content-Type-Options''"
  "CanonicalHeaderKey ''X-Service'' = ''X-Service''"
  by (simp_all add: CanonicalHeaderKey_def token_char_def is_upper_def is_lower_def is_digit_def to_upper_char_def
      to_lower_char_def)

section \<open>What is written\<close>

text \<open>Some text goes over the length that the sent header declares.\<close>

definition overruns :: "writer \<Rightarrow> string \<Rightarrow> bool" where
  "overruns w s \<longleftrightarrow> (\<exists>n. contentLength w = Some n \<and> n < written w + int (length s))"

lemma Write_sent:
  assumes "sent w = Some (code, h)" "s \<noteq> []"
  shows "Write s w =
     (if \<not> body_allowed code then (Some ErrBodyNotAllowed, w)
      else if overruns w s then (Some ErrContentLength, w\<lparr>written := written w + int (length s)\<rparr>)
      else (None, w\<lparr>written := written w + int (length s), w_body := w_body w @ (if is_head w then [] else s)\<rparr>))"
  using assms by (auto simp: Write_def overruns_def Let_def split: option.splits)

lemma Fprint_sent:
  assumes "sent w = Some (code, h)" "s \<noteq> []"
  shows "sent (Fprint s w) = Some (code, h)"
    "w_body (Fprint s w) = w_body w @ (if is_head w \<or> \<not> body_allowed code \<or> overruns w s then [] else s)"
  using assms by (simp_all add: Fprint_def Write_sent)

lemma io_Copy_fits:
  assumes "sent w = Some (code, h)" "body_allowed code \<or> concat cs = []" "\<not> overruns w (concat cs)"
  shows "io_Copy cs err w =
     (err, w\<lparr>written := written w + int (length (concat cs)), w_body := w_body w @ (if is_head w then [] else concat cs)\<rparr>)"
  using assms
proof (induction cs arbitrary: w)
  case (Cons c cs)
  show ?case
  proof (cases "c = []")
    case False
    let ?w = "w\<lparr>written := written w + int (length c), w_body := w_body w @ (if is_head w then [] else c)\<rparr>"
    have "\<not> overruns w c" "\<not> overruns ?w (concat cs)" using Cons.prems(3) by (auto simp: overruns_def)
    moreover have "body_allowed code" using Cons.prems(2) False by simp
    ultimately show ?thesis using Cons.IH [of ?w] Cons.prems(1) False by (simp add: Write_sent)
  qed (use Cons in simp)
qed simp

section \<open>Replies\<close>

definition replies :: "(writer \<times> proxy_service) option \<Rightarrow> int \<Rightarrow> string \<Rightarrow> bool" where
  "replies x code body \<longleftrightarrow> (\<exists>w p h. x = Some (w, p) \<and> sent w = Some (code, h) \<and> w_body w = body)"

text \<open>What the exchange with an upstream gives, whatever the stage at which it fails.\<close>

definition exchange :: "http_lib \<Rightarrow> ((string \<times> string list) list \<Rightarrow> (string \<times> string list) list) \<Rightarrow> http_pool \<Rightarrow>
    request \<Rightarrow> string \<Rightarrow> go_error + response" where
  "exchange lib sh pool r upstream =
     (case lib_Parse lib (''http://'' @ upstream) of
        Inl err \<Rightarrow> Inl err
      | Inr u \<Rightarrow>
          let u = \<lparr>Scheme = Scheme u, Host = Host u, Path = r_Path r, RawQuery = r_RawQuery r\<rparr>
          in case lib_NewRequest lib (r_Method r) (lib_String lib u) of
               Inl err \<Rightarrow> Inl err
             | Inr u \<Rightarrow> lib_Do lib (hp_client pool) (upstream_request sh r u))"

lemma proxyRequest_fails:
  "exchange lib sh pool r upstream = Inl err \<Longrightarrow>
     \<exists>msg. proxyRequest lib sh pool r upstream w = Some (Some (NewWithCause ProxyError msg (Some err)), w)"
  by (auto simp: proxyRequest_def exchange_def Let_def hp_GetClient_def split: sum.splits option.splits)

lemma proxyRequest_relays:
  "exchange lib sh pool r upstream = Inr resp \<Longrightarrow>
     proxyRequest lib sh pool r upstream w =
       map_option (\<lambda>w. map_prod (map_option (\<lambda>e. NewWithCause ProxyError ''failed to copy response body'' (Some e))) id
                         (io_Copy (rp_Body resp) (rp_CopyError resp) w))
         (WriteHeader (rp_StatusCode resp) (w\<lparr>w_header := copyHeaders sh (w_header w) (rp_Header resp)\<rparr>))"
  by (auto simp: proxyRequest_def exchange_def Let_def hp_GetClient_def split: sum.splits option.splits prod.splits)

lemma error_replies:
  assumes "200 \<le> code" "code \<le> 999" "body_allowed code"
  shows "replies (map_option (\<lambda>w. (w, p)) (http_Error msg code (new_writer r))) code
           (if r_Method r = ''HEAD'' then [] else msg @ [CHR 0x0A])"
proof -
  let ?h = "h_Set ''X-Content-Type-Options'' ''nosniff''
    (h_Set ''Content-Type'' ''text/plain; charset=utf-8'' (h_Del ''Content-Length'' []))"
  let ?w = "send_header code (new_writer r\<lparr>w_header := ?h\<rparr>)"
  have "declared ?h = None" by (simp add: declared_def set_values del_values)
  then have "\<not> overruns ?w (msg @ [CHR 0x0A])" by (simp add: overruns_def send_header_def)
  moreover have "sent ?w = Some (code, ?h)" "is_head ?w = (r_Method r = ''HEAD'')" "w_body ?w = []"
    by (simp_all add: send_header_def new_writer_def)
  moreover have "http_Error msg code (new_writer r) = Some (Fprint (msg @ [CHR 0x0A]) ?w)"
    using assms by (simp add: http_Error_def WriteHeader_def new_writer_def Let_def)
  ultimately show ?thesis using assms(3) by (simp add: replies_def Fprint_sent)
qed

text \<open>An error page after the header is sent: only its text, where it still fits.\<close>

lemma late_error:
  assumes "sent w = Some (code, h)"
  shows "\<exists>w'. http_Error msg status w = Some w' \<and> sent w' = Some (code, h) \<and>
     w_body w' = w_body w @ (if is_head w \<or> \<not> body_allowed code \<or> overruns w (msg @ [CHR 0x0A]) then [] else msg @ [CHR 0x0A])"
  using assms by (simp add: http_Error_def WriteHeader_def Fprint_sent overruns_def)

lemma proxy_error_status: "HTTPStatusCode (NewWithCause ProxyError msg cause) = 502"
  by (simp add: HTTPStatusCode_def NewWithCause_def error_type_defs)

text \<open>A response that the transport can give is relayed.\<close>

lemma relayed:
  assumes "is_shuffle sh" "fst (lb_SelectBackend (loadBalancer p)) = Inr upstream"
    "exchange lib sh (connPool p) r upstream = Inr resp"
    "200 \<le> rp_StatusCode resp" "rp_StatusCode resp \<le> 999" "canonical (rp_Header resp)"
    "body_allowed (rp_StatusCode resp) \<or> concat (rp_Body resp) = []"
    "\<forall>n. declared (rp_Header resp) = Some n \<longrightarrow> int (length (concat (rp_Body resp))) \<le> n"
  shows "\<exists>w p' h. handleRequest lib sh r (new_writer r) p = Some (w, p') \<and> sent w = Some (rp_StatusCode resp, h) \<and>
     (\<forall>k. h_values k h = h_values k (rp_Header resp)) \<and>
     w_body w = (if r_Method r = ''HEAD'' then []
       else concat (rp_Body resp) @
         (if rp_CopyError resp = None \<or> \<not> body_allowed (rp_StatusCode resp) \<or>
             (\<exists>n. declared (rp_Header resp) = Some n \<and> n < int (length (concat (rp_Body resp))) + 12)
          then [] else ''Proxy error'' @ [CHR 0x0A]))"
proof -
  let ?h = "copyHeaders sh [] (rp_Header resp)" and ?b = "concat (rp_Body resp)" and ?code = "rp_StatusCode resp"
  let ?w = "send_header ?code (new_writer r\<lparr>w_header := ?h\<rparr>)"
  let ?w' = "?w\<lparr>written := int (length ?b), w_body := if is_head ?w then [] else ?b\<rparr>"
  have h: "h_values k ?h = h_values k (rp_Header resp)" for k
    using copyHeaders_values [OF assms(1,6), of k "[]"] by (simp add: h_values_def)
  then have lim: "contentLength ?w = declared (rp_Header resp)" by (simp add: send_header_def declared_def)
  have w: "sent ?w = Some (?code, ?h)" "written ?w = 0" "w_body ?w = []" "is_head ?w = (r_Method r = ''HEAD'')"
    by (simp_all add: send_header_def new_writer_def)
  have "\<not> overruns ?w ?b" using assms(8) lim w by (auto simp: overruns_def)
  from io_Copy_fits [OF w(1) assms(7) this, of "rp_CopyError resp"] w
  have "io_Copy (rp_Body resp) (rp_CopyError resp) ?w = (rp_CopyError resp, ?w')" by simp
  moreover have "WriteHeader ?code (new_writer r\<lparr>w_header := ?h\<rparr>) = Some ?w" "w_header (new_writer r) = []"
    using assms(4,5) by (simp_all add: WriteHeader_def new_writer_def)
  ultimately have copied: "proxyRequest lib sh (connPool p) r upstream (new_writer r) =
      Some (map_option (\<lambda>e. NewWithCause ProxyError ''failed to copy response body'' (Some e)) (rp_CopyError resp), ?w')"
    using proxyRequest_relays [OF assms(3), of "new_writer r"] by simp
  have o: "overruns ?w' (''Proxy error'' @ [CHR 0x0A]) = (\<exists>n. declared (rp_Header resp) = Some n \<and> n < int (length ?b) + 12)"
    using lim by (simp add: overruns_def)
  show ?thesis
  proof (cases "rp_CopyError resp")
    case None
    with copied assms(2) h w show ?thesis by (simp add: handleRequest_def Let_def split_beta)
  next
    case (Some e)
    have "sent ?w' = Some (?code, ?h)" using w by simp
    from late_error [OF this, of "''Proxy error''" 502] obtain w' where
      "http_Error ''Proxy error'' 502 ?w' = Some w'" "sent w' = Some (?code, ?h)"
      "w_body w' = w_body ?w' @ (if is_head ?w' \<or> \<not> body_allowed ?code \<or> overruns ?w' (''Proxy error'' @ [CHR 0x0A])
         then [] else ''Proxy error'' @ [CHR 0x0A])" by blast
    with copied assms(2) h w Some o show ?thesis
      by (simp add: handleRequest_def Let_def split_beta proxy_error_status)
  qed
qed

section \<open>Properties\<close>

text \<open>
  C2: What the upstream gets.  The method, the body and every header of the request go on as
  they came, with all values in order, except for the three headers that say where it came
  from: these the proxy replaces, so a client that sends them decides what they say.
\<close>
theorem upstream_gets_the_request:
  assumes "is_shuffle sh" "canonical (r_Header r)"
  shows "let o' = upstream_request sh r u
    in o_Method o' = r_Method r \<and> o_Body o' = r_Body r \<and> o_URL o' = u \<and>
       h_values ''X-Forwarded-For'' (o_Header o') =
         [if h_Get ''X-Real-Ip'' (r_Header r) \<noteq> [] then h_Get ''X-Real-Ip'' (r_Header r)
          else if h_Get ''X-Forwarded-For'' (r_Header r) \<noteq> []
          then takeWhile (\<lambda>c. c \<noteq> CHR '','') (h_Get ''X-Forwarded-For'' (r_Header r)) else split_host (r_RemoteAddr r)] \<and>
       h_values ''X-Forwarded-Proto'' (o_Header o') = [getScheme r] \<and>
       h_values ''X-Forwarded-Host'' (o_Header o') = [r_Host r] \<and>
       (\<forall>k. k \<notin> {''X-Forwarded-For'', ''X-Forwarded-Proto'', ''X-Forwarded-Host''} \<longrightarrow>
          h_values k (o_Header o') = h_values k (r_Header r))"
proof -
  have "hd (split_on d s) = takeWhile (\<lambda>c. c \<noteq> d) s" for d s
    by (induction s) (auto split: list.splits)
  then have ip: "getClientIP r = (if h_Get ''X-Real-Ip'' (r_Header r) \<noteq> [] then h_Get ''X-Real-Ip'' (r_Header r)
      else if h_Get ''X-Forwarded-For'' (r_Header r) \<noteq> []
      then takeWhile (\<lambda>c. c \<noteq> CHR '','') (h_Get ''X-Forwarded-For'' (r_Header r)) else split_host (r_RemoteAddr r))"
    by (simp add: getClientIP_def)
  have none: "h_values k [] = []" for k by (simp add: h_values_def)
  show ?thesis
    unfolding upstream_request_def Let_def ip
    by (simp add: set_values copyHeaders_values [OF assms] none)
qed

text \<open>
  C1: What the client gets.  Without a healthy backend, or without a response from the one
  selected, it gets a page with status 502.  A response is passed on with its status, its
  headers and its body, given what the transport ensures of it (a final status, canonical
  names, no body where the status has none, at most the declared length).  When its body ends in an error, the text of the error
  page is appended under the status of the upstream, unless it goes over the length that the
  response declares: then the body just ends early.  The answer to a \<open>HEAD\<close> has no body.
\<close>
theorem client_gets_the_response:
  assumes "is_shuffle sh"
  shows "if lb_GetHealthyBackends (loadBalancer p) = []
    then replies (handleRequest lib sh r (new_writer r) p) 502
           (if r_Method r = ''HEAD'' then [] else ''No available upstream'' @ [CHR 0x0A])
    else \<exists>upstream \<in> set (lb_GetHealthyBackends (loadBalancer p)).
      fst (lb_SelectBackend (loadBalancer p)) = Inr upstream \<and>
      (case exchange lib sh (connPool p) r upstream of
         Inl err \<Rightarrow> replies (handleRequest lib sh r (new_writer r) p) 502
           (if r_Method r = ''HEAD'' then [] else ''Proxy error'' @ [CHR 0x0A])
       | Inr resp \<Rightarrow>
           let status = rp_StatusCode resp; body = concat (rp_Body resp); limit = declared (rp_Header resp)
           in 200 \<le> status \<and> status \<le> 999 \<and> canonical (rp_Header resp) \<and> (body_allowed status \<or> body = []) \<and>
              (\<forall>n. limit = Some n \<longrightarrow> int (length body) \<le> n) \<longrightarrow>
           (\<exists>w p' h. handleRequest lib sh r (new_writer r) p = Some (w, p') \<and> sent w = Some (status, h) \<and>
              (\<forall>k. h_values k h = h_values k (rp_Header resp)) \<and>
              w_body w = (if r_Method r = ''HEAD'' then []
                else body @ (if rp_CopyError resp = None \<or> \<not> body_allowed status \<or>
                                (\<exists>n. limit = Some n \<and> n < int (length body) + 12)
                             then [] else ''Proxy error'' @ [CHR 0x0A]))))"
proof (cases "lb_GetHealthyBackends (loadBalancer p) = []")
  case True
  then show ?thesis
    using lb.select_none [OF True] error_replies [of 502 _ "''No available upstream''" r]
    by (simp add: handleRequest_def Let_def split_beta body_allowed_def)
next
  case False
  then obtain upstream where up: "fst (lb_SelectBackend (loadBalancer p)) = Inr upstream"
    "upstream \<in> set (lb_GetHealthyBackends (loadBalancer p))"
    using lb.select_some [of "loadBalancer p"] by auto
  show ?thesis
  proof (cases "exchange lib sh (connPool p) r upstream")
    case (Inl err)
    then obtain msg where "proxyRequest lib sh (connPool p) r upstream (new_writer r) =
        Some (Some (NewWithCause ProxyError msg (Some err)), new_writer r)"
      using proxyRequest_fails by blast
    then have "replies (handleRequest lib sh r (new_writer r) p) 502
        (if r_Method r = ''HEAD'' then [] else ''Proxy error'' @ [CHR 0x0A])"
      using up(1) error_replies [of 502 _ "''Proxy error''" r]
      by (simp add: handleRequest_def Let_def split_beta proxy_error_status body_allowed_def)
    with False Inl up show ?thesis by (auto intro!: bexI [of _ upstream])
  next
    case (Inr resp)
    from relayed [OF assms up(1) Inr] False Inr up show ?thesis
      by (auto intro!: bexI [of _ upstream] simp: Let_def)
  qed
qed

text \<open>A proxy in front of one backend that answers every request.\<close>

definition sample_url :: url where
  "sample_url = \<lparr>Scheme = ''http'', Host = ''b:80'', Path = ''/'', RawQuery = []\<rparr>"

definition sample_lib :: http_lib where
  "sample_lib = \<lparr>lib_Parse = \<lambda>s. Inr sample_url,
     lib_String = \<lambda>u. ''http://b:80/'',
     lib_NewRequest = \<lambda>m s. Inr sample_url,
     lib_Do = \<lambda>c o'. Inr \<lparr>rp_StatusCode = 200, rp_Header = [(''Etag'', [''1''])], rp_Body = [''h'', ''i''],
       rp_CopyError = Some (External ''unexpected EOF'')\<rparr>\<rparr>"

definition sample_request :: request where
  "sample_request = \<lparr>r_Method = ''GET'', r_Path = ''/'', r_RawQuery = [], r_Header = [(''Accept'', [''a'', ''b''])],
     r_Host = ''h'', r_RemoteAddr = ''1.2.3.4:5'', r_TLS = False, r_Body = []\<rparr>"

definition sample_proxy :: proxy_service where
  "sample_proxy = \<lparr>ps_name = ''p'', upstreams = [''b:80''], loadBalancer = LbRoundRobin (NewRoundRobin [''b:80'']),
     connPool = NewHTTPConnectionPool None, ps_listening = not_listening\<rparr>"

lemma canonical_samples: "canonical [(''Accept'', [''a'', ''b''])]" "canonical [(''Etag'', [''1''])]"
  by (simp_all add: canonical_def mwf_def mkeys_def CanonicalHeaderKey_def token_char_def is_upper_def is_lower_def
      to_upper_char_def to_lower_char_def)

theorem upstream_gets_the_request_witness:
  "canonical (r_Header sample_request) \<and>
   h_values ''Accept'' (o_Header (upstream_request (\<lambda>xs. xs) sample_request sample_url)) = [''a'', ''b'']"
proof -
  have c: "canonical (r_Header sample_request)" using canonical_samples by (simp add: sample_request_def)
  from upstream_gets_the_request [OF is_shuffle_id c, of sample_url] c show ?thesis
    by (simp add: Let_def) (simp add: h_values_def sample_request_def)
qed

theorem client_gets_the_response_witness:
  "\<exists>w p' h. handleRequest sample_lib (\<lambda>xs. xs) sample_request (new_writer sample_request) sample_proxy = Some (w, p') \<and>
     sent w = Some (200, h) \<and> h_values ''Etag'' h = [''1''] \<and> w_body w = ''hiProxy error'' @ [CHR 0x0A]"
proof -
  have "lb_GetHealthyBackends (loadBalancer sample_proxy) = [''b:80'']"
    by (simp add: sample_proxy_def rr_GetHealthyBackends_def NewRoundRobin_def)
  moreover have "exchange sample_lib (\<lambda>xs. xs) pool r a =
      Inr \<lparr>rp_StatusCode = 200, rp_Header = [(''Etag'', [''1''])], rp_Body = [''h'', ''i''],
        rp_CopyError = Some (External ''unexpected EOF'')\<rparr>" for pool r a
    by (simp add: exchange_def sample_lib_def)
  moreover have "declared [(''Etag'', [''1''])] = None" "body_allowed 200" "r_Method sample_request \<noteq> ''HEAD''"
    by (simp_all add: declared_def h_values_def body_allowed_def sample_request_def)
  ultimately show ?thesis
    using client_gets_the_response [OF is_shuffle_id, of sample_proxy sample_lib sample_request] canonical_samples
    by (auto simp: h_values_def Let_def)
qed

end
