(* ===== verification/Echo.thy ===== *)
theory Echo
  imports ProxyRequests
begin

text \<open>
  Package \<open>internal/examples\<close>, \<open>EchoService\<close>, and the handlers of the \<open>server\<close> command of
  \<open>cmd/pingora\<close>: their listeners and the texts they answer with.  \<open>now\<close> is the text of the
  current time.
\<close>

section \<open>The echo service\<close>

record echo_service =
  es_name :: string
  es_listening :: listening

definition NewEchoService :: "string \<Rightarrow> echo_service" where
  "NewEchoService name = \<lparr>es_name = name, es_listening = not_listening\<rparr>"

definition es_Name :: "echo_service \<Rightarrow> string" where
  "es_Name e = es_name e"

definition es_on :: "(listening \<Rightarrow> go_error option \<times> listening) \<Rightarrow> echo_service \<Rightarrow> go_error option \<times> echo_service" where
  "es_on f e = (let (err, L) = f (es_listening e) in (err, e\<lparr>es_listening := L\<rparr>))"

definition es_AddTCP :: "listen \<Rightarrow> string \<Rightarrow> echo_service \<Rightarrow> go_error option \<times> echo_service" where
  "es_AddTCP listen addr = es_on (addListener listen ''tcp'' addr)"

definition es_AddTLS :: "string \<Rightarrow> string \<Rightarrow> string \<Rightarrow> echo_service \<Rightarrow> go_error option" where
  "es_AddTLS addr certFile keyFile e = Some (New InternalError ''TLS not implemented in echo service'')"

definition es_AddUDS :: "listen \<Rightarrow> string \<Rightarrow> echo_service \<Rightarrow> go_error option \<times> echo_service" where
  "es_AddUDS listen path = es_on (addListener listen ''unix'' path)"

definition es_Start :: "echo_service \<Rightarrow> go_error option \<times> echo_service" where
  "es_Start = es_on (start_listening (New InternalError ''no listeners configured''))"

definition es_serve :: "nat \<Rightarrow> echo_service \<Rightarrow> echo_service option" where
  "es_serve i e = map_option (\<lambda>L. e\<lparr>es_listening := L\<rparr>) (serve i (es_listening e))"

definition es_stop_server :: "go_error option \<Rightarrow> echo_service \<Rightarrow> go_error option \<times> echo_service" where
  "es_stop_server result =
     es_on (stop_server (\<lambda>err. NewWithCause InternalError ''failed to shutdown server'' (Some err)) result)"

definition es_stop_listeners :: "echo_service \<Rightarrow> go_error option \<times> echo_service" where
  "es_stop_listeners = es_on (\<lambda>L. (None, stop_listeners L))"

section \<open>The handlers\<close>

definition nl :: string where
  "nl = [CHR 0x0A]"

definition quoted :: "string \<Rightarrow> string" where
  "quoted s = [CHR 0x22] @ s @ [CHR 0x22]"

definition json_field :: "string \<Rightarrow> string \<Rightarrow> string" where
  "json_field key v = nl @ ''  '' @ quoted key @ '': '' @ quoted v"

text \<open>The pairs of a header in the order of the two loops, and what the loops write for them.\<close>

definition pairs :: "((string \<times> string list) list \<Rightarrow> (string \<times> string list) list) \<Rightarrow> header \<Rightarrow> (string \<times> string) list" where
  "pairs sh h = concat (map (\<lambda>(key, values). map (Pair key) values) (sh h))"

fun header_fields :: "bool \<Rightarrow> (string \<times> string) list \<Rightarrow> string" where
  "header_fields first [] = []"
| "header_fields first ((key, value) # ps) =
     (if first then [] else '','') @ nl @ ''    '' @ quoted key @ '': '' @ quoted value @ header_fields False ps"

definition es_echoHandler :: "string \<Rightarrow> ((string \<times> string list) list \<Rightarrow> (string \<times> string list) list) \<Rightarrow>
    echo_service \<Rightarrow> request \<Rightarrow> writer \<Rightarrow> writer" where
  "es_echoHandler now sh e r w =
     (let h = h_Set ''X-Service'' (es_name e) (h_Set ''Content-Type'' ''application/json'' (w_header w));
          w = w\<lparr>w_header := h\<rparr>;
          w = Fprint (''{'' @ json_field ''method'' (r_Method r) @ '','' @ json_field ''path'' (r_Path r) @ '','' @
                     json_field ''query'' (r_RawQuery r) @ '','' @ nl @ ''  '' @ quoted ''headers'' @ '': {'') w;
          w = Fprint (header_fields True (pairs sh (r_Header r))) w
      in Fprint (nl @ ''  },'' @ json_field ''remote_addr'' (r_RemoteAddr r) @ '','' @ json_field ''timestamp'' now @ nl @ ''}'') w)"

definition es_healthHandler :: "string \<Rightarrow> echo_service \<Rightarrow> request \<Rightarrow> writer \<Rightarrow> writer" where
  "es_healthHandler now e r w =
     (let w = w\<lparr>w_header := h_Set ''Content-Type'' ''application/json'' (w_header w)\<rparr>
      in Fprint (''{'' @ quoted ''status'' @ '': '' @ quoted ''ok'' @ '', '' @ quoted ''service'' @ '': '' @ quoted (es_name e) @
                '', '' @ quoted ''timestamp'' @ '': '' @ quoted now @ ''}'') w)"

text \<open>The handlers of the command.\<close>

definition echoHandler :: "((string \<times> string list) list \<Rightarrow> (string \<times> string list) list) \<Rightarrow> request \<Rightarrow> writer \<Rightarrow> writer" where
  "echoHandler sh r w =
     (let w = w\<lparr>w_header := h_Set ''Content-Type'' ''application/json'' (w_header w)\<rparr>;
          w = Fprint (''{'' @ json_field ''method'' (r_Method r) @ '','' @ json_field ''path'' (r_Path r) @ '','' @
                     nl @ ''  '' @ quoted ''headers'' @ '': {'') w;
          w = Fprint (header_fields True (pairs sh (r_Header r))) w
      in Fprint (nl @ ''  },'' @ json_field ''remote_addr'' (r_RemoteAddr r) @ nl @ ''}'') w)"

definition healthHandler :: "request \<Rightarrow> writer \<Rightarrow> writer" where
  "healthHandler r w =
     (let w = w\<lparr>w_header := h_Set ''Content-Type'' ''application/json'' (w_header w)\<rparr>
      in Fprint (''{'' @ quoted ''status'' @ '': '' @ quoted ''ok'' @ '', '' @ quoted ''service'' @ '': '' @ quoted ''pinGo'' @ ''}'') w)"

section \<open>What the handlers answer\<close>

lemma Fprint_first:
  "sent (Fprint s w) = (case sent w of None \<Rightarrow> Some (200, w_header w) | Some x \<Rightarrow> Some x)"
  by (auto simp: Fprint_def Write_def send_header_def Let_def split: option.splits)

lemma Fprint_keeps: "w_header (Fprint s w) = w_header w"
  by (auto simp: Fprint_def Write_def send_header_def Let_def)

text \<open>Every answer has status 200 and the type of JSON.\<close>

lemma handlers_answer_200:
  assumes "w \<in> {es_echoHandler now sh e r (new_writer r), es_healthHandler now e r (new_writer r),
     echoHandler sh r (new_writer r), healthHandler r (new_writer r)}"
  shows "\<exists>h. sent w = Some (200, h) \<and> h_values ''Content-Type'' h = [''application/json'']"
  using assms
  by (auto simp: es_echoHandler_def es_healthHandler_def echoHandler_def healthHandler_def Let_def Fprint_first Fprint_keeps
      new_writer_def set_values)

text \<open>
  Values are not escaped: a quote in one ends its string.  Two requests that differ in their
  path and query get one and the same text.
\<close>

lemma echo_conflates_requests:
  assumes "mid = [CHR 0x22] @ '','' @ nl @ ''  '' @ quoted ''query'' @ '': '' @ [CHR 0x22]"
  shows "es_echoHandler now sh e (r\<lparr>r_Path := a @ mid @ b, r_RawQuery := c\<rparr>) w =
         es_echoHandler now sh e (r\<lparr>r_Path := a, r_RawQuery := b @ mid @ c\<rparr>) w"
  by (simp add: es_echoHandler_def json_field_def quoted_def assms Let_def)

end
