(* ===== verification/Services.thy ===== *)
theory Services
  imports Server Proxy Echo
begin

text \<open>
  The services of the program under the server of package \<open>pkg/core\<close>: the interface
  \<open>Service\<close> with its three implementations, the peers and builders of \<open>core\<close>, and what a
  run of the server does to the listeners of its services.
\<close>

section \<open>Peers, options and the service builder of core\<close>

record keepalive =
  Idle :: duration
  Interval :: duration
  Count :: int

record socket_options =
  TCPFastOpen :: "int option"
  TCPKeepalive :: "keepalive option"
  ReusePort :: bool
  Backlog :: int

definition DefaultTCPSocketOptions :: socket_options where
  "DefaultTCPSocketOptions = \<lparr>TCPFastOpen = None, TCPKeepalive = None, ReusePort = False, Backlog = 128\<rparr>"

record core_tls =
  ct_CertFile :: string
  ct_KeyFile :: string
  ct_EnableH2 :: bool
  ct_MinVersion :: "16 word"
  ct_MaxVersion :: "16 word"
  ct_CipherSuites :: "16 word list"

definition ct_EnableHTTP2 :: "core_tls \<Rightarrow> core_tls" where
  "ct_EnableHTTP2 t = t\<lparr>ct_EnableH2 := True\<rparr>"

record version_preference =
  pref_HTTP2 :: int
  pref_HTTP1 :: int

record peer_options =
  HTTPVersion :: version_preference
  peer_Timeout :: duration

record http_peer =
  peer_Addr :: string
  peer_TLS :: bool
  peer_SNI :: string
  Options :: peer_options

definition SetHTTPVersion :: "int \<Rightarrow> int \<Rightarrow> peer_options \<Rightarrow> peer_options" where
  "SetHTTPVersion http2Pref http1Pref o' = o'\<lparr>HTTPVersion := \<lparr>pref_HTTP2 = http2Pref, pref_HTTP1 = http1Pref\<rparr>\<rparr>"

definition NewHTTPPeer :: "string \<Rightarrow> bool \<Rightarrow> string \<Rightarrow> http_peer" where
  "NewHTTPPeer addr tls sni = \<lparr>peer_Addr = addr, peer_TLS = tls, peer_SNI = sni,
     Options = \<lparr>HTTPVersion = \<lparr>pref_HTTP2 = 2, pref_HTTP1 = 1\<rparr>, peer_Timeout = 30 * second\<rparr>\<rparr>"

text \<open>Handlers, which nothing adds or calls, are numbers.\<close>

record http_service =
  sv_name :: string
  sv_handlers :: "(string, nat) gomap"
  sv_listener :: "listener option"

record http_builder =
  hb_name :: string
  hb_handlers :: "(string, nat) gomap"

definition NewHTTPServiceBuilder :: "string \<Rightarrow> http_builder" where
  "NewHTTPServiceBuilder name = \<lparr>hb_name = name, hb_handlers = []\<rparr>"

definition hb_Name :: "http_builder \<Rightarrow> string" where
  "hb_Name b = hb_name b"

definition Build :: "http_builder \<Rightarrow> go_error + http_service" where
  "Build b = Inr \<lparr>sv_name = hb_name b, sv_handlers = hb_handlers b, sv_listener = None\<rparr>"

definition sv_Name :: "http_service \<Rightarrow> string" where
  "sv_Name s = sv_name s"

definition sv_Start :: "http_service \<Rightarrow> go_error option" where
  "sv_Start s = None"

text \<open>\<open>closed\<close> is what closing the listener gives.\<close>

definition sv_Stop :: "go_error option \<Rightarrow> http_service \<Rightarrow> go_error option \<times> http_service" where
  "sv_Stop closed s =
     (case sv_listener s of
        None \<Rightarrow> (None, s)
      | Some l \<Rightarrow> (OrErr closed InternalError ''failed to close listener'', s\<lparr>sv_listener := Some (close_listener l)\<rparr>))"

section \<open>The interface Service\<close>

datatype service =
    ProxyService proxy_service
  | EchoService echo_service
  | HTTPService http_service

fun service_Name :: "service \<Rightarrow> string" where
  "service_Name (ProxyService p) = ps_Name p"
| "service_Name (EchoService e) = es_Name e"
| "service_Name (HTTPService s) = sv_Name s"

fun service_Start :: "service \<Rightarrow> go_error option \<times> service" where
  "service_Start (ProxyService p) = map_prod id ProxyService (ps_Start p)"
| "service_Start (EchoService e) = map_prod id EchoService (es_Start e)"
| "service_Start (HTTPService s) = (sv_Start s, HTTPService s)"

text \<open>The goroutines that \<open>Start\<close> leaves behind.\<close>

inductive service_work :: "service \<Rightarrow> service \<Rightarrow> bool" where
  "\<lbrakk>i \<in> set (unserved (ps_listening p)); ps_serve i p = Some p'\<rbrakk> \<Longrightarrow> service_work (ProxyService p) (ProxyService p')"
| "\<lbrakk>i \<in> set (unserved (es_listening e)); es_serve i e = Some e'\<rbrakk> \<Longrightarrow> service_work (EchoService e) (EchoService e')"

text \<open>
  \<open>Stop\<close> in two steps; the result of shutting down a server, or of closing a listener, can be
  any.
\<close>

inductive service_stop :: "service \<Rightarrow> go_error option \<times> service \<Rightarrow> bool" where
  "ps_stop_server result p = (err, p') \<Longrightarrow> service_stop (ProxyService p) (err, ProxyService p')"
| "es_stop_server result e = (err, e') \<Longrightarrow> service_stop (EchoService e) (err, EchoService e')"
| "service_stop (HTTPService s) (None, HTTPService s)"

inductive service_stop_rest :: "service \<Rightarrow> go_error option \<times> service \<Rightarrow> bool" where
  "ps_stop_listeners p = (err, p') \<Longrightarrow> service_stop_rest (ProxyService p) (err, ProxyService p')"
| "es_stop_listeners e = (err, e') \<Longrightarrow> service_stop_rest (EchoService e) (err, EchoService e')"
| "sv_Stop closed s = (err, s') \<Longrightarrow> service_stop_rest (HTTPService s) (err, HTTPService s')"

inductive_cases work_cases: "service_work s s'"
inductive_cases stop_cases: "service_stop s r"
inductive_cases rest_cases: "service_stop_rest s r"

text \<open>No open listener.\<close>

fun silent :: "service \<Rightarrow> bool" where
  "silent (ProxyService p) = all_closed (ps_listening p)"
| "silent (EchoService e) = all_closed (es_listening e)"
| "silent (HTTPService s) = (case sv_listener s of None \<Rightarrow> True | Some l \<Rightarrow> \<not> ln_open l)"

interpretation sv: stoppable_service service_Start service_work service_stop service_stop_rest silent
proof (unfold_locales, goal_cases)
  case (1 s) then show ?case
    by (cases s) (auto simp: ps_Start_def es_Start_def on_listening_def es_on_def split_beta intro: closed_start)
next
  case (2 s s') then show ?case
    by (auto elim!: work_cases simp: ps_serve_def es_serve_def) (metis closed_serve)+
next
  case (3 s r) then show ?case
    by (auto elim!: stop_cases simp: ps_stop_server_def es_stop_server_def on_listening_def es_on_def split_beta
        intro: closed_stop_server)
next
  case (4 s r) then show ?case
    by (auto elim!: rest_cases simp: ps_stop_listeners_def es_stop_listeners_def on_listening_def es_on_def sv_Stop_def
        close_listener_def closed_stop_listeners split: option.splits)
next
  case (5 s s') then show ?case
    by (auto elim!: rest_cases simp: ps_stop_listeners_def es_stop_listeners_def on_listening_def es_on_def sv_Stop_def
        close_listener_def closed_stop_listeners OrErr_def split: option.splits)
qed

section \<open>Properties\<close>

abbreviation service_run :: "service run \<Rightarrow> service run \<Rightarrow> bool" where
  "service_run \<equiv> (run_step service_Start service_work service_stop service_stop_rest)\<^sup>*\<^sup>*"

text \<open>
  C3: Graceful shutdown.  However the goroutines of a run interleave, even when a service
  starts only after it was stopped: if \<open>RunForever\<close> returns no error, each of its services was
  stopped, and then has no open listener, or its \<open>Stop\<close> failed, which the server only logs.
  If it returns an error, that is the timeout, and thirty seconds have passed since the last
  moment at which it was still serving.
\<close>
theorem graceful_shutdown_closes_listeners:
  assumes "service_run (RunForever st now s) r1" "service_run r1 r"
  shows "(phase r = Returned None \<longrightarrow> map svc (procs r) = services s \<and>
       (\<forall>p \<in> set (procs r). (stopping p = Stopped None \<and> silent (store r (svc p))) \<or>
          (\<exists>e \<in> set (logged r). stopping p = Stopped (Some e)))) \<and>
     (\<forall>e. phase r1 = Serving \<and> phase r = Returned (Some e) \<longrightarrow>
        e = graceful_timeout \<and> clock r1 + 30 * second \<le> clock r)"
proof -
  have run: "service_run (RunForever st now s) r" using assms by simp
  from sv.stopped_or_logged [OF run] sv.procs_of_services [OF run] sv.gives_up_late [OF assms(2)]
  show ?thesis by blast
qed

text \<open>An echo service on a port is stopped before it has started, and the run ends.\<close>

definition sample_echo :: service where
  "sample_echo = EchoService (snd (es_AddTCP (\<lambda>n a. None) '':8080'' (NewEchoService ''echo'')))"

definition stopped_echo :: service where
  "stopped_echo = EchoService (snd (es_stop_listeners (snd (es_AddTCP (\<lambda>n a. None) '':8080'' (NewEchoService ''echo'')))))"

definition sample_state :: "service \<Rightarrow> stop_pc \<Rightarrow> phase \<Rightarrow> bool \<Rightarrow> service run" where
  "sample_state sv pc ph req = \<lparr>store = (\<lambda>_. sample_echo)(0 := sv), procs = [\<lparr>svc = 0, started = False, stopping = pc\<rparr>],
     phase = ph, requested = req, clock = 0, logged = []\<rparr>"

definition sample_server :: server where
  "sample_server = AddService 0 (NewServer None)"

lemma sample_run:
  "service_run (RunForever (\<lambda>_. sample_echo) 0 sample_server) (sample_state stopped_echo (Stopped None) (Returned None) True)"
proof -
  let ?step = "run_step service_Start service_work service_stop service_stop_rest"
  let ?s = sample_state and ?T = "Stopping (30 * second)"
  have start: "RunForever (\<lambda>_. sample_echo) 0 sample_server = ?s sample_echo NotStopped Serving False"
    by (simp add: sample_server_def RunForever_def AddService_def NewServer_def sample_state_def fun_eq_iff)
  have "?step (?s sample_echo NotStopped Serving False) (?s sample_echo NotStopped Serving True)"
    using run_request [of service_Start service_work service_stop service_stop_rest "?s sample_echo NotStopped Serving False"]
    by (simp add: sample_state_def)
  moreover have "?step (?s sample_echo NotStopped Serving True) (?s sample_echo NotStopped ?T True)"
    using run_shutdown [of "?s sample_echo NotStopped Serving True"] by (simp add: sample_state_def)
  moreover have "service_stop sample_echo (None, sample_echo)"
    unfolding sample_echo_def
    by (rule service_stop.intros(2) [of None])
      (simp add: es_stop_server_def es_on_def stop_server_def es_AddTCP_def addListener_def NewEchoService_def not_listening_def)
  then have "?step (?s sample_echo NotStopped ?T True) (?s sample_echo HalfStopped ?T True)"
    using run_stop [of "?s sample_echo NotStopped ?T True" 0 service_stop None sample_echo]
    by (simp add: sample_state_def service_of_def update_def log_error_def)
  moreover have "service_stop_rest sample_echo (None, stopped_echo)"
    unfolding sample_echo_def stopped_echo_def
    by (rule service_stop_rest.intros(2)) (simp add: es_stop_listeners_def es_on_def)
  then have "?step (?s sample_echo HalfStopped ?T True) (?s stopped_echo (Stopped None) ?T True)"
    using run_stopped [of 0 "?s sample_echo HalfStopped ?T True" service_stop_rest None stopped_echo]
    by (simp add: sample_state_def service_of_def update_def log_error_def)
  moreover have "?step (?s stopped_echo (Stopped None) ?T True) (?s stopped_echo (Stopped None) (Returned None) True)"
    using run_done [of "?s stopped_echo (Stopped None) ?T True"] by (simp add: sample_state_def)
  ultimately show ?thesis
    unfolding start by (meson rtranclp.rtrancl_refl rtranclp.rtrancl_into_rtrancl)
qed

theorem graceful_shutdown_closes_listeners_witness:
  "silent stopped_echo \<and> map svc (procs (sample_state stopped_echo (Stopped None) (Returned None) True)) = services sample_server"
  using graceful_shutdown_closes_listeners [OF sample_run rtranclp.rtrancl_refl] by (simp add: sample_state_def)

end
