(* ===== verification/Commands.thy ===== *)
theory Commands
  imports Services
begin

text \<open>
  The programs \<open>cmd/pingora\<close> and \<open>cmd/examples\<close> with the examples of \<open>internal/examples\<close>:
  what they print and how they end, or with which server they run.  The environment, what
  listening and fetching give and the texts of foreign errors are arguments.
\<close>

section \<open>How a program ends\<close>

text \<open>
  \<open>FatalError\<close> is the message of \<open>log.Fatal\<close>; \<open>RunsForever\<close> enters the server's loop, with the
  services that its pointers refer to.
\<close>

datatype ending = Ends | ExitWith int | FatalError string | RunsForever "service list" server

record world =
  environment :: "string \<Rightarrow> string"
  net_listen :: listen
  foreign_text :: "go_error \<Rightarrow> string"
  random_source :: rand_source

definition getEnv :: "world \<Rightarrow> string \<Rightarrow> string \<Rightarrow> string" where
  "getEnv env key defaultValue = (let value = environment env key in if value \<noteq> [] then value else defaultValue)"

definition line :: "string \<Rightarrow> string" where
  "line s = s @ nl"

section \<open>The command pingora\<close>

definition usage :: string where
  "usage = concat (map line [
     ''pinGo - Pingora implementation in Go'', [], ''Usage:'',
     ''  pingora proxy   - Run HTTP proxy server'',
     ''  pingora server  - Run HTTP server examples'',
     ''  pingora client  - Run HTTP client examples'', [], ''Examples:'',
     ''  pingora proxy                    # Run proxy on :8080 -> httpbin.org:80'',
     ''  PORT=8080 TARGET=httpbin.org:80 pingora proxy'',
     ''  pingora server                   # Run echo server on :8080'',
     ''  pingora client                   # Make HTTP requests''])"

definition runProxy :: "world \<Rightarrow> string \<times> ending" where
  "runProxy env =
     (let listenAddr = getEnv env ''LISTEN'' '':8080''; targetAddr = getEnv env ''TARGET'' ''httpbin.org:80'';
          out = line ''Starting proxy server...'' @ line (''Listen: '' @ listenAddr) @ line (''Target: '' @ targetAddr)
      in case SimpleProxyService (random_source env) (foreign_text env) (net_listen env) listenAddr targetAddr of
           Inl msg \<Rightarrow> (out, FatalError msg)
         | Inr p \<Rightarrow> (out, RunsForever [ProxyService p] (AddService 0 (NewServer None))))"

text \<open>\<open>run_ends\<close>: what becomes of \<open>RunForever\<close>, given what it returns.\<close>

definition run_ends :: "world \<Rightarrow> go_error option \<Rightarrow> ending" where
  "run_ends env err = (case err of None \<Rightarrow> Ends | Some e \<Rightarrow> FatalError (''Server failed: '' @ error_text (foreign_text env) e))"

text \<open>The two routes of the server; \<open>served\<close> is the error with which \<open>ListenAndServe\<close> ends.\<close>

definition mux :: "((string \<times> string list) list \<Rightarrow> (string \<times> string list) list) \<Rightarrow> request \<Rightarrow> writer \<Rightarrow> writer" where
  "mux sh r w = (if r_Path r = ''/health'' then healthHandler r w else echoHandler sh r w)"

definition runServer :: "(string \<Rightarrow> go_error) \<Rightarrow> world \<Rightarrow> string \<times> ending" where
  "runServer served env =
     (let listenAddr = getEnv env ''LISTEN'' '':8080''
      in (line (''Starting echo server on '' @ listenAddr), FatalError (error_text (foreign_text env) (served listenAddr))))"

text \<open>\<open>fetch\<close> gives the status line and the header of a response.\<close>

definition runClient :: "(string \<Rightarrow> go_error + string \<times> header) \<Rightarrow>
    ((string \<times> string list) list \<Rightarrow> (string \<times> string list) list) \<Rightarrow> world \<Rightarrow> string \<times> ending" where
  "runClient fetch sh env =
     (let targetURL = getEnv env ''URL'' ''http://httpbin.org/get''; out = line (''Making request to '' @ targetURL)
      in case fetch targetURL of
           Inl err \<Rightarrow> (out, FatalError (''Request failed: '' @ error_text (foreign_text env) err))
         | Inr (status, h) \<Rightarrow>
             (out @ line (''Status: '' @ status) @ line ''Headers:'' @
              concat (map (\<lambda>(key, value). line (''  '' @ key @ '': '' @ value)) (pairs sh h)), Ends))"

text \<open>The arguments begin with the name of the program.\<close>

definition pingora_main :: "(string \<Rightarrow> go_error) \<Rightarrow> (string \<Rightarrow> go_error + string \<times> header) \<Rightarrow>
    ((string \<times> string list) list \<Rightarrow> (string \<times> string list) list) \<Rightarrow> world \<Rightarrow> string list \<Rightarrow> string \<times> ending" where
  "pingora_main served fetch sh env args =
     (if length args < 2 then (usage, ExitWith 1)
      else if args ! 1 = ''proxy'' then runProxy env
      else if args ! 1 = ''server'' then runServer served env
      else if args ! 1 = ''client'' then runClient fetch sh env
      else (usage, ExitWith 1))"

section \<open>The examples\<close>

definition LoadBalancerExample :: "world \<Rightarrow> string \<times> ending" where
  "LoadBalancerExample env =
     (let cfg = zero_config\<lparr>Upstreams := [''httpbin.org:80'', ''httpbingo.org:80'', ''postman-echo.com:80''],
                LoadBalancingMethod := ''round_robin''\<rparr>;
          title = line ''=== Load Balancer Example ===''
      in case NewProxyService (random_source env) ''load-balancer'' (Some cfg) of
           Inl err \<Rightarrow> (title, FatalError (''Failed to create proxy service: '' @ error_text (foreign_text env) err))
         | Inr p \<Rightarrow> (case ps_AddTCP (net_listen env) '':8080'' p of
             (Some err, p) \<Rightarrow> (title, FatalError (''Failed to add TCP listener: '' @ error_text (foreign_text env) err))
           | (None, p) \<Rightarrow>
               (title @ line ''Load balancer listening on :8080'' @
                line ''Upstreams: httpbin.org, httpbingo.org, postman-echo.com'' @
                line ''Try: curl http://localhost:8080/get'',
                RunsForever [ProxyService p] (AddService 0 (NewServer None)))))"

definition EchoServerExample :: "world \<Rightarrow> string \<times> ending" where
  "EchoServerExample env =
     (let title = line ''=== Echo Server Example ===''
      in case es_AddTCP (net_listen env) '':8080'' (NewEchoService ''echo-server'') of
           (Some err, e) \<Rightarrow> (title, FatalError (''Failed to add TCP listener: '' @ error_text (foreign_text env) err))
         | (None, e) \<Rightarrow>
             (title @ line ''Echo server listening on :8080'' @ line ''Try: curl http://localhost:8080/'' @
              line ''Health check: curl http://localhost:8080/health'',
              RunsForever [EchoService e] (AddService 0 (NewServer None))))"

definition MultiServiceExample :: "world \<Rightarrow> string \<times> ending" where
  "MultiServiceExample env =
     (let title = line ''=== Multi-Service Example ==='';
          fatal = (\<lambda>msg err. (title, FatalError (msg @ error_text (foreign_text env) err)))
      in case es_AddTCP (net_listen env) '':8080'' (NewEchoService ''echo-1'') of
           (Some err, _) \<Rightarrow> fatal ''Failed to add TCP listener for echo-1: '' err
         | (None, e1) \<Rightarrow>
        (case es_AddTCP (net_listen env) '':8081'' (NewEchoService ''echo-2'') of
           (Some err, _) \<Rightarrow> fatal ''Failed to add TCP listener for echo-2: '' err
         | (None, e2) \<Rightarrow>
        (case NewProxyService (random_source env) ''proxy'' (Some (zero_config\<lparr>Upstreams := [''httpbin.org:80'']\<rparr>)) of
           Inl err \<Rightarrow> fatal ''Failed to create proxy service: '' err
         | Inr p \<Rightarrow>
        (case ps_AddTCP (net_listen env) '':8082'' p of
           (Some err, _) \<Rightarrow> fatal ''Failed to add TCP listener for proxy: '' err
         | (None, p) \<Rightarrow>
             (title @ line ''Services running:'' @ line ''  Echo-1: http://localhost:8080/'' @
              line ''  Echo-2: http://localhost:8081/'' @ line ''  Proxy:  http://localhost:8082/ -> httpbin.org'',
              RunsForever [EchoService e1, EchoService e2, ProxyService p] (AddServices [0, 1, 2] (NewServer None)))))))"

text \<open>The usage of the examples is written by \<open>log\<close>, like fatal errors.\<close>

definition examples_usage :: string where
  "examples_usage = concat (map line [''pinGo Examples'', [], ''Usage:'',
     ''  examples echo         - Run echo server example'',
     ''  examples loadbalancer - Run load balancer example  '',
     ''  examples multi        - Run multi-service example''])"

definition examples_main :: "world \<Rightarrow> string list \<Rightarrow> string \<times> ending" where
  "examples_main env args =
     (if length args < 2 then (examples_usage, ExitWith 1)
      else if args ! 1 = ''echo'' then EchoServerExample env
      else if args ! 1 = ''loadbalancer'' then LoadBalancerExample env
      else if args ! 1 = ''multi'' then MultiServiceExample env
      else (examples_usage, ExitWith 1))"

section \<open>Which commands work\<close>

text \<open>\<open>pingora proxy\<close> never runs a proxy, whatever the environment and the network give.\<close>

lemma proxy_command_is_fatal:
  "snd (pingora_main served fetch sh env (prog # ''proxy'' # rest)) =
     FatalError ''Failed to create proxy service: LoadBalancingError: unknown load balancing method: ''"
  by (simp add: pingora_main_def runProxy_def Let_def simple_proxy_is_fatal)

text \<open>Of the examples, the echo server and the load balancer run when they can listen; the third never does.\<close>

lemma examples_that_run:
  "(\<exists>svs s. snd (EchoServerExample env) = RunsForever svs s) \<longleftrightarrow> net_listen env ''tcp'' '':8080'' = None"
  "(\<exists>svs s. snd (LoadBalancerExample env) = RunsForever svs s) \<longleftrightarrow> net_listen env ''tcp'' '':8080'' = None"
  "\<exists>msg. snd (MultiServiceExample env) = FatalError msg"
  by (auto simp: EchoServerExample_def es_AddTCP_def es_on_def addListener_def split: option.splits)
    (auto simp: LoadBalancerExample_def MultiServiceExample_def NewProxyService_def choose_balancer_def zero_config_def
      ps_AddTCP_def on_listening_def es_AddTCP_def es_on_def addListener_def Let_def split: option.splits)

end
