(* ===== verification/Tls.thy ===== *)
theory Tls
  imports Pool Listeners
begin

text \<open>
  Package \<open>pkg/tls\<close>: settings and the configuration built from them, the TLS client and the
  certificate manager.  Certificates and pools of authorities are numbers; loading, reading
  and parsing files is an argument (record \<open>tls_lib\<close>).  Of a client's hello only the server
  name is used.
\<close>

type_synonym cert = nat
type_synonym cert_pool = nat
type_synonym sni_callback = "string \<Rightarrow> go_error + cert"

record tls_lib =
  load_pair :: "string \<Rightarrow> string \<Rightarrow> go_error + cert"
  read_file :: "string \<Rightarrow> go_error + string"
  pool_from_pem :: "string \<Rightarrow> cert_pool option"
  pem_certs :: "string \<Rightarrow> go_error + cert list"
  match_key :: "cert list \<Rightarrow> string \<Rightarrow> go_error option"
  parse_cert :: "cert \<Rightarrow> go_error + string"

section \<open>Settings\<close>

definition VersionTLS12 :: "16 word" where "VersionTLS12 = 0x0303"
definition VersionTLS13 :: "16 word" where "VersionTLS13 = 0x0304"

record tls_settings =
  CertFile :: string
  KeyFile :: string
  CAFile :: string
  ClientAuth :: int
  MinVersion :: "16 word"
  MaxVersion :: "16 word"
  CipherSuites :: "16 word list"
  CurvePreferences :: "16 word list"
  EnableH2 :: bool
  SNICallback :: "sni_callback option"

text \<open>No constructor fails.\<close>

definition NewTLSSettings :: "string \<Rightarrow> string \<Rightarrow> tls_settings" where
  "NewTLSSettings certFile keyFile = \<lparr>CertFile = certFile, KeyFile = keyFile, CAFile = [], ClientAuth = 0,
     MinVersion = VersionTLS12, MaxVersion = VersionTLS13, CipherSuites = [], CurvePreferences = [],
     EnableH2 = False, SNICallback = None\<rparr>"

definition IntermediateTLS :: "string \<Rightarrow> string \<Rightarrow> tls_settings" where
  "IntermediateTLS certFile keyFile = \<lparr>CertFile = certFile, KeyFile = keyFile, CAFile = [], ClientAuth = 0,
     MinVersion = VersionTLS12, MaxVersion = VersionTLS13,
     CipherSuites = [0x1301, 0x1302, 0x1303, 0xC02B, 0xC02F, 0xC02C, 0xC030, 0xCCA9, 0xCCA8],
     CurvePreferences = [29, 23, 24], EnableH2 = False, SNICallback = None\<rparr>"

definition ModernTLS :: "string \<Rightarrow> string \<Rightarrow> tls_settings" where
  "ModernTLS certFile keyFile = \<lparr>CertFile = certFile, KeyFile = keyFile, CAFile = [], ClientAuth = 0,
     MinVersion = VersionTLS13, MaxVersion = VersionTLS13, CipherSuites = [0x1301, 0x1302, 0x1303],
     CurvePreferences = [29, 23], EnableH2 = False, SNICallback = None\<rparr>"

definition EnableHTTP2 :: "tls_settings \<Rightarrow> tls_settings" where
  "EnableHTTP2 t = t\<lparr>EnableH2 := True\<rparr>"

definition SetClientAuth :: "int \<Rightarrow> tls_settings \<Rightarrow> tls_settings" where
  "SetClientAuth auth t = t\<lparr>ClientAuth := auth\<rparr>"

definition SetCAFile :: "string \<Rightarrow> tls_settings \<Rightarrow> tls_settings" where
  "SetCAFile caFile t = t\<lparr>CAFile := caFile\<rparr>"

section \<open>The configuration of crypto/tls\<close>

record tls_config =
  Certificates :: "cert list"
  cf_MinVersion :: "16 word"
  cf_MaxVersion :: "16 word"
  cf_ClientAuth :: int
  cf_CipherSuites :: "16 word list"
  cf_CurvePreferences :: "16 word list"
  NextProtos :: "string list"
  ClientCAs :: "cert_pool option"
  cf_GetCertificate :: "sni_callback option"
  InsecureSkipVerify :: bool
  ServerName :: string
  RootCAs :: "cert_pool option"

definition base_config :: "cert \<Rightarrow> tls_settings \<Rightarrow> tls_config" where
  "base_config cert t = \<lparr>Certificates = [cert], cf_MinVersion = MinVersion t, cf_MaxVersion = MaxVersion t,
     cf_ClientAuth = ClientAuth t, cf_CipherSuites = [], cf_CurvePreferences = [], NextProtos = [], ClientCAs = None,
     cf_GetCertificate = None, InsecureSkipVerify = False, ServerName = [], RootCAs = None\<rparr>"

definition BuildTLSConfig :: "tls_lib \<Rightarrow> tls_settings \<Rightarrow> go_error + tls_config" where
  "BuildTLSConfig lib t =
     (case load_pair lib (CertFile t) (KeyFile t) of
        Inl err \<Rightarrow> Inl (NewWithCause TLSError ''failed to load certificate'' (Some err))
      | Inr cert \<Rightarrow>
          let c = base_config cert t;
              c = (if length (CipherSuites t) > 0 then c\<lparr>cf_CipherSuites := CipherSuites t\<rparr> else c);
              c = (if length (CurvePreferences t) > 0 then c\<lparr>cf_CurvePreferences := CurvePreferences t\<rparr> else c);
              c = (if EnableH2 t then c\<lparr>NextProtos := [''h2'', ''http/1.1'']\<rparr> else c\<lparr>NextProtos := [''http/1.1'']\<rparr>);
              sni = (\<lambda>c. case SNICallback t of None \<Rightarrow> c | Some f \<Rightarrow> c\<lparr>cf_GetCertificate := Some f\<rparr>)
          in if CAFile t \<noteq> [] then
               (case read_file lib (CAFile t) of
                  Inl err \<Rightarrow> Inl (NewWithCause TLSError ''failed to read CA file'' (Some err))
                | Inr caCert \<Rightarrow>
                    (case pool_from_pem lib caCert of
                       None \<Rightarrow> Inl (New TLSError ''failed to parse CA certificate'')
                     | Some caCertPool \<Rightarrow> Inr (sni (c\<lparr>ClientCAs := Some caCertPool\<rparr>))))
             else Inr (sni c))"

record tls_listener =
  tl_listener :: listener
  tl_config :: tls_config

definition NewTLSListener :: "tls_lib \<Rightarrow> listener \<Rightarrow> tls_settings \<Rightarrow> go_error + tls_listener" where
  "NewTLSListener lib l settings =
     (case BuildTLSConfig lib settings of
        Inl err \<Rightarrow> Inl err
      | Inr c \<Rightarrow> Inr \<lparr>tl_listener = l, tl_config = c\<rparr>)"

text \<open>\<open>accepted\<close> is what the listener below gives.\<close>

definition tl_Accept :: "(listener \<Rightarrow> go_error + conn) \<Rightarrow> tls_listener \<Rightarrow> go_error + conn" where
  "tl_Accept accepted l = accepted (tl_listener l)"

definition tl_Close :: "tls_listener \<Rightarrow> tls_listener" where
  "tl_Close l = l\<lparr>tl_listener := close_listener (tl_listener l)\<rparr>"

definition tl_Addr :: "tls_listener \<Rightarrow> string" where
  "tl_Addr l = ln_address (tl_listener l)"

section \<open>The client\<close>

record tls_client_config =
  cc_InsecureSkipVerify :: bool
  cc_ServerName :: string
  cc_RootCAs :: "cert_pool option"
  ClientCertificates :: "cert list"
  cc_MinVersion :: "16 word"
  cc_MaxVersion :: "16 word"

record tls_client =
  tc_config :: tls_config
  tc_client :: http_client

definition NewTLSClient :: "tls_client_config option \<Rightarrow> tls_client" where
  "NewTLSClient cfg =
     (let cfg = (case cfg of
            None \<Rightarrow> \<lparr>cc_InsecureSkipVerify = False, cc_ServerName = [], cc_RootCAs = None, ClientCertificates = [],
                     cc_MinVersion = VersionTLS12, cc_MaxVersion = VersionTLS13\<rparr>
          | Some c \<Rightarrow> c)
      in \<lparr>tc_config = \<lparr>Certificates = ClientCertificates cfg, cf_MinVersion = cc_MinVersion cfg,
            cf_MaxVersion = cc_MaxVersion cfg, cf_ClientAuth = 0, cf_CipherSuites = [], cf_CurvePreferences = [],
            NextProtos = [], ClientCAs = None, cf_GetCertificate = None,
            InsecureSkipVerify = cc_InsecureSkipVerify cfg, ServerName = cc_ServerName cfg, RootCAs = cc_RootCAs cfg\<rparr>,
          tc_client = \<lparr>DialTimeout = 10 * second, DialKeepAlive = 30 * second, tr_MaxIdleConns = 100,
            tr_MaxIdleConnsPerHost = 0, tr_IdleConnTimeout = 90 * second, tr_TLSHandshakeTimeout = 10 * second,
            tr_DisableCompression = False, cl_Timeout = 30 * second\<rparr>\<rparr>)"

definition tc_GetClient :: "tls_client \<Rightarrow> http_client" where
  "tc_GetClient c = tc_client c"

definition tc_GetConfig :: "tls_client \<Rightarrow> tls_config" where
  "tc_GetConfig c = tc_config c"

section \<open>The certificate manager\<close>

type_synonym certificate_manager = "(string, cert) gomap"

definition NewCertificateManager :: certificate_manager where
  "NewCertificateManager = []"

definition AddCertificate :: "tls_lib \<Rightarrow> string \<Rightarrow> string \<Rightarrow> string \<Rightarrow> certificate_manager \<Rightarrow> go_error option \<times> certificate_manager" where
  "AddCertificate lib hostname certFile keyFile cm =
     (case load_pair lib certFile keyFile of
        Inl err \<Rightarrow> (Some (NewWithCause TLSError ''failed to load certificate'' (Some err)), cm)
      | Inr c \<Rightarrow> (None, mput hostname c cm))"

definition RemoveCertificate :: "string \<Rightarrow> certificate_manager \<Rightarrow> certificate_manager" where
  "RemoveCertificate hostname cm = mdel hostname cm"

definition GetCertificate :: "certificate_manager \<Rightarrow> string \<Rightarrow> go_error + cert" where
  "GetCertificate cm serverName =
     (case map_of cm serverName of
        Some c \<Rightarrow> Inr c
      | None \<Rightarrow> (case map_of cm ''*'' of
          Some c \<Rightarrow> Inr c
        | None \<Rightarrow> Inl (New TLSError ''no certificate found for hostname'')))"

definition ListCertificates :: "((string \<times> cert) list \<Rightarrow> (string \<times> cert) list) \<Rightarrow> certificate_manager \<Rightarrow> string list" where
  "ListCertificates sh cm = mkeys (sh cm)"

section \<open>Checking certificate files\<close>

definition ValidateCertificate :: "tls_lib \<Rightarrow> string \<Rightarrow> string \<Rightarrow> go_error option" where
  "ValidateCertificate lib certFile keyFile =
     (case load_pair lib certFile keyFile of
        Inl err \<Rightarrow> Some (NewWithCause TLSError ''invalid certificate/key pair'' (Some err))
      | Inr c \<Rightarrow> None)"

text \<open>\<open>tls.X509KeyPair\<close>: the certificates first, then the key, which must hold a block.\<close>

definition X509KeyPair :: "tls_lib \<Rightarrow> string \<Rightarrow> string \<Rightarrow> go_error + cert list" where
  "X509KeyPair lib certPEM keyPEM =
     (case pem_certs lib certPEM of
        Inl err \<Rightarrow> Inl err
      | Inr cs \<Rightarrow>
          if keyPEM = [] then Inl (External ''tls: failed to find any PEM data in key input'')
          else case match_key lib cs keyPEM of Some err \<Rightarrow> Inl err | None \<Rightarrow> Inr cs)"

definition GetCertificateInfo :: "tls_lib \<Rightarrow> string \<Rightarrow> go_error + string" where
  "GetCertificateInfo lib certFile =
     (case read_file lib certFile of
        Inl err \<Rightarrow> Inl (NewWithCause TLSError ''failed to read certificate file'' (Some err))
      | Inr certPEM \<Rightarrow>
          (case X509KeyPair lib certPEM [] of
             Inl err \<Rightarrow> Inl (NewWithCause TLSError ''failed to parse certificate'' (Some err))
           | Inr cs \<Rightarrow>
               if length cs = 0 then Inl (New TLSError ''no certificate found'')
               else case parse_cert lib (cs ! 0) of
                      Inl err \<Rightarrow> Inl (NewWithCause TLSError ''failed to parse X509 certificate'' (Some err))
                    | Inr x \<Rightarrow> Inr x))"

section \<open>What the operations give\<close>

text \<open>A configuration is built when everything loads; a callback for certificates is not enough.\<close>

lemma BuildTLSConfig_ok:
  "(\<exists>c. BuildTLSConfig lib t = Inr c) \<longleftrightarrow>
     (\<exists>cert. load_pair lib (CertFile t) (KeyFile t) = Inr cert) \<and>
     (CAFile t \<noteq> [] \<longrightarrow> (\<exists>pem p. read_file lib (CAFile t) = Inr pem \<and> pool_from_pem lib pem = Some p))"
  by (auto simp: BuildTLSConfig_def Let_def split: sum.splits option.splits)

lemma optional_lists:
  "(if length (CipherSuites t) > 0 then (base_config cert t)\<lparr>cf_CipherSuites := CipherSuites t\<rparr> else base_config cert t) =
     (base_config cert t)\<lparr>cf_CipherSuites := CipherSuites t\<rparr>"
  "(if length (CurvePreferences t) > 0
    then (base_config cert t)\<lparr>cf_CipherSuites := cs, cf_CurvePreferences := CurvePreferences t\<rparr>
    else (base_config cert t)\<lparr>cf_CipherSuites := cs\<rparr>) =
     (base_config cert t)\<lparr>cf_CipherSuites := cs, cf_CurvePreferences := CurvePreferences t\<rparr>"
  by (cases "CipherSuites t"; simp add: base_config_def) (cases "CurvePreferences t"; simp add: base_config_def)

lemma BuildTLSConfig_value:
  assumes "BuildTLSConfig lib t = Inr c"
  shows "\<exists>cert cas. load_pair lib (CertFile t) (KeyFile t) = Inr cert \<and> (cas = None \<longleftrightarrow> CAFile t = []) \<and>
     c = (base_config cert t)\<lparr>cf_CipherSuites := CipherSuites t, cf_CurvePreferences := CurvePreferences t,
           NextProtos := (if EnableH2 t then [''h2'', ''http/1.1''] else [''http/1.1'']), ClientCAs := cas,
           cf_GetCertificate := SNICallback t\<rparr>"
proof -
  obtain cert where cert: "load_pair lib (CertFile t) (KeyFile t) = Inr cert"
    using assms by (auto simp: BuildTLSConfig_def split: sum.splits)
  let ?c = "(base_config cert t)\<lparr>cf_CipherSuites := CipherSuites t, cf_CurvePreferences := CurvePreferences t,
    NextProtos := (if EnableH2 t then [''h2'', ''http/1.1''] else [''http/1.1''])\<rparr>"
  let ?sni = "\<lambda>c. case SNICallback t of None \<Rightarrow> c | Some f \<Rightarrow> c\<lparr>cf_GetCertificate := Some f\<rparr>"
  have protos: "(if EnableH2 t then c\<lparr>NextProtos := x\<rparr> else c\<lparr>NextProtos := y\<rparr>) =
      c\<lparr>NextProtos := if EnableH2 t then x else y\<rparr>" for c :: tls_config and x y by simp
  have eq: "BuildTLSConfig lib t =
     (if CAFile t \<noteq> [] then
        (case read_file lib (CAFile t) of
           Inl err \<Rightarrow> Inl (NewWithCause TLSError ''failed to read CA file'' (Some err))
         | Inr caCert \<Rightarrow> (case pool_from_pem lib caCert of
             None \<Rightarrow> Inl (New TLSError ''failed to parse CA certificate'')
           | Some p \<Rightarrow> Inr (?sni (?c\<lparr>ClientCAs := Some p\<rparr>))))
      else Inr (?sni ?c))"
    unfolding BuildTLSConfig_def cert sum.case Let_def optional_lists protos ..
  have "(case SNICallback t of None \<Rightarrow> ?c\<lparr>ClientCAs := p\<rparr> | Some f \<Rightarrow> ?c\<lparr>ClientCAs := p, cf_GetCertificate := Some f\<rparr>) =
      ?c\<lparr>ClientCAs := p, cf_GetCertificate := SNICallback t\<rparr>" for p
    by (cases "SNICallback t") (simp_all add: base_config_def)
  note sni = this
  have none: "?c\<lparr>ClientCAs := None\<rparr> = ?c" by (simp add: base_config_def)
  show ?thesis
  proof (cases "CAFile t = []")
    case True
    with assms eq have "c = ?sni (?c\<lparr>ClientCAs := None\<rparr>)" by (simp only: none) simp
    with cert True show ?thesis unfolding sni by blast
  next
    case False
    with assms eq obtain p where "c = ?sni (?c\<lparr>ClientCAs := Some p\<rparr>)"
      by (auto split: sum.splits option.splits)
    with cert False show ?thesis unfolding sni by blast
  qed
qed

text \<open>
  The certificate manager is a map with a default: after any additions and removals a host
  name gets its own certificate, or that of \<open>*\<close>.
\<close>

datatype cm_event = CmAdd string string string | CmRemove string

fun cm_step :: "tls_lib \<Rightarrow> cm_event \<Rightarrow> certificate_manager \<Rightarrow> certificate_manager" where
  "cm_step lib (CmAdd host cert key) cm = snd (AddCertificate lib host cert key cm)"
| "cm_step lib (CmRemove host) cm = RemoveCertificate host cm"

text \<open>The certificate of the last event about a host that changed it.\<close>

fun own_step :: "tls_lib \<Rightarrow> string \<Rightarrow> cm_event \<Rightarrow> cert option \<Rightarrow> cert option" where
  "own_step lib h (CmAdd host cert key) o' =
     (case load_pair lib cert key of Inr c \<Rightarrow> if host = h then Some c else o' | Inl e \<Rightarrow> o')"
| "own_step lib h (CmRemove host) o' = (if host = h then None else o')"

definition own :: "tls_lib \<Rightarrow> string \<Rightarrow> cm_event list \<Rightarrow> cert option" where
  "own lib h es = fold (own_step lib h) es None"

lemma certificates_by_name:
  "GetCertificate (fold (cm_step lib) es NewCertificateManager) host =
     (case own lib host es of
        Some c \<Rightarrow> Inr c
      | None \<Rightarrow> (case own lib ''*'' es of
          Some c \<Rightarrow> Inr c | None \<Rightarrow> Inl (New TLSError ''no certificate found for hostname'')))"
proof -
  have step: "map_of (cm_step lib e cm) h = own_step lib h e (map_of cm h)" for e cm h
    by (cases e) (auto simp: AddCertificate_def RemoveCertificate_def mput_lookup mdel_lookup split: sum.splits)
  have all: "map_of (fold (cm_step lib) es cm) h = fold (own_step lib h) es (map_of cm h)" for cm h
    by (induction es arbitrary: cm) (simp_all add: step)
  show ?thesis unfolding GetCertificate_def own_def NewCertificateManager_def all map_of.simps(1) ..
qed

lemma listed_certificates:
  "is_shuffle sh \<Longrightarrow> set (ListCertificates sh cm) = {h. map_of cm h \<noteq> None}"
  using set_mkeys [of cm] by (auto simp: ListCertificates_def mkeys_def shuffle_set dom_def)

text \<open>\<open>GetCertificateInfo\<close> passes no key where one is required: it fails for every file.\<close>

lemma certificate_info_always_fails:
  "\<exists>msg cause. GetCertificateInfo lib certFile = Inl (NewWithCause TLSError msg cause)"
  by (auto simp: GetCertificateInfo_def X509KeyPair_def split: sum.splits)

end
