(* ===== verification/Spec2Isabelle.thy ===== *)
theory Spec2Isabelle
  imports LoadBalancing WeightedKetama TieredCache MultiLimiter Concurrency Circuit Retry Timers HttpParse Commands Tls
begin

text \<open>
  A verification development for pinGo, a proxy framework in Go.

  \<^bold>\<open>The program.\<close>  A server (\<open>pkg/core\<close>) runs services: the proxy (\<open>pkg/proxy\<close>) and an echo
  service (\<open>internal/examples\<close>).  The proxy selects an upstream with a balancer
  (\<open>pkg/loadbalancing\<close>), takes an HTTP client from a pool (\<open>pkg/pool\<close>), forwards the request
  and relays the response.  Beside it stand libraries that the proxy does not call yet:
  consistent hashing (\<open>pkg/ketama\<close>), caches (\<open>pkg/cache\<close>), rate and concurrency limits
  (\<open>pkg/limits\<close>), timers, retries and a circuit breaker (\<open>pkg/timeout\<close>), header parsing
  (\<open>pkg/http\<close>) and TLS settings (\<open>pkg/tls\<close>).  All of them return the errors of \<open>pkg/errors\<close>.
  The programs \<open>cmd/pingora\<close> and \<open>cmd/examples\<close> put the services together.

  \<^bold>\<open>Conventions\<close> (\<open>Prelude\<close>, \<open>GoLib\<close>, \<open>GoFloat\<close>).  A Go string is a list of 8-bit characters; an
  \<open>int\<close> is a HOL integer with the 64-bit wrap-around \<open>i64\<close> written where the code can leave its
  range, or a word where the code uses an unsigned counter.  A map is an association list; a
  loop over a map takes a permutation of it as an argument and its theorems hold for every one.
  Instants and durations are nanoseconds; the conversion of a duration to floating seconds is
  rounded as IEEE doubles are (\<open>fl\<close>).  An error is a value of \<open>go_error\<close> in a sum or an option.
  A method under one lock is a function of the state; where locks are released half way, or
  goroutines are started, the model has steps that interleave.  A panic, a fatal error and a
  loop that never ends are values: \<open>None\<close>, or a constructor of their own.

  \<^bold>\<open>The theories.\<close>

  \<open>Errors\<close>: \<open>errors.go\<close>, the error type, its text, status and constructors, and \<open>Result\<close>.

  \<open>LoadBalancing\<close>: \<open>balancer.go\<close>.  The three balancers meet one contract, the locale
  \<open>lb_contract\<close>: a backend marked unhealthy is not selected under any interleaving of calls,
  and a selection fails exactly when no backend is healthy.  Round robin is fair; least
  connection takes the minimum.  Nothing ever decrements its counts, so with all backends
  healthy it is round robin.  Its selection is a choice and a count, between which another
  selection may run; what is proved of the choice then is \<open>pick_after_claims\<close>.

  \<open>Ketama\<close>, \<open>WeightedKetama\<close>: \<open>ketama.go\<close>.  The ring refines the function that takes the first
  point clockwise; adding a node moves keys only to it, removing one moves only its keys, as
  long as points do not collide; where they do, a removal takes the shared points along.
  \<open>GetNodes\<close> ends.  The digest is an argument.  Updating the list of nodes is proved once over
  the locale \<open>node_set\<close>.

  \<open>Cache\<close>, \<open>TieredCache\<close>: \<open>cache.go\<close>.  The memory cache keeps its accounts, stays within its
  limits and returns the last value set or nothing; it evicts what was used least recently.
  \<open>cache_contract\<close> is the interface: the memory cache and the no-op cache meet it, and two
  caches that do make a tiered cache that does.  The loop that evicts is a partial function;
  it is shown to end except in the case given by a theorem.

  \<open>RateLimiter\<close>, \<open>TokenBucket\<close>, \<open>Windows\<close>, \<open>MultiLimiter\<close>, \<open>Concurrency\<close>: \<open>limiter.go\<close>.  Bounds on
  what each limiter admits in an interval; what a composition charges; the wait loop, over the
  rounds it makes with other callers in between (locale \<open>rate_limiter\<close>).  The concurrency
  limiter is a step relation over its mutex and its goroutines.

  \<open>Circuit\<close>, \<open>Retry\<close>, \<open>Timers\<close>: \<open>timeout.go\<close>.  The breaker refines the count of failures since
  the last success; a retry makes attempts to the first success with doubled and capped waits;
  the timers that starts arm are all accounted for in any schedule, and a start leads to one
  callback or one stop when a firing timer is handled before the next call.

  \<open>HttpHeaders\<close>, \<open>HttpParse\<close>: \<open>headers.go\<close>.  Headers are a map from names without case; versions
  and cache directives read back from their text.

  \<open>Pool\<close>: \<open>pool.go\<close>.  In proper use the TCP pool keeps its limit and hands no connection to two
  callers; its own HTTP client does not use it properly.

  \<open>Server\<close>, \<open>Listeners\<close>, \<open>Services\<close>: \<open>server.go\<close> and the life of the services.  A run of the
  server is a step relation over the goroutines of \<open>RunForever\<close> and \<open>gracefulShutdown\<close> and a
  store of the services they point to, for any kind of service that meets the locale
  \<open>stoppable_service\<close>; the services of the program meet it, so a run that ends without an error
  has stopped each service and left no listener of it open, or has logged the error of its stop.

  \<open>Proxy\<close>, \<open>ProxyRequests\<close>: \<open>proxy.go\<close>.  Which configurations give a service, what an upstream
  gets for a request and what the client gets for its response, on every branch, through a
  response writer that checks the declared length and drops the body for a \<open>HEAD\<close>.

  \<open>Tls\<close>: \<open>tls.go\<close>.  When a configuration is built and what it holds; the certificate manager is
  a map with a default.

  \<open>Echo\<close>, \<open>Commands\<close>: the echo service, the examples and the two commands, with what they
  print and how they end.

  \<^bold>\<open>Bounds.\<close>  Durations turned into floating seconds are exact up to 97 days (\<open>2 ^ 23\<close> seconds),
  which bounds the theorems that convert them.  Counters and sizes are assumed below \<open>2 ^ 62\<close>
  or \<open>2 ^ 63\<close> where a theorem says so; no other integer is bounded.  The wait loops run for as
  many rounds as the sequence of rounds they are given, and their theorems hold for every such
  sequence.

  \<^bold>\<open>Not modelled.\<close>  Sockets, the HTTP exchange, TLS handshakes and file contents are arguments
  of the operations that use them.  Logging is left out, but for the errors that the server
  logs and the final message of a fatal error.  Data races are outside the model: methods that
  read shared fields without a lock are taken as atomic, and the findings name the race that
  the random balancer has.  One call of \<open>Acquire\<close> runs at a time.  The parts of a composed limiter
  are different objects.  Memory is unbounded: \<open>make\<close> does not panic for want of it.  A client
  that goes away while it is answered is left out.  Text that is not ASCII is trimmed and put in lower case by an
  argument.  The cleaning of paths by the library's request router is not modelled.  The
  interfaces of \<open>core\<close> without an implementation (connectors, sessions, background services)
  have nothing to model.
\<close>

end
